(* ===== verification/Prelude.thy ===== *)
theory Prelude
  imports Main "HOL-Library.Word" "HOL-Library.Monad_Syntax" "HOL-Library.Multiset"
begin

text \<open>
  Shared vocabulary of the Pintos development.

  Machine types: the kernel is a 32-bit x86 program, so \<open>size_t\<close>, \<open>unsigned\<close>, \<open>uint32_t\<close>
  and \<open>unsigned long\<close> are all 32-bit words, \<open>uint8_t\<close> is an 8-bit word, \<open>uint64_t\<close> a 64-bit
  word (\<open>lib/stdint.h\<close>).

  Panics: \<open>ASSERT\<close> (lib/debug.h) stops the kernel when its argument is false, and a memory
  access outside an object has no defined result.  Both are the value \<open>None\<close> of the option
  monad; a function that can panic returns an option and is written in \<open>do\<close> notation, so that
  every \<open>ASSERT\<close> of the source is a line of the model.  Failures that the source reports to
  its caller (a false, a null pointer, an error code) are ordinary values inside \<open>Some\<close>.
\<close>

unbundle bit_operations_syntax

type_synonym byte = "8 word"
type_synonym u16 = "16 word"
type_synonym u32 = "32 word"
type_synonym u64 = "64 word"
type_synonym size_t = "32 word"

named_theorems panic_simps \<open>simplification of assertions and of sequencing in the option monad\<close>
named_theorems word_to_nat \<open>translation of word arithmetic without wrap-around to naturals\<close>

definition ASSERT :: "bool \<Rightarrow> unit option" where
  "ASSERT P = (if P then Some () else None)"

definition arr_get :: "'a list \<Rightarrow> nat \<Rightarrow> 'a option" where
  "arr_get xs i = (if i < length xs then Some (xs ! i) else None)"

definition arr_set :: "'a list \<Rightarrow> nat \<Rightarrow> 'a \<Rightarrow> 'a list option" where
  "arr_set xs i v = (if i < length xs then Some (xs[i := v]) else None)"

definition DIV_ROUND_UP :: "'a::len word \<Rightarrow> 'a word \<Rightarrow> 'a word" where
  "DIV_ROUND_UP x step = (x + step - 1) div step"

definition ROUND_UP :: "'a::len word \<Rightarrow> 'a word \<Rightarrow> 'a word" where
  "ROUND_UP x step = (x + step - 1) div step * step"

text \<open>Little-endian storage of a 32-bit word, as the x86 keeps it in memory.\<close>

definition le_bytes :: "u32 \<Rightarrow> byte list" where
  "le_bytes w = [ucast w, ucast (drop_bit 8 w), ucast (drop_bit 16 w), ucast (drop_bit 24 w)]"

fun le_word :: "byte list \<Rightarrow> u32" where
  "le_word (a # b # c # d # _) =
     ucast a OR push_bit 8 (ucast b) OR push_bit 16 (ucast c) OR push_bit 24 (ucast d)"
| "le_word _ = 0"

fun le_words :: "byte list \<Rightarrow> u32 list" where
  "le_words (a # b # c # d # bs) = le_word [a, b, c, d] # le_words bs"
| "le_words _ = []"

subsection \<open>Panics\<close>

fun fold_opt :: "('a \<Rightarrow> 's \<Rightarrow> 's option) \<Rightarrow> 'a list \<Rightarrow> 's \<Rightarrow> 's option" where
  "fold_opt f [] s = Some s"
| "fold_opt f (x # xs) s = do { s' \<leftarrow> f x s; fold_opt f xs s' }"

lemma ASSERT_simps [simp, panic_simps]:
  "ASSERT True = Some ()"
  "ASSERT False = None"
  by (simp_all add: ASSERT_def)

lemma ASSERT_eq_Some [simp, panic_simps]: "ASSERT P = Some u \<longleftrightarrow> P"
  by (simp add: ASSERT_def)

lemma bind_ASSERT [panic_simps]: "Option.bind (ASSERT P) f = (if P then f () else None)"
  by (simp add: ASSERT_def)

lemma bind_ASSERT_eq_Some [simp]:
  "Option.bind (ASSERT P) f = Some y \<longleftrightarrow> P \<and> f () = Some y"
  by (simp add: ASSERT_def)

lemmas bind_Some_iff [panic_simps] = Option.bind_eq_Some_conv

subsection \<open>Arrays\<close>

lemma arr_get_Some [simp]: "arr_get xs i = Some v \<longleftrightarrow> i < length xs \<and> v = xs ! i"
  by (auto simp: arr_get_def)

lemma arr_get_in [simp]: "i < length xs \<Longrightarrow> arr_get xs i = Some (xs ! i)"
  by (simp add: arr_get_def)

lemma arr_get_out [simp]: "length xs \<le> i \<Longrightarrow> arr_get xs i = None"
  by (simp add: arr_get_def)

lemma arr_set_Some [simp]: "arr_set xs i v = Some ys \<longleftrightarrow> i < length xs \<and> ys = xs[i := v]"
  by (auto simp: arr_set_def)

lemma arr_set_in [simp]: "i < length xs \<Longrightarrow> arr_set xs i v = Some (xs[i := v])"
  by (simp add: arr_set_def)

subsection \<open>Words and naturals\<close>

lemma unat_inc_less [word_to_nat]: "i < n \<Longrightarrow> unat (i + 1) = Suc (unat i)"
  for i n :: "'a::len word"
proof -
  assume "i < n"
  then have "Suc (unat i) < 2 ^ LENGTH('a)"
    using unsigned_less [of n] unfolding word_less_nat_alt
    by (rule le_less_trans [OF Suc_leI])
  then show ?thesis by (simp add: unat_word_ariths)
qed

lemma count_up_measure: "i \<le> n \<Longrightarrow> i \<noteq> n \<Longrightarrow> unat n - unat (i + 1) < unat n - unat i"
  for i n :: "'a::len word"
proof -
  assume "i \<le> n" "i \<noteq> n"
  then have "i < n" by simp
  then show ?thesis by (simp add: unat_inc_less word_less_nat_alt diff_less_mono2)
qed

lemma count_below_measure: "i < n \<Longrightarrow> unat n - unat (i + 1) < unat n - unat i"
  for i n :: "'a::len word"
  by (rule count_up_measure) auto

lemma unat_add_le [word_to_nat]:
  "unat a + unat b \<le> unat c \<Longrightarrow> unat (a + b) = unat a + unat b"
  for a b c :: "'a::len word"
  by (rule iffD1 [OF unat_add_lem]) (erule le_less_trans [OF _ unsigned_less [of c]])

lemma unat_add_less [word_to_nat]:
  "unat a + unat b < unat c \<Longrightarrow> unat (a + b) = unat a + unat b"
  for a b c :: "'a::len word"
  by (rule unat_add_le [of a b c]) simp

lemma unat_sub_le [word_to_nat]: "b \<le> a \<Longrightarrow> unat (a - b) = unat a - unat b"
  for a b :: "'a::len word"
  by (rule unat_sub)

lemma unat_pred: "x \<noteq> 0 \<Longrightarrow> unat (x - 1) = unat x - 1"
  for x :: "'a::len word"
  using unat_sub [of 1 x] by (simp add: word_le_nat_alt Suc_le_eq unat_gt_0)

lemma word_pred_less: "x \<noteq> 0 \<Longrightarrow> x - 1 < x"
  for x :: "'a::len word"
  by (simp add: word_less_nat_alt unat_pred unat_gt_0)

lemma unat_u32_bound: "unat w < 4294967296"
  for w :: u32
  using unsigned_less [of w, where 'a = nat] by simp

subsection \<open>Storage\<close>

lemma length_le_bytes [simp]: "length (le_bytes w) = 4"
  by (simp add: le_bytes_def)

lemma le_word_le_bytes [simp]: "le_word (le_bytes w) = w"
proof (rule bit_word_eqI)
  fix n assume "n < LENGTH(32)"
  then have "n < 32" by simp
  then consider "n < 8" | "8 \<le> n" "n < 16" | "16 \<le> n" "n < 24" | "24 \<le> n" "n < 32"
    by linarith
  then show "bit (le_word (le_bytes w)) n = bit w n"
    by cases (auto simp: le_bytes_def bit_simps less_diff_conv2)
qed

lemma le_words_bytes [simp]: "le_words (concat (map le_bytes ws)) = ws"
proof (induction ws)
  case Nil
  then show ?case by simp
next
  case (Cons w ws)
  have "le_words (le_bytes w @ bs) = le_word (le_bytes w) # le_words bs" for bs
    by (simp add: le_bytes_def)
  with Cons show ?case by simp
qed

lemma length_concat_le_bytes [simp]: "length (concat (map le_bytes ws)) = 4 * length ws"
  by (induction ws) auto

lemma take_concat_le_bytes: "take (4 * k) (concat (map le_bytes ws)) = concat (map le_bytes (take k ws))"
  by (induction ws arbitrary: k) (auto simp: take_Cons split: nat.split)

lemma drop_concat_le_bytes: "drop (4 * k) (concat (map le_bytes ws)) = concat (map le_bytes (drop k ws))"
  by (induction ws arbitrary: k) (auto simp: drop_Cons split: nat.split)

lemma length_le_words: "length (le_words bs) = length bs div 4"
  by (induction bs rule: le_words.induct) auto

subsection \<open>Ranges of a list\<close>

definition fill_range :: "'a list \<Rightarrow> nat \<Rightarrow> nat \<Rightarrow> 'a \<Rightarrow> 'a list" where
  "fill_range xs s n v = map (\<lambda>j. if s \<le> j \<and> j < s + n then v else xs ! j) [0..<length xs]"

definition run_at :: "'a list \<Rightarrow> nat \<Rightarrow> 'a \<Rightarrow> nat \<Rightarrow> bool" where
  "run_at xs n v i \<longleftrightarrow> (\<forall>x \<in> set (take n (drop i xs)). x = v)"

definition find_run :: "'a list \<Rightarrow> nat \<Rightarrow> nat \<Rightarrow> 'a \<Rightarrow> nat option" where
  "find_run xs s n v =
     (if n \<le> length xs then find (run_at xs n v) [s..<Suc (length xs - n)] else None)"

lemma length_fill_range [simp]: "length (fill_range xs s n v) = length xs"
  by (simp add: fill_range_def)

lemma nth_fill_range [simp]:
  "j < length xs \<Longrightarrow> fill_range xs s n v ! j = (if s \<le> j \<and> j < s + n then v else xs ! j)"
  by (simp add: fill_range_def)

lemma fill_range_0 [simp]: "fill_range xs s 0 v = xs"
  by (rule nth_equalityI) auto

lemma fill_range_Suc: "fill_range (xs[s := v]) (Suc s) n v = fill_range xs s (Suc n) v"
  by (rule nth_equalityI) (auto simp: nth_list_update)

lemma fill_range_all: "fill_range xs 0 (length xs) v = replicate (length xs) v"
  by (rule nth_equalityI) auto

lemma run_at_nth: "i + n \<le> length xs \<Longrightarrow> run_at xs n v i \<longleftrightarrow> (\<forall>j<n. xs ! (i + j) = v)"
  by (auto simp: run_at_def all_set_conv_all_nth)

lemma take_drop_Suc:
  "s < length xs \<Longrightarrow> take (Suc n) (drop s xs) = xs ! s # take n (drop (Suc s) xs)"
  by (simp add: Cons_nth_drop_Suc [symmetric])

lemma find_run_SomeD:
  assumes "find_run xs s n v = Some i"
  shows "s \<le> i \<and> i + n \<le> length xs \<and> run_at xs n v i \<and>
    (\<forall>j. s \<le> j \<longrightarrow> j < i \<longrightarrow> \<not> run_at xs n v j)"
proof -
  from assms have n: "n \<le> length xs"
    and "find (run_at xs n v) [s..<Suc (length xs - n)] = Some i"
    by (auto simp: find_run_def split: if_splits)
  then obtain k where k: "k < length [s..<Suc (length xs - n)]"
      "run_at xs n v ([s..<Suc (length xs - n)] ! k)" "i = [s..<Suc (length xs - n)] ! k"
      "\<forall>j<k. \<not> run_at xs n v ([s..<Suc (length xs - n)] ! j)"
    by (auto simp: find_Some_iff simp del: upt_Suc)
  then have i: "i = s + k" "s + k < Suc (length xs - n)" by (auto simp del: upt_Suc)
  then have "\<not> run_at xs n v j" if "s \<le> j" "j < i" for j
    using k(4)[rule_format, of "j - s"] that by (auto simp del: upt_Suc)
  with n i k(2,3) show ?thesis by auto
qed

lemma find_run_NoneD:
  "find_run xs s n v = None \<Longrightarrow> s \<le> i \<Longrightarrow> i + n \<le> length xs \<Longrightarrow> \<not> run_at xs n v i"
  by (auto simp: find_run_def find_None_iff split: if_splits)

lemma count_list_replicate_same [simp]: "count_list (replicate n v) v = n"
  by (induction n) auto

lemma fill_back:
  assumes "s + n \<le> length xs" "run_at xs n v s"
  shows "fill_range (fill_range xs s n w) s n v = xs"
proof (rule nth_equalityI)
  fix i assume "i < length (fill_range (fill_range xs s n w) s n v)"
  moreover have "xs ! i = v" if "s \<le> i" "i < s + n"
  proof -
    from assms have "\<forall>j<n. xs ! (s + j) = v" by (simp add: run_at_nth)
    from this [rule_format, of "i - s"] that show ?thesis by simp
  qed
  ultimately show "fill_range (fill_range xs s n w) s n v ! i = xs ! i" by auto
qed simp

lemma run_filled: "s + n \<le> length xs \<Longrightarrow> run_at (fill_range xs s n v) n v s"
  by (simp add: run_at_nth)

lemma fold_opt_append: "fold_opt f (xs @ ys) s = Option.bind (fold_opt f xs s) (fold_opt f ys)"
proof (induction xs arbitrary: s)
  case (Cons x xs)
  then show ?case by (cases "f x s") auto
qed simp

lemma fold_opt_concat: "fold_opt (\<lambda>xs. fold_opt f xs) xss s = fold_opt f (concat xss) s"
proof (induction xss arbitrary: s)
  case (Cons xs xss)
  then show ?case by (cases "fold_opt f xs s") (auto simp: fold_opt_append)
qed simp

lemma fold_opt_single [simp]: "fold_opt f [x] = f x"
proof
  show "fold_opt f [x] s = f x s" for s by (cases "f x s") simp_all
qed

lemma distinct_concat_map:
  assumes "distinct ks" "\<And>i. i \<in> set ks \<Longrightarrow> distinct (f i)"
    "\<And>i j. i \<in> set ks \<Longrightarrow> j \<in> set ks \<Longrightarrow> set (f i) \<inter> set (f j) \<noteq> {} \<Longrightarrow> i = j"
  shows "distinct (concat (map f ks))"
  using assms
proof (induction ks)
  case (Cons k ks)
  have "set (f k) \<inter> set (f j) = {}" if "j \<in> set ks" for j
    using Cons.prems(1) Cons.prems(3) [of k j] that by auto
  with Cons show ?case by auto
qed simp

lemma count_down_measure: "0 < n \<Longrightarrow> unat (n - 1) < unat n"
  for n :: "'a::len word"
  using unat_pred [of n] by (simp add: word_less_nat_alt unat_gt_0)

end
