(* ===== verification/Natural_Merge.thy ===== *)
theory Natural_Merge
  imports Prelude "HOL-Library.Multiset"
begin

text \<open>
  The orders that callers pass to the list library, and the natural merge sort of
  \<open>lib/kernel/list.c\<close> on the level of sequences: maximal nondecreasing runs, the merge of two
  adjacent runs, and one pass over the list.  The theory \<open>List_Sort\<close> shows that the pointer code
  computes these functions.  The lemmas: a pass halves the number of runs, and it permutes the
  elements without changing the order of equivalent ones.
\<close>

section \<open>Runs and passes\<close>

type_synonym 'a less = "'a \<Rightarrow> 'a \<Rightarrow> bool"

fun nondec :: "'a less \<Rightarrow> 'a list \<Rightarrow> bool" where
  "nondec lt (x # y # zs) \<longleftrightarrow> \<not> lt y x \<and> nondec lt (y # zs)"
| "nondec lt _ \<longleftrightarrow> True"

fun split_run :: "'a less \<Rightarrow> 'a \<Rightarrow> 'a list \<Rightarrow> 'a list \<times> 'a list" where
  "split_run lt x [] = ([x], [])"
| "split_run lt x (y # ys) =
     (if lt y x then ([x], y # ys) else let (r, s) = split_run lt y ys in (x # r, s))"

fun merge_runs :: "'a less \<Rightarrow> 'a list \<Rightarrow> 'a list \<Rightarrow> 'a list" where
  "merge_runs lt [] bs = bs"
| "merge_runs lt as [] = as"
| "merge_runs lt (a # as) (b # bs) =
     (if lt b a then b # merge_runs lt (a # as) bs else a # merge_runs lt as (b # bs))"

lemma split_run_length: "split_run lt x ys = (r, s) \<Longrightarrow> length s \<le> length ys"
proof (induction ys arbitrary: x r s)
  case (Cons y ys)
  obtain r' s' where "split_run lt y ys = (r', s')" by fastforce
  with Cons.IH [OF this] Cons.prems show ?case by (auto split: if_splits)
qed auto

function pass :: "'a less \<Rightarrow> 'a list \<Rightarrow> 'a list \<times> nat" where
  "pass lt [] = ([], 0)"
| "pass lt (x # xs) =
     (case split_run lt x xs of
        (r1, []) \<Rightarrow> (r1, 1)
      | (r1, y # ys) \<Rightarrow>
          (case split_run lt y ys of
             (r2, rest) \<Rightarrow> let (zs, n) = pass lt rest in (merge_runs lt r1 r2 @ zs, Suc n)))"
  by pat_completeness auto
termination
  by (relation "measure (\<lambda>(lt, xs). length xs)")
    (auto dest!: split_run_length [OF sym] split_run_length)

fun nruns :: "'a less \<Rightarrow> 'a list \<Rightarrow> nat" where
  "nruns lt (x # y # zs) = (if lt y x then 1 else 0) + nruns lt (y # zs)"
| "nruns lt [x] = 1"
| "nruns lt [] = 0"

definition stable_perm :: "'a less \<Rightarrow> 'a list \<Rightarrow> 'a list \<Rightarrow> bool" where
  "stable_perm lt xs ys \<longleftrightarrow> mset ys = mset xs \<and>
     (\<forall>x. filter (\<lambda>y. \<not> lt x y \<and> \<not> lt y x) ys = filter (\<lambda>y. \<not> lt x y \<and> \<not> lt y x) xs)"

section \<open>Runs\<close>

lemma nondec_Cons: "nondec lt (x # xs) \<longleftrightarrow> (xs \<noteq> [] \<longrightarrow> \<not> lt (hd xs) x) \<and> nondec lt xs"
  by (cases xs) auto

lemma split_run_spec:
  "split_run lt x ys = (r, s) \<Longrightarrow>
    x # ys = r @ s \<and> r \<noteq> [] \<and> hd r = x \<and> nondec lt r \<and> (s \<noteq> [] \<longrightarrow> lt (hd s) (last r))"
proof (induction ys arbitrary: x r s)
  case (Cons y ys)
  obtain r' s' where "split_run lt y ys = (r', s')" by fastforce
  note IH = Cons.IH [OF this] this
  show ?case
  proof (cases "lt y x")
    case True
    with Cons.prems show ?thesis by auto
  next
    case False
    with IH(2) Cons.prems have "r = x # r'" "s = s'" by auto
    with IH(1) False show ?thesis by (simp add: nondec_Cons)
  qed
qed auto

lemma nruns_pos: "xs \<noteq> [] \<Longrightarrow> 0 < nruns lt xs"
  by (induction lt xs rule: nruns.induct) auto

lemma nondec_iff_nruns: "nondec lt xs \<longleftrightarrow> nruns lt xs \<le> 1"
  by (induction lt xs rule: nondec.induct) (auto simp: nruns_pos le_Suc_eq dest: nruns_pos)

lemma nruns_append: "nruns lt (us @ vs) \<le> nruns lt us + nruns lt vs"
proof (induction us)
  case (Cons u us)
  then show ?case by (cases us; cases vs) auto
qed simp

lemma nruns_split: "split_run lt x ys = (r, s) \<Longrightarrow> nruns lt (x # ys) = Suc (nruns lt s)"
  by (induction lt x ys arbitrary: r rule: split_run.induct)
    (auto split: if_splits prod.splits simp: Let_def)

lemma snd_pass: "snd (pass lt xs) = (nruns lt xs + 1) div 2"
proof (induction lt xs rule: pass.induct)
  case (2 lt x xs)
  obtain r1 s where 1: "split_run lt x xs = (r1, s)" by fastforce
  show ?case
  proof (cases s)
    case Nil
    with 1 nruns_split [OF 1] show ?thesis by simp
  next
    case (Cons y ys)
    obtain r2 rest where 3: "split_run lt y ys = (r2, rest)" by fastforce
    obtain zs n where 4: "pass lt rest = (zs, n)" by fastforce
    have "n = (nruns lt rest + 1) div 2" using 2 [OF 1 [symmetric, unfolded Cons] _ 3 [symmetric]] 4
      by (auto simp: Cons)
    then show ?thesis using 1 3 4 Cons nruns_split [OF 1] nruns_split [OF 3] by simp
  qed
qed simp

lemma merge_induct [case_names Nil1 Nil2 Cons]:
  assumes "\<And>bs. P [] bs" "\<And>a as. P (a # as) []"
    "\<And>a as b bs. P (a # as) bs \<Longrightarrow> P as (b # bs) \<Longrightarrow> P (a # as) (b # bs)"
  shows "P as bs"
  using assms by induction_schema (pat_completeness, lexicographic_order)

lemma mset_merge [simp]: "mset (merge_runs lt as bs) = mset as + mset bs"
  by (induction lt as bs rule: merge_runs.induct) auto

lemma set_merge [simp]: "set (merge_runs lt as bs) = set as \<union> set bs"
  by (induction lt as bs rule: merge_runs.induct) auto

section \<open>Orders\<close>

text \<open>
  The contract of a \<open>list_less_func\<close>: a strict weak order.  Every comparison function that the
  kernel passes to \<open>list_insert_ordered\<close>, \<open>list_sort\<close> or \<open>list_max\<close> is shown to be one.
\<close>

locale strict_weak_order =
  fixes lt :: "'a less"
  assumes asym: "lt x y \<Longrightarrow> \<not> lt y x"
    and negtrans: "lt x z \<Longrightarrow> lt x y \<or> lt y z"
begin

lemma irrefl: "\<not> lt x x"
  using asym by blast

lemma trans: "lt x y \<Longrightarrow> lt y z \<Longrightarrow> lt x z"
  using asym negtrans by blast

lemma negtrans': "\<not> lt x y \<Longrightarrow> \<not> lt y z \<Longrightarrow> \<not> lt x z"
  using negtrans by blast

lemma nondec_sorted: "nondec lt xs \<longleftrightarrow> sorted_wrt (\<lambda>x y. \<not> lt y x) xs"
proof (induction xs)
  case (Cons x xs)
  show ?case
  proof (cases xs)
    case Nil
    then show ?thesis by simp
  next
    case (Cons y ys)
    have "\<not> lt z x" if "\<not> lt y x" "z \<in> set ys" "\<forall>z\<in>set ys. \<not> lt z y" for z
      using that negtrans' by blast
    with Cons Cons.IH show ?thesis by auto
  qed
qed simp

lemma nondec_merge:
  "nondec lt as \<Longrightarrow> nondec lt bs \<Longrightarrow> nondec lt (merge_runs lt as bs)"
  unfolding nondec_sorted
proof (induction as bs rule: merge_induct)
  case (Cons a as b bs)
  have a: "\<forall>x \<in> set as. \<not> lt x a" and b: "\<forall>x \<in> set bs. \<not> lt x b"
    using Cons.prems by auto
  show ?case
  proof (cases "lt b a")
    case True
    have "\<not> lt x b" if "x \<in> set (a # as)" for x
      using that a asym [OF True] negtrans' [of x a b] by auto
    with True b Cons show ?thesis by auto
  next
    case False
    have "\<not> lt x a" if "x \<in> set (b # bs)" for x
      using that b False negtrans' [of x b a] by auto
    with False a Cons show ?thesis by auto
  qed
qed auto

lemma filter_merge:
  "nondec lt as \<Longrightarrow> filter (\<lambda>y. \<not> lt x y \<and> \<not> lt y x) (merge_runs lt as bs) =
    filter (\<lambda>y. \<not> lt x y \<and> \<not> lt y x) as @ filter (\<lambda>y. \<not> lt x y \<and> \<not> lt y x) bs"
  unfolding nondec_sorted
proof (induction as bs rule: merge_induct)
  case (Cons a as b bs)
  let ?P = "\<lambda>y. \<not> lt x y \<and> \<not> lt y x"
  show ?case
  proof (cases "lt b a \<and> ?P b")
    case True
    have "lt x y" if "y \<in> set (a # as)" for y
      using that Cons.prems True negtrans [of b a x] negtrans [of x a y] by auto
    then have "filter ?P (a # as) = []" by (auto simp: filter_empty_conv)
    with Cons True show ?thesis by simp
  next
    case False
    with Cons show ?thesis by auto
  qed
qed auto

lemma stable_perm_refl: "stable_perm lt xs xs"
  by (simp add: stable_perm_def)

lemma stable_perm_trans: "stable_perm lt xs ys \<Longrightarrow> stable_perm lt ys zs \<Longrightarrow> stable_perm lt xs zs"
  by (simp add: stable_perm_def)

lemma stable_perm_append:
  "stable_perm lt xs xs' \<Longrightarrow> stable_perm lt ys ys' \<Longrightarrow> stable_perm lt (xs @ ys) (xs' @ ys')"
  by (simp add: stable_perm_def)

lemma stable_perm_merge: "nondec lt as \<Longrightarrow> stable_perm lt (as @ bs) (merge_runs lt as bs)"
  by (simp add: stable_perm_def filter_merge)

lemma pass_spec:
  "pass lt xs = (ys, n) \<Longrightarrow> stable_perm lt xs ys \<and> nruns lt ys \<le> n"
proof (induction "length xs" arbitrary: xs ys n rule: less_induct)
  case less
  show ?case
  proof (cases xs)
    case Nil
    with less.prems show ?thesis by (simp add: stable_perm_refl)
  next
    case (Cons x xs')
    obtain r1 s where 1: "split_run lt x xs' = (r1, s)" by fastforce
    note s1 = split_run_spec [OF 1]
    show ?thesis
    proof (cases s)
      case Nil
      with 1 s1 Cons less.prems show ?thesis by (auto simp: stable_perm_refl nondec_iff_nruns)
    next
      case (Cons y s')
      obtain r2 rest where 2: "split_run lt y s' = (r2, rest)" by fastforce
      note s2 = split_run_spec [OF 2]
      obtain zs k where 3: "pass lt rest = (zs, k)" by fastforce
      have xs: "xs = (r1 @ r2) @ rest" using \<open>xs = x # xs'\<close> s1 s2 Cons by simp
      have "r1 \<noteq> []" using s1 by blast
      then have "length rest < length xs" by (simp add: xs)
      from less.hyps [OF this 3] have IH: "stable_perm lt rest zs" "nruns lt zs \<le> k" by auto
      have r: "ys = merge_runs lt r1 r2 @ zs" "n = Suc k"
        using less.prems 1 2 3 Cons \<open>xs = x # xs'\<close> by auto
      have "nruns lt (merge_runs lt r1 r2) \<le> 1"
        unfolding nondec_iff_nruns [symmetric] using s1 s2 by (intro nondec_merge) blast+
      then have "nruns lt ys \<le> n" using nruns_append [of lt "merge_runs lt r1 r2" zs] IH(2) r by simp
      moreover have "stable_perm lt xs ys"
        unfolding xs r using s1 IH(1) by (intro stable_perm_append stable_perm_merge) blast+
      ultimately show ?thesis by simp
    qed
  qed
qed

end

end
