(* ===== verification/Hash_Table.thy ===== *)
theory Hash_Table
  imports Natural_Merge
begin

text \<open>
  \<open>lib/kernel/hash.c\<close>: a chained hash table with automatic resizing.  The record \<open>hash\<close> is
  \<open>struct hash\<close>; its buckets are the element sequences of the bucket lists, on which the calls of
  the list library act as proved in \<open>Linked_List\<close> (\<open>list_push_front\<close> is \<open>Cons\<close>, \<open>list_remove\<close> takes
  the element out of the list it is in).  The outcome of \<open>malloc\<close> in \<open>rehash\<close> and \<open>hash_init\<close> is a
  parameter \<open>mal\<close>: whether a request of the given size succeeds.  The lemmas show that the table
  is a finite map from keys to elements, whatever \<open>malloc\<close> does, and that iteration visits each
  element once.
\<close>

section \<open>Definitions\<close>

record 'e hash =
  hash_cnt :: size_t
  bucket_cnt :: size_t
  buckets :: "'e list list"
  hash_func :: "'e \<Rightarrow> u32"
  less_func :: "'e \<Rightarrow> 'e \<Rightarrow> bool"

definition find_bucket :: "'e hash \<Rightarrow> 'e \<Rightarrow> size_t" where
  "find_bucket h e = hash_func h e AND (bucket_cnt h - 1)"

fun find_loop :: "'e hash \<Rightarrow> 'e list \<Rightarrow> 'e \<Rightarrow> 'e option" where
  "find_loop h [] e = None"
| "find_loop h (hi # rest) e =
     (if \<not> less_func h hi e \<and> \<not> less_func h e hi then Some hi else find_loop h rest e)"

definition find_elem :: "'e hash \<Rightarrow> size_t \<Rightarrow> 'e \<Rightarrow> 'e option option" where
  "find_elem h bucket e = do {
     b \<leftarrow> arr_get (buckets h) (unat bucket);
     Some (find_loop h b e) }"

definition turn_off_least_1bit :: "size_t \<Rightarrow> size_t" where
  "turn_off_least_1bit x = x AND (x - 1)"

definition is_power_of_2 :: "size_t \<Rightarrow> bool" where
  "is_power_of_2 x \<longleftrightarrow> x \<noteq> 0 \<and> turn_off_least_1bit x = 0"

partial_function (option) power_loop :: "size_t \<Rightarrow> size_t option" where
  "power_loop x = (if \<not> is_power_of_2 x then power_loop (turn_off_least_1bit x) else Some x)"

definition push_bucket :: "'e hash \<Rightarrow> size_t \<Rightarrow> 'e \<Rightarrow> 'e hash option" where
  "push_bucket h bucket e = do {
     b \<leftarrow> arr_get (buckets h) (unat bucket);
     bs \<leftarrow> arr_set (buckets h) (unat bucket) (e # b);
     Some (h\<lparr>buckets := bs\<rparr>) }"

definition rehash :: "(size_t \<Rightarrow> bool) \<Rightarrow> 'e hash \<Rightarrow> 'e hash option" where
  "rehash mal h = do {
     let old_buckets = buckets h;
     let old_bucket_cnt = bucket_cnt h;
     let new_bucket_cnt = hash_cnt h div 2;
     let new_bucket_cnt = (if new_bucket_cnt < 4 then 4 else new_bucket_cnt);
     new_bucket_cnt \<leftarrow> power_loop new_bucket_cnt;
     if new_bucket_cnt = old_bucket_cnt then Some h
     else if \<not> mal (16 * new_bucket_cnt) then Some h
     else do {
       let h = h\<lparr>buckets := replicate (unat new_bucket_cnt) [], bucket_cnt := new_bucket_cnt\<rparr>;
       fold_opt (\<lambda>old_bucket h. fold_opt (\<lambda>elem h. push_bucket h (find_bucket h elem) elem) old_bucket h)
         (take (unat old_bucket_cnt) old_buckets) h } }"

definition insert_elem :: "'e hash \<Rightarrow> size_t \<Rightarrow> 'e \<Rightarrow> 'e hash option" where
  "insert_elem h bucket e = push_bucket (h\<lparr>hash_cnt := hash_cnt h + 1\<rparr>) bucket e"

definition remove_elem :: "'e hash \<Rightarrow> 'e \<Rightarrow> 'e hash" where
  "remove_elem h e = h\<lparr>hash_cnt := hash_cnt h - 1, buckets := map (remove1 e) (buckets h)\<rparr>"

text \<open>\<open>hash_clear\<close> with a destructor returns the elements the destructor was called on, in order.\<close>

definition hash_clear :: "'e hash \<Rightarrow> bool \<Rightarrow> 'e list \<times> 'e hash" where
  "hash_clear h destructor =
     (if destructor then concat (buckets h) else [],
      h\<lparr>buckets := replicate (unat (bucket_cnt h)) [], hash_cnt := 0\<rparr>)"

definition hash_destroy :: "'e hash \<Rightarrow> bool \<Rightarrow> 'e list" where
  "hash_destroy h destructor = (if destructor then fst (hash_clear h True) else [])"

definition hash_init :: "(size_t \<Rightarrow> bool) \<Rightarrow> ('e \<Rightarrow> u32) \<Rightarrow> ('e \<Rightarrow> 'e \<Rightarrow> bool) \<Rightarrow> bool \<times> 'e hash" where
  "hash_init mal hf lf =
     (let h = \<lparr>hash_cnt = 0, bucket_cnt = 4, buckets = [], hash_func = hf, less_func = lf\<rparr>
      in if mal (16 * bucket_cnt h) then (True, snd (hash_clear h False)) else (False, h))"

definition hash_insert :: "(size_t \<Rightarrow> bool) \<Rightarrow> 'e hash \<Rightarrow> 'e \<Rightarrow> ('e option \<times> 'e hash) option" where
  "hash_insert mal h new = do {
     let bucket = find_bucket h new;
     old \<leftarrow> find_elem h bucket new;
     h \<leftarrow> (if old = None then insert_elem h bucket new else Some h);
     h \<leftarrow> rehash mal h;
     Some (old, h) }"

definition hash_replace :: "(size_t \<Rightarrow> bool) \<Rightarrow> 'e hash \<Rightarrow> 'e \<Rightarrow> ('e option \<times> 'e hash) option" where
  "hash_replace mal h new = do {
     let bucket = find_bucket h new;
     old \<leftarrow> find_elem h bucket new;
     let h = (case old of Some e \<Rightarrow> remove_elem h e | None \<Rightarrow> h);
     h \<leftarrow> insert_elem h bucket new;
     h \<leftarrow> rehash mal h;
     Some (old, h) }"

definition hash_find :: "'e hash \<Rightarrow> 'e \<Rightarrow> 'e option option" where
  "hash_find h e = find_elem h (find_bucket h e) e"

definition hash_delete :: "(size_t \<Rightarrow> bool) \<Rightarrow> 'e hash \<Rightarrow> 'e \<Rightarrow> ('e option \<times> 'e hash) option" where
  "hash_delete mal h e = do {
     found \<leftarrow> find_elem h (find_bucket h e) e;
     case found of
       Some x \<Rightarrow> do { h \<leftarrow> rehash mal (remove_elem h x); Some (found, h) }
     | None \<Rightarrow> Some (found, h) }"

definition hash_apply :: "('e \<Rightarrow> 's \<Rightarrow> 's) \<Rightarrow> 'e hash \<Rightarrow> 's \<Rightarrow> 's" where
  "hash_apply action h s = fold (\<lambda>bucket. fold action bucket) (buckets h) s"

definition hash_size :: "'e hash \<Rightarrow> size_t" where
  "hash_size h = hash_cnt h"

definition hash_empty :: "'e hash \<Rightarrow> bool" where
  "hash_empty h \<longleftrightarrow> hash_cnt h = 0"

text \<open>
  Iteration.  A cursor stands for the \<open>elem\<close> field of \<open>struct hash_iterator\<close>: the head sentinel of
  the current bucket, an element of it, its tail sentinel, or the null pointer at the end.
\<close>

datatype 'e cursor = Head | Elem 'e | Tail | Null

record 'e hash_iterator =
  it_bucket :: size_t
  it_elem :: "'e cursor"

fun cursor_at :: "'e list \<Rightarrow> 'e cursor" where
  "cursor_at [] = Tail"
| "cursor_at (x # xs) = Elem x"

fun cursor_after :: "'e \<Rightarrow> 'e list \<Rightarrow> 'e cursor option" where
  "cursor_after e [] = None"
| "cursor_after e (x # xs) = (if x = e then Some (cursor_at xs) else cursor_after e xs)"

definition cursor_next :: "'e list \<Rightarrow> 'e cursor \<Rightarrow> 'e cursor option" where
  "cursor_next b c =
     (case c of Head \<Rightarrow> Some (cursor_at b) | Elem e \<Rightarrow> cursor_after e b | Tail \<Rightarrow> None | Null \<Rightarrow> None)"

definition hash_first :: "'e hash \<Rightarrow> 'e hash_iterator" where
  "hash_first h = \<lparr>it_bucket = 0, it_elem = Head\<rparr>"

function next_loop :: "'e hash \<Rightarrow> 'e hash_iterator \<Rightarrow> 'e hash_iterator option" where
  "next_loop h i =
     (if it_elem i = Tail \<and> it_bucket i < bucket_cnt h then
        if it_bucket i + 1 \<ge> bucket_cnt h then Some (i\<lparr>it_bucket := it_bucket i + 1, it_elem := Null\<rparr>)
        else do {
          b \<leftarrow> arr_get (buckets h) (unat (it_bucket i + 1));
          next_loop h (i\<lparr>it_bucket := it_bucket i + 1, it_elem := cursor_at b\<rparr>) }
      else Some i)"
  by pat_completeness auto
termination
  by (relation "measure (\<lambda>(h, i). unat (bucket_cnt h) - unat (it_bucket i))")
    (auto simp: count_below_measure)

definition hash_next :: "'e hash \<Rightarrow> 'e hash_iterator \<Rightarrow> 'e hash_iterator option" where
  "hash_next h i = do {
     b \<leftarrow> arr_get (buckets h) (unat (it_bucket i));
     c \<leftarrow> cursor_next b (it_elem i);
     next_loop h (i\<lparr>it_elem := c\<rparr>) }"

definition hash_cur :: "'e hash_iterator \<Rightarrow> 'e cursor" where
  "hash_cur i = it_elem i"

text \<open>The Fowler-Noll-Vo hash functions.  A string is its bytes up to the first null byte.\<close>

definition FNV_32_PRIME :: u32 where
  "FNV_32_PRIME = 16777619"

definition FNV_32_BASIS :: u32 where
  "FNV_32_BASIS = 2166136261"

fun fnv_loop :: "u32 \<Rightarrow> byte list \<Rightarrow> u32" where
  "fnv_loop hash [] = hash"
| "fnv_loop hash (b # bs) = fnv_loop ((hash * FNV_32_PRIME) XOR ucast b) bs"

definition hash_bytes :: "byte list \<Rightarrow> u32" where
  "hash_bytes buf = fnv_loop FNV_32_BASIS buf"

fun fnv_string_loop :: "u32 \<Rightarrow> byte list \<Rightarrow> u32 option" where
  "fnv_string_loop hash [] = None"
| "fnv_string_loop hash (b # bs) =
     (if b \<noteq> 0 then fnv_string_loop ((hash * FNV_32_PRIME) XOR ucast b) bs else Some hash)"

definition hash_string :: "byte list \<Rightarrow> u32 option" where
  "hash_string s = fnv_string_loop FNV_32_BASIS s"

definition hash_int :: "u32 \<Rightarrow> u32" where
  "hash_int i = hash_bytes (le_bytes i)"

section \<open>Invariant\<close>

definition elems :: "'e hash \<Rightarrow> 'e list" where
  "elems h = concat (buckets h)"

definition eqv :: "'e hash \<Rightarrow> 'e \<Rightarrow> 'e \<Rightarrow> bool" where
  "eqv h a b \<longleftrightarrow> \<not> less_func h a b \<and> \<not> less_func h b a"

definition placed :: "'e hash \<Rightarrow> bool" where
  "placed h \<longleftrightarrow> is_power_of_2 (bucket_cnt h) \<and> length (buckets h) = unat (bucket_cnt h) \<and>
     (\<forall>i < length (buckets h). \<forall>e \<in> set (buckets h ! i). unat (find_bucket h e) = i)"

definition hash_wf :: "'e hash \<Rightarrow> bool" where
  "hash_wf h \<longleftrightarrow> placed h \<and> unat (hash_cnt h) = length (elems h) \<and> distinct (elems h) \<and>
     (\<forall>a \<in> set (elems h). \<forall>b \<in> set (elems h). eqv h a b \<longrightarrow> a = b)"

definition lookup :: "'e hash \<Rightarrow> 'e \<Rightarrow> 'e option" where
  "lookup h e = find (\<lambda>x. eqv h x e) (elems h)"

text \<open>The elements an iteration visits in at most \<open>n\<close> calls of \<open>hash_next\<close>.\<close>

fun iterate :: "nat \<Rightarrow> 'e hash \<Rightarrow> 'e hash_iterator \<Rightarrow> 'e list option" where
  "iterate 0 h i = None"
| "iterate (Suc n) h i = do {
     i \<leftarrow> hash_next h i;
     case hash_cur i of
       Elem e \<Rightarrow> map_option (Cons e) (iterate n h i)
     | Null \<Rightarrow> Some []
     | _ \<Rightarrow> None }"

declare next_loop.simps [simp del]

section \<open>Buckets\<close>

lemma find_bucket_in: "bucket_cnt h \<noteq> 0 \<Longrightarrow> unat (find_bucket h e) < unat (bucket_cnt h)"
proof -
  assume n: "bucket_cnt h \<noteq> 0"
  have "find_bucket h e \<le> bucket_cnt h - 1" unfolding find_bucket_def by (rule word_and_le1)
  also have "\<dots> < bucket_cnt h" using n by (rule word_pred_less)
  finally show ?thesis by (simp add: word_less_nat_alt)
qed

lemma mset_concat_update:
  "i < length bs \<Longrightarrow> mset (concat (bs[i := e # bs ! i])) = add_mset e (mset (concat bs))"
proof (induction bs arbitrary: i)
  case (Cons b bs)
  then show ?case by (cases i) auto
qed simp

lemma power_loop_returns:
  "x \<noteq> 0 \<Longrightarrow> \<exists>y. power_loop x = Some y \<and> is_power_of_2 y \<and> y \<le> x"
proof (induction "unat x" arbitrary: x rule: less_induct)
  case less
  show ?case
  proof (cases "is_power_of_2 x")
    case True
    then show ?thesis by (subst power_loop.simps) simp
  next
    case False
    have "turn_off_least_1bit x \<le> x - 1" unfolding turn_off_least_1bit_def by (rule word_and_le1)
    also have "\<dots> < x" using less.prems by (rule word_pred_less)
    finally have lt: "turn_off_least_1bit x < x" .
    moreover have "turn_off_least_1bit x \<noteq> 0" using False less.prems by (simp add: is_power_of_2_def)
    ultimately obtain y where "power_loop (turn_off_least_1bit x) = Some y" "is_power_of_2 y"
        "y \<le> turn_off_least_1bit x"
      using less.hyps by (auto simp: word_less_nat_alt)
    with False lt show ?thesis by (subst power_loop.simps) auto
  qed
qed

lemma push_bucket_placed:
  assumes "placed h"
  obtains h' where "push_bucket h (find_bucket h e) e = Some h'" "placed h'"
    "mset (elems h') = add_mset e (mset (elems h))" "hash_cnt h' = hash_cnt h"
    "bucket_cnt h' = bucket_cnt h" "hash_func h' = hash_func h" "less_func h' = less_func h"
proof -
  let ?i = "unat (find_bucket h e)"
  let ?h = "h\<lparr>buckets := (buckets h)[?i := e # buckets h ! ?i]\<rparr>"
  have i: "?i < length (buckets h)"
    using assms find_bucket_in [of h e] by (auto simp: placed_def is_power_of_2_def)
  then have "push_bucket h (find_bucket h e) e = Some ?h" by (simp add: push_bucket_def)
  moreover have "find_bucket ?h x = find_bucket h x" for x by (simp add: find_bucket_def)
  then have "placed ?h"
    using assms i by (auto simp: placed_def nth_list_update)
  moreover have "mset (elems ?h) = add_mset e (mset (elems h))"
    using mset_concat_update [OF i] by (simp add: elems_def)
  ultimately show thesis by (rule that) auto
qed

lemma push_all_placed:
  "placed h \<Longrightarrow> \<exists>h'. fold_opt (\<lambda>elem h. push_bucket h (find_bucket h elem) elem) xs h = Some h' \<and> placed h' \<and>
    mset (elems h') = mset xs + mset (elems h) \<and> hash_cnt h' = hash_cnt h \<and>
    bucket_cnt h' = bucket_cnt h \<and> hash_func h' = hash_func h \<and> less_func h' = less_func h"
proof (induction xs arbitrary: h)
  case (Cons x xs)
  obtain h1 where h1: "push_bucket h (find_bucket h x) x = Some h1" "placed h1"
      "mset (elems h1) = add_mset x (mset (elems h))" "hash_cnt h1 = hash_cnt h"
      "bucket_cnt h1 = bucket_cnt h" "hash_func h1 = hash_func h" "less_func h1 = less_func h"
    using push_bucket_placed [OF Cons.prems, of x] .
  with Cons.IH [OF h1(2)] show ?case by auto
qed simp

lemma placed_empty:
  "is_power_of_2 (bucket_cnt h) \<Longrightarrow> buckets h = replicate (unat (bucket_cnt h)) [] \<Longrightarrow> placed h"
  by (simp add: placed_def)

lemma rehash_placed:
  assumes "placed h"
  obtains h' where "rehash mal h = Some h'" "placed h'" "mset (elems h') = mset (elems h)"
    "hash_cnt h' = hash_cnt h" "hash_func h' = hash_func h" "less_func h' = less_func h"
proof -
  define n where "n = (if hash_cnt h div 2 < 4 then 4 else hash_cnt h div 2)"
  have "n \<noteq> 0" by (auto simp: n_def)
  then obtain m where m: "power_loop n = Some m" "is_power_of_2 m" using power_loop_returns by blast
  let ?h = "h\<lparr>buckets := replicate (unat m) [], bucket_cnt := m\<rparr>"
  have "placed ?h" by (rule placed_empty) (use m in auto)
  from push_all_placed [OF this, of "elems h"] obtain h' where
    h': "fold_opt (\<lambda>elem h. push_bucket h (find_bucket h elem) elem) (elems h) ?h = Some h'" "placed h'"
    "mset (elems h') = mset (elems h)" "hash_cnt h' = hash_cnt h" "hash_func h' = hash_func h"
    "less_func h' = less_func h"
    by (auto simp: elems_def)
  have "take (unat (bucket_cnt h)) (buckets h) = buckets h" using assms by (simp add: placed_def)
  then have "rehash mal h = (if m = bucket_cnt h \<or> \<not> mal (16 * m) then Some h else Some h')"
    using m(1) h'(1) by (simp add: rehash_def n_def Let_def fold_opt_concat elems_def)
  then show thesis using that h' assms by (cases "m = bucket_cnt h \<or> \<not> mal (16 * m)") auto
qed

lemma rehash_wf:
  assumes "hash_wf h"
  obtains h' where "rehash mal h = Some h'" "hash_wf h'" "set (elems h') = set (elems h)"
    "hash_func h' = hash_func h" "less_func h' = less_func h"
proof -
  obtain h' where h': "rehash mal h = Some h'" "placed h'" "mset (elems h') = mset (elems h)"
      "hash_cnt h' = hash_cnt h" "hash_func h' = hash_func h" "less_func h' = less_func h"
    using rehash_placed [of h mal] assms by (auto simp: hash_wf_def)
  moreover have "hash_wf h'"
    using assms h' mset_eq_setD [OF h'(3)] mset_eq_imp_distinct_iff [OF h'(3)] mset_eq_length [OF h'(3)]
    by (simp add: hash_wf_def eqv_def)
  ultimately show thesis using that mset_eq_setD [OF h'(3)] by blast
qed

section \<open>Operations\<close>

text \<open>
  What \<open>hash.h\<close> asks of the two functions of a table: the comparison is a strict weak order, and
  elements that compare equal hash to the same value.
\<close>

locale hash_key = strict_weak_order lt for lt :: "'e less" +
  fixes hf :: "'e \<Rightarrow> u32"
  assumes hash_eq: "\<not> lt a b \<Longrightarrow> \<not> lt b a \<Longrightarrow> hf a = hf b"
begin

lemma eqv_refl: "less_func h = lt \<Longrightarrow> eqv h a a"
  by (simp add: eqv_def irrefl)

lemma eqv_sym: "eqv h a b \<Longrightarrow> eqv h b a"
  by (simp add: eqv_def)

lemma eqv_trans: "less_func h = lt \<Longrightarrow> eqv h a b \<Longrightarrow> eqv h b c \<Longrightarrow> eqv h a c"
  unfolding eqv_def using negtrans by blast

lemma eqv_bucket:
  "less_func h = lt \<Longrightarrow> hash_func h = hf \<Longrightarrow> eqv h a b \<Longrightarrow> find_bucket h a = find_bucket h b"
  by (simp add: find_bucket_def eqv_def hash_eq [of a b])

lemma lookup_Some:
  assumes "hash_wf h" "less_func h = lt"
  shows "lookup h e = Some x \<longleftrightarrow> x \<in> set (elems h) \<and> eqv h x e"
proof
  assume "lookup h e = Some x"
  then show "x \<in> set (elems h) \<and> eqv h x e" unfolding lookup_def by (auto simp: find_Some_iff)
next
  assume x: "x \<in> set (elems h) \<and> eqv h x e"
  then obtain y where y: "lookup h e = Some y"
    unfolding lookup_def by (metis find_None_iff not_Some_eq)
  then have "y \<in> set (elems h)" "eqv h y e" unfolding lookup_def by (auto simp: find_Some_iff)
  moreover from this x have "eqv h y x" using eqv_trans [OF assms(2), of y e x] eqv_sym [of h x e] by blast
  ultimately show "lookup h e = Some x" using x y assms(1) by (auto simp: hash_wf_def)
qed

lemma lookup_None: "lookup h e = None \<longleftrightarrow> (\<forall>x \<in> set (elems h). \<not> eqv h x e)"
  by (auto simp: lookup_def find_None_iff)

lemma find_elem_lookup:
  assumes wf: "hash_wf h" and f: "less_func h = lt" "hash_func h = hf"
  shows "find_elem h (find_bucket h e) e = Some (lookup h e)"
proof -
  let ?i = "unat (find_bucket h e)"
  have p: "placed h" using wf by (simp add: hash_wf_def)
  have i: "?i < length (buckets h)"
    using p find_bucket_in [of h e] by (auto simp: placed_def is_power_of_2_def)
  have loop: "find_loop h b e = find (\<lambda>x. eqv h x e) b" for b
    by (induction b) (auto simp: eqv_def)
  have in_bucket: "x \<in> set (buckets h ! ?i)" if x: "x \<in> set (elems h)" "eqv h x e" for x
  proof -
    obtain j where j: "j < length (buckets h)" "x \<in> set (buckets h ! j)"
      using x(1) unfolding elems_def set_concat by (metis UN_E in_set_conv_nth)
    then have "unat (find_bucket h x) = j" using p by (simp add: placed_def)
    with j eqv_bucket [OF f x(2)] show ?thesis by simp
  qed
  have sub: "set (buckets h ! ?i) \<subseteq> set (elems h)" using nth_mem [OF i] by (auto simp: elems_def)
  have "find (\<lambda>x. eqv h x e) (buckets h ! ?i) = lookup h e"
  proof (cases "lookup h e")
    case None
    then have "find (\<lambda>x. eqv h x e) (buckets h ! ?i) = None"
      using sub by (auto simp: lookup_None find_None_iff)
    with None show ?thesis by simp
  next
    case (Some x)
    then have x: "x \<in> set (elems h)" "eqv h x e" using lookup_Some [OF wf f(1)] by auto
    then obtain y where y: "find (\<lambda>x. eqv h x e) (buckets h ! ?i) = Some y"
      using in_bucket [OF x] by (metis find_None_iff not_Some_eq)
    then have "y \<in> set (elems h)" "eqv h y e" using sub by (auto simp: find_Some_iff)
    then have "lookup h e = Some y" using lookup_Some [OF wf f(1)] by blast
    with y show ?thesis by simp
  qed
  with i loop show ?thesis by (simp add: find_elem_def)
qed

text \<open>Adding an element that has no equivalent in the table, and then resizing.\<close>

lemma insert_rehash:
  assumes wf: "hash_wf h" and f: "less_func h = lt" "hash_func h = hf"
    and new: "\<forall>x \<in> set (elems h). \<not> eqv h x e" and room: "Suc (length (elems h)) < 2 ^ 32"
  obtains h1 h' where "insert_elem h (find_bucket h e) e = Some h1" "rehash mal h1 = Some h'" "hash_wf h'"
    "set (elems h') = insert e (set (elems h))" "hash_func h' = hf" "less_func h' = lt"
proof -
  let ?h = "h\<lparr>hash_cnt := hash_cnt h + 1\<rparr>"
  have p: "placed ?h" using wf by (simp add: hash_wf_def placed_def find_bucket_def)
  have b: "find_bucket ?h e = find_bucket h e" "elems ?h = elems h" by (simp_all add: find_bucket_def elems_def)
  obtain h1 where h1: "push_bucket ?h (find_bucket h e) e = Some h1" "placed h1"
      "mset (elems h1) = add_mset e (mset (elems h))" "hash_cnt h1 = hash_cnt h + 1"
      "hash_func h1 = hf" "less_func h1 = lt"
    using push_bucket_placed [OF p, of e] f by (auto simp: b)
  obtain h' where h': "rehash mal h1 = Some h'" "placed h'" "mset (elems h') = mset (elems h1)"
      "hash_cnt h' = hash_cnt h1" "hash_func h' = hf" "less_func h' = lt"
    using rehash_placed [OF h1(2), of mal] h1 by auto
  have m: "mset (elems h') = mset (e # elems h)" using h' h1 by simp
  then have d: "set (elems h') = insert e (set (elems h))" "distinct (elems h') \<longleftrightarrow> distinct (e # elems h)"
    "length (elems h') = Suc (length (elems h))"
    using mset_eq_setD [OF m] mset_eq_imp_distinct_iff [OF m] mset_eq_length [OF m] by simp_all
  have "eqv h e e" by (rule eqv_refl [OF f(1)])
  then have "e \<notin> set (elems h)" using new by blast
  moreover have "unat (hash_cnt h + 1) = Suc (length (elems h))"
    using wf room by (simp add: hash_wf_def unat_word_ariths)
  moreover have "eqv h' = eqv h" using h'(6) f by (simp add: eqv_def fun_eq_iff)
  moreover have "\<forall>x \<in> set (elems h). \<not> eqv h e x" using new eqv_sym [of h e] by blast
  ultimately have "hash_wf h'"
    using wf new d h' h1(4) by (auto simp: hash_wf_def)
  with that h1(1) h'(1,5,6) d(1) show thesis by (simp add: insert_elem_def)
qed

lemma remove_wf:
  assumes wf: "hash_wf h" and x: "x \<in> set (elems h)"
  shows "hash_wf (remove_elem h x)" "set (elems (remove_elem h x)) = set (elems h) - {x}"
proof -
  have rm: "set (concat (map (remove1 x) bs)) = set (concat bs) - {x}" "distinct (concat (map (remove1 x) bs))"
    if "distinct (concat bs)" for bs
    using that by (induction bs) (auto simp: set_remove1_eq)
  have d: "distinct (concat (buckets h))" using wf by (simp add: hash_wf_def elems_def)
  note r = rm [OF d]
  have e: "elems (remove_elem h x) = concat (map (remove1 x) (buckets h))"
    by (simp add: elems_def remove_elem_def)
  then show s: "set (elems (remove_elem h x)) = set (elems h) - {x}" using r(1) by (simp add: elems_def)
  have "length (elems (remove_elem h x)) = length (elems h) - 1"
    using s r(2) e d x by (metis card_Diff_singleton distinct_card elems_def)
  moreover have "hash_cnt h \<noteq> 0" using wf x by (auto simp: hash_wf_def)
  moreover have "placed (remove_elem h x)"
    using wf by (auto simp: hash_wf_def placed_def remove_elem_def find_bucket_def
        dest!: subsetD [OF set_remove1_subset])
  moreover have "eqv (remove_elem h x) = eqv h" by (simp add: eqv_def remove_elem_def fun_eq_iff)
  ultimately show "hash_wf (remove_elem h x)"
    using wf s r(2) e by (auto simp: hash_wf_def remove_elem_def unat_pred)
qed

lemma hash_find_ok:
  assumes "hash_wf h" "less_func h = lt" "hash_func h = hf"
  shows "hash_find h e = Some (lookup h e)"
  using find_elem_lookup [OF assms] by (simp add: hash_find_def)

lemma hash_insert_ok:
  assumes wf: "hash_wf h" and f: "less_func h = lt" "hash_func h = hf"
    and room: "Suc (length (elems h)) < 2 ^ 32"
  shows "\<exists>h'. hash_insert mal h new = Some (lookup h new, h') \<and> hash_wf h' \<and>
    set (elems h') = (if lookup h new = None then insert new (set (elems h)) else set (elems h)) \<and>
    less_func h' = lt \<and> hash_func h' = hf"
proof (cases "lookup h new")
  case (Some x)
  obtain h' where h': "rehash mal h = Some h'" "hash_wf h'" "set (elems h') = set (elems h)"
      "hash_func h' = hf" "less_func h' = lt"
    using rehash_wf [OF wf, of mal] f by auto
  with Some find_elem_lookup [OF wf f, of new] show ?thesis by (simp add: hash_insert_def)
next
  case None
  then have new: "\<forall>x \<in> set (elems h). \<not> eqv h x new" by (simp add: lookup_None)
  obtain h1 h' where "insert_elem h (find_bucket h new) new = Some h1" "rehash mal h1 = Some h'"
      "hash_wf h'" "set (elems h') = insert new (set (elems h))" "hash_func h' = hf" "less_func h' = lt"
    by (rule insert_rehash [OF wf f new room, of mal])
  with None find_elem_lookup [OF wf f, of new] show ?thesis by (simp add: hash_insert_def)
qed

text \<open>The table without the element equal to \<open>e\<close>.\<close>

lemma without_ok:
  fixes e
  assumes wf: "hash_wf h" and f: "less_func h = lt" "hash_func h = hf"
  defines "g \<equiv> (case lookup h e of Some x \<Rightarrow> remove_elem h x | None \<Rightarrow> h)"
  shows "hash_wf g" "set (elems g) = set (elems h) - {x. eqv h x e}"
    "less_func g = lt" "hash_func g = hf" "bucket_cnt g = bucket_cnt h"
proof -
  have "hash_wf g \<and> set (elems g) = set (elems h) - {x. eqv h x e}"
  proof (cases "lookup h e")
    case None
    then show ?thesis using wf lookup_None [of h e] by (auto simp: g_def)
  next
    case (Some x)
    note look = lookup_Some [OF wf f(1), of e]
    have "y = x" if "y \<in> set (elems h)" "eqv h y e" for y
      using that look [of y] Some by simp
    then have "set (elems h) - {x} = set (elems h) - {x. eqv h x e}" using Some look [of x] by blast
    moreover have "x \<in> set (elems h)" using Some look [of x] by simp
    ultimately show ?thesis using remove_wf [OF wf, of x] by (simp add: g_def Some)
  qed
  then show "hash_wf g" "set (elems g) = set (elems h) - {x. eqv h x e}" by auto
  show "less_func g = lt" "hash_func g = hf" "bucket_cnt g = bucket_cnt h"
    using f by (auto simp: g_def remove_elem_def split: option.splits)
qed

lemma hash_delete_ok:
  assumes wf: "hash_wf h" and f: "less_func h = lt" "hash_func h = hf"
  shows "\<exists>h'. hash_delete mal h e = Some (lookup h e, h') \<and> hash_wf h' \<and>
    set (elems h') = set (elems h) - {x. eqv h x e} \<and> less_func h' = lt \<and> hash_func h' = hf"
proof -
  note g = without_ok [OF wf f, of e]
  show ?thesis
  proof (cases "lookup h e")
    case None
    with g wf f find_elem_lookup [OF wf f, of e] show ?thesis by (simp add: hash_delete_def)
  next
    case (Some x)
    with rehash_wf [OF g(1), of mal] obtain h' where
      "rehash mal (remove_elem h x) = Some h'" "hash_wf h'"
      "set (elems h') = set (elems h) - {x. eqv h x e}" "hash_func h' = hf" "less_func h' = lt"
      using g(2-4) by auto
    with Some find_elem_lookup [OF wf f, of e] show ?thesis by (simp add: hash_delete_def)
  qed
qed

lemma hash_replace_ok:
  assumes wf: "hash_wf h" and f: "less_func h = lt" "hash_func h = hf"
    and room: "Suc (length (elems h)) < 2 ^ 32"
  shows "\<exists>h'. hash_replace mal h new = Some (lookup h new, h') \<and> hash_wf h' \<and>
    set (elems h') = insert new (set (elems h) - {x. eqv h x new}) \<and> less_func h' = lt \<and> hash_func h' = hf"
proof -
  define g where "g = (case lookup h new of Some x \<Rightarrow> remove_elem h x | None \<Rightarrow> h)"
  note g = without_ok [OF wf f, of new, folded g_def]
  have "eqv g = eqv h" using g(3) f(1) by (simp add: eqv_def fun_eq_iff)
  then have new: "\<forall>x \<in> set (elems g). \<not> eqv g x new" using g(2) by simp
  have "length (elems g) \<le> length (elems h)"
    using g(1,2) wf by (metis Diff_subset List.finite_set card_mono distinct_card hash_wf_def)
  then have "Suc (length (elems g)) < 2 ^ 32" using room by simp
  then obtain g1 h' where h': "insert_elem g (find_bucket g new) new = Some g1" "rehash mal g1 = Some h'"
      "hash_wf h'" "set (elems h') = insert new (set (elems g))" "hash_func h' = hf" "less_func h' = lt"
    by (rule insert_rehash [OF g(1,3,4) new, of mal])
  have "find_bucket g new = find_bucket h new" using g f by (simp add: find_bucket_def)
  with find_elem_lookup [OF wf f, of new] h' g(2) show ?thesis by (simp add: hash_replace_def g_def)
qed

lemma lookup_replaced:
  assumes "hash_wf h" "hash_wf h'" "less_func h = lt" "less_func h' = lt"
    "set (elems h') = insert new (set (elems h) - {x. eqv h x new})"
  shows "lookup h' e = (if eqv h new e then Some new else lookup h e)"
proof -
  have q: "eqv h' = eqv h" using assms(3,4) by (simp add: eqv_def fun_eq_iff)
  show ?thesis
  proof (cases "eqv h new e")
    case True
    with lookup_Some [OF assms(2,4), of e new] assms(5) q show ?thesis by simp
  next
    case False
    have "x \<in> set (elems h') \<and> eqv h x e \<longleftrightarrow> x \<in> set (elems h) \<and> eqv h x e" for x
      using False assms(5) eqv_trans [OF assms(3), of new x e] eqv_sym [of h x new] by auto
    then have "lookup h' e = Some x \<longleftrightarrow> lookup h e = Some x" for x
      using lookup_Some [OF assms(2,4), of e x] lookup_Some [OF assms(1,3), of e x] q by simp
    with False show ?thesis by (metis not_Some_eq)
  qed
qed

end

section \<open>Iteration\<close>

text \<open>\<open>rest_of h i xs\<close>: the elements that the iterator has still to visit.\<close>

definition rest_of :: "'e hash \<Rightarrow> 'e hash_iterator \<Rightarrow> 'e list \<Rightarrow> bool" where
  "rest_of h i xs \<longleftrightarrow> unat (it_bucket i) < length (buckets h) \<and>
     (\<exists>us vs. buckets h ! unat (it_bucket i) = us @ vs \<and>
        xs = vs @ concat (drop (Suc (unat (it_bucket i))) (buckets h)) \<and>
        (it_elem i = Head \<and> us = [] \<or> (\<exists>us' e. us = us' @ [e] \<and> it_elem i = Elem e)))"

lemma cursor_after_split: "e \<notin> set us \<Longrightarrow> cursor_after e (us @ e # vs) = Some (cursor_at vs)"
  by (induction us) auto

lemma next_loop_step:
  assumes "placed h" "unat (it_bucket i) < length (buckets h)" "it_elem i = cursor_at vs"
    "buckets h ! unat (it_bucket i) = us @ vs"
    "xs = vs @ concat (drop (Suc (unat (it_bucket i))) (buckets h))"
  shows "\<exists>i'. next_loop h i = Some i' \<and>
    (case xs of [] \<Rightarrow> it_elem i' = Null | x # xs' \<Rightarrow> it_elem i' = Elem x \<and> rest_of h i' xs')"
  using assms
proof (induction h i arbitrary: us vs rule: next_loop.induct)
  case (1 h i)
  have len: "length (buckets h) = unat (bucket_cnt h)" using 1(2) by (simp add: placed_def)
  show ?case
  proof (cases vs)
    case (Cons v vs')
    with 1(3-6) have "rest_of h i (vs' @ concat (drop (Suc (unat (it_bucket i))) (buckets h)))"
      unfolding rest_of_def by (auto intro!: exI [of _ "us @ [v]"] exI [of _ vs'])
    with Cons 1(4,6) show ?thesis by (subst next_loop.simps) simp
  next
    case Nil
    have lt: "it_bucket i < bucket_cnt h" using 1(3) len by (simp add: word_less_nat_alt)
    then have inc: "unat (it_bucket i + 1) = Suc (unat (it_bucket i))" by (rule unat_inc_less)
    show ?thesis
    proof (cases "bucket_cnt h \<le> it_bucket i + 1")
      case True
      then have "drop (Suc (unat (it_bucket i))) (buckets h) = []"
        using inc len by (simp add: word_le_nat_alt)
      with True Nil lt 1(4,6) show ?thesis by (subst next_loop.simps) simp
    next
      case False
      let ?b = "buckets h ! Suc (unat (it_bucket i))"
      let ?i = "i\<lparr>it_bucket := it_bucket i + 1, it_elem := cursor_at ?b\<rparr>"
      have in_range: "Suc (unat (it_bucket i)) < length (buckets h)"
        using False inc len by (simp add: word_le_nat_alt)
      then have "drop (Suc (unat (it_bucket i))) (buckets h) = ?b # drop (Suc (Suc (unat (it_bucket i)))) (buckets h)"
        by (rule Cons_nth_drop_Suc [symmetric])
      then have xs: "xs = ?b @ concat (drop (Suc (unat (it_bucket ?i))) (buckets h))"
        using 1(6) Nil inc by simp
      have get: "arr_get (buckets h) (unat (it_bucket i + 1)) = Some ?b" using in_range inc by simp
      have "it_elem i = Tail \<and> it_bucket i < bucket_cnt h" using 1(4) Nil lt by simp
      from 1(1) [OF this False get 1(2) _ _ _ xs, of "[]"] in_range inc
      show ?thesis using \<open>it_elem i = Tail \<and> it_bucket i < bucket_cnt h\<close> False get
        by (subst next_loop.simps) simp
    qed
  qed
qed

lemma hash_next_step:
  assumes wf: "hash_wf h" and r: "rest_of h i xs"
  shows "\<exists>i'. hash_next h i = Some i' \<and>
    (case xs of [] \<Rightarrow> it_elem i' = Null | x # xs' \<Rightarrow> it_elem i' = Elem x \<and> rest_of h i' xs')"
proof -
  let ?k = "unat (it_bucket i)"
  obtain us vs where k: "?k < length (buckets h)" "buckets h ! ?k = us @ vs"
      "xs = vs @ concat (drop (Suc ?k) (buckets h))"
      "it_elem i = Head \<and> us = [] \<or> (\<exists>us' e. us = us' @ [e] \<and> it_elem i = Elem e)"
    using r by (auto simp: rest_of_def)
  have "distinct (buckets h ! ?k)"
    using wf k(1) by (auto simp: hash_wf_def elems_def distinct_concat_iff)
  then have "cursor_next (buckets h ! ?k) (it_elem i) = Some (cursor_at vs)"
    using k(2,4) by (auto simp: cursor_next_def cursor_after_split)
  moreover have "placed h" using wf by (simp add: hash_wf_def)
  note next_loop_step [OF this, of "i\<lparr>it_elem := cursor_at vs\<rparr>" vs us xs]
  ultimately show ?thesis using k(1-3) by (simp add: hash_next_def)
qed

lemma iterate_rest:
  "hash_wf h \<Longrightarrow> rest_of h i xs \<Longrightarrow> length xs < n \<Longrightarrow> iterate n h i = Some xs"
proof (induction n arbitrary: i xs)
  case (Suc n)
  obtain i' where i': "hash_next h i = Some i'"
    "case xs of [] \<Rightarrow> it_elem i' = Null | x # xs' \<Rightarrow> it_elem i' = Elem x \<and> rest_of h i' xs'"
    using hash_next_step [OF Suc.prems(1,2)] by blast
  show ?case
  proof (cases xs)
    case Nil
    with i' show ?thesis by (simp add: hash_cur_def)
  next
    case (Cons x xs')
    with i' Suc.IH [OF Suc.prems(1), of i' xs'] Suc.prems(3) show ?thesis by (simp add: hash_cur_def)
  qed
qed simp

lemma rest_of_first: "hash_wf h \<Longrightarrow> rest_of h (hash_first h) (elems h)"
proof -
  assume wf: "hash_wf h"
  then have "buckets h \<noteq> []" by (auto simp: hash_wf_def placed_def is_power_of_2_def unsigned_eq_0_iff)
  then show ?thesis by (cases "buckets h") (auto simp: rest_of_def hash_first_def elems_def)
qed

section \<open>Properties\<close>

text \<open>A table of page numbers for the examples: keys are compared as numbers.\<close>

definition demo_hash :: "u32 hash" where
  "demo_hash = \<lparr>hash_cnt = 2, bucket_cnt = 4, buckets = [[], [5, 1], [], []],
     hash_func = (\<lambda>e. e), less_func = (<)\<rparr>"

lemma demo_hash_key: "hash_key ((<) :: u32 less) (\<lambda>e. e)"
  by unfold_locales auto

lemma demo_hash_wf: "hash_wf demo_hash"
  by (simp add: demo_hash_def hash_wf_def placed_def elems_def eqv_def find_bucket_def is_power_of_2_def
      turn_off_least_1bit_def All_less_Suc)

text \<open>
  C4. \<open>hash_insert\<close> on a well-formed table never panics, whether or not the allocation in \<open>rehash\<close>
  succeeds: it returns the element equal to \<open>new\<close> that is already there, or null; the new table
  is well formed, it has \<open>new\<close> added exactly when null was returned, its recorded size is its
  number of elements, and \<open>hash_find\<close> in it finds exactly the elements it contains.
\<close>

theorem hash_insert_correct:
  assumes "hash_key (less_func h) (hash_func h)" "hash_wf h" "Suc (length (elems h)) < 2 ^ 32"
  shows "\<exists>old h'. hash_insert mal h new = Some (old, h') \<and> hash_wf h' \<and>
    (case old of
       Some x \<Rightarrow> x \<in> set (elems h) \<and> eqv h x new \<and> set (elems h') = set (elems h)
     | None \<Rightarrow> (\<forall>x \<in> set (elems h). \<not> eqv h x new) \<and> set (elems h') = insert new (set (elems h))) \<and>
    unat (hash_size h') = card (set (elems h')) \<and>
    (\<forall>e. \<exists>r. hash_find h' e = Some r \<and> (\<forall>x. r = Some x \<longleftrightarrow> x \<in> set (elems h') \<and> eqv h x e))"
proof -
  note k = assms(1)
  from hash_key.hash_insert_ok [OF k assms(2) refl refl assms(3), of mal new] obtain h' where
    h': "hash_insert mal h new = Some (lookup h new, h')" "hash_wf h'"
      "set (elems h') = (if lookup h new = None then insert new (set (elems h)) else set (elems h))"
      "less_func h' = less_func h" "hash_func h' = hash_func h" by blast
  have "eqv h' = eqv h" using h'(4) by (simp add: eqv_def fun_eq_iff)
  with hash_key.lookup_Some [OF k h'(2,4)] hash_key.hash_find_ok [OF k h'(2,4,5)]
  have "\<exists>r. hash_find h' e = Some r \<and> (\<forall>x. r = Some x \<longleftrightarrow> x \<in> set (elems h') \<and> eqv h x e)" for e
    by simp
  moreover have "unat (hash_size h') = card (set (elems h'))"
    using h'(2) by (simp add: hash_size_def hash_wf_def distinct_card)
  ultimately show ?thesis
    using h' hash_key.lookup_Some [OF k assms(2) refl, of new "the (lookup h new)"] hash_key.lookup_None [OF k, of h new]
    by (cases "lookup h new") simp_all
qed

theorem hash_insert_correct_witness:
  "\<exists>old h'. hash_insert (\<lambda>_. True) demo_hash 9 = Some (old, h') \<and> hash_wf h' \<and>
    (\<exists>r. hash_find h' 5 = Some r)"
proof -
  have "hash_key (less_func demo_hash) (hash_func demo_hash)"
    "Suc (length (elems demo_hash)) < 2 ^ 32"
    using demo_hash_key by (simp_all add: demo_hash_def elems_def)
  from hash_insert_correct [OF this(1) demo_hash_wf this(2), of "\<lambda>_. True" 9] show ?thesis by blast
qed

text \<open>
  C5. \<open>hash_delete\<close> removes and returns exactly the element equal to \<open>e\<close>, and leaves the table
  unchanged as a set when there is none; \<open>hash_replace\<close> returns the equal element and puts \<open>new\<close> in
  its place.  Neither panics, and both keep the table well formed.
\<close>

theorem hash_delete_replace_correct:
  assumes k: "hash_key (less_func h) (hash_func h)" and wf: "hash_wf h"
    and room: "Suc (length (elems h)) < 2 ^ 32"
  shows "(\<exists>found h'. hash_delete mal h e = Some (found, h') \<and> hash_wf h' \<and>
      (\<forall>x. found = Some x \<longleftrightarrow> x \<in> set (elems h) \<and> eqv h x e) \<and>
      set (elems h') = set (elems h) - {x. eqv h x e}) \<and>
    (\<exists>old h'. hash_replace mal h e = Some (old, h') \<and> hash_wf h' \<and>
      (\<forall>x. old = Some x \<longleftrightarrow> x \<in> set (elems h) \<and> eqv h x e) \<and>
      set (elems h') = insert e (set (elems h) - {x. eqv h x e}))"
  using hash_key.hash_delete_ok [OF k wf refl refl, of mal e]
    hash_key.hash_replace_ok [OF k wf refl refl room, of mal e]
    hash_key.lookup_Some [OF k wf refl, of e]
  by blast

theorem hash_delete_replace_correct_witness:
  "\<exists>found h'. hash_delete (\<lambda>_. False) demo_hash 5 = Some (found, h') \<and> hash_wf h' \<and>
    set (elems h') = set (elems demo_hash) - {x. eqv demo_hash x 5}"
proof -
  have "hash_key (less_func demo_hash) (hash_func demo_hash)"
    "Suc (length (elems demo_hash)) < 2 ^ 32"
    using demo_hash_key by (simp_all add: demo_hash_def elems_def)
  from hash_delete_replace_correct [OF this(1) demo_hash_wf this(2), of "\<lambda>_. False" 5] show ?thesis by blast
qed

text \<open>
  C6. Iterating over a well-formed table with \<open>hash_first\<close> and repeated \<open>hash_next\<close> ends with null
  after visiting every element exactly once, and never panics.
\<close>

theorem hash_iteration_complete:
  assumes "hash_wf h"
  shows "\<exists>xs. iterate (Suc (length (elems h))) h (hash_first h) = Some xs \<and> distinct xs \<and>
    set xs = (\<Union>b \<in> set (buckets h). set b)"
proof -
  have "iterate (Suc (length (elems h))) h (hash_first h) = Some (elems h)"
    by (rule iterate_rest [OF assms rest_of_first [OF assms]]) simp
  moreover have "distinct (elems h)" using assms by (simp add: hash_wf_def)
  moreover have "set (elems h) = (\<Union>b \<in> set (buckets h). set b)" by (simp add: elems_def)
  ultimately show ?thesis by blast
qed

theorem hash_iteration_complete_witness:
  "\<exists>xs. iterate 3 demo_hash (hash_first demo_hash) = Some xs \<and> distinct xs \<and> set xs = {5, 1}"
proof -
  have "Suc (length (elems demo_hash)) = 3" "(\<Union>b \<in> set (buckets demo_hash). set b) = {5, 1}"
    by (simp_all add: demo_hash_def elems_def)
  with hash_iteration_complete [OF demo_hash_wf] show ?thesis by (simp only:)
qed

end
