(* ===== verification/Arith64.thy ===== *)
theory Arith64
  imports Prelude "HOL-Library.Signed_Division"
begin

text \<open>
  \<open>lib/arithmetic.c\<close>: the 64-bit division routines that the compiler calls.  Words keep the C
  widths; a signed value is the same word read with \<open>sint\<close>.  The x86 instruction \<open>DIVL\<close> traps when
  its divisor is zero or its quotient does not fit in 32 bits, which is \<open>None\<close>.  The main result
  is that \<open>udiv64\<close> never traps for a nonzero divisor and returns the exact quotient, including
  the normalise-and-correct branch for divisors above 32 bits.
\<close>

section \<open>Definitions\<close>

definition divl :: "u64 \<Rightarrow> u32 \<Rightarrow> u32 option" where
  "divl n d =
     (if d = 0 \<or> n div ucast d \<ge> 2 ^ 32 then None else Some (ucast (n div ucast d)))"

definition nlz :: "u32 \<Rightarrow> nat" where
  "nlz x =
     (let n = 0;
          (n, x) = (if x \<le> 0x0000FFFF then (n + 16, push_bit 16 x) else (n, x));
          (n, x) = (if x \<le> 0x00FFFFFF then (n + 8, push_bit 8 x) else (n, x));
          (n, x) = (if x \<le> 0x0FFFFFFF then (n + 4, push_bit 4 x) else (n, x));
          (n, x) = (if x \<le> 0x3FFFFFFF then (n + 2, push_bit 2 x) else (n, x))
      in if x \<le> 0x7FFFFFFF then n + 1 else n)"

definition udiv64 :: "u64 \<Rightarrow> u64 \<Rightarrow> u64 option" where
  "udiv64 n d =
     (if drop_bit 32 d = 0 then do {
        let b = (push_bit 32 1 :: u64);
        let n1 = (ucast (drop_bit 32 n) :: u32);
        let n0 = (ucast n :: u32);
        let d0 = (ucast d :: u32);
        ASSERT (d0 \<noteq> 0);
        q \<leftarrow> divl (b * ucast (n1 mod d0) + ucast n0) d0;
        Some (ucast q + b * ucast (n1 div d0)) }
      else if n < d then Some 0
      else do {
        let d1 = (ucast (drop_bit 32 d) :: u32);
        let s = nlz d1;
        q1 \<leftarrow> divl (drop_bit 1 n) (ucast (drop_bit 32 (push_bit s d)));
        let q = (ucast (drop_bit (31 - s) q1) :: u64);
        Some (if n - (q - 1) * d < d then q - 1 else q) })"

definition umod64 :: "u64 \<Rightarrow> u64 \<Rightarrow> u32 option" where
  "umod64 n d = do { q \<leftarrow> udiv64 n d; Some (ucast (n - d * q)) }"

definition sdiv64 :: "u64 \<Rightarrow> u64 \<Rightarrow> u64 option" where
  "sdiv64 n d = do {
     let n_abs = (if 0 \<le> sint n then n else - n);
     let d_abs = (if 0 \<le> sint d then d else - d);
     q_abs \<leftarrow> udiv64 n_abs d_abs;
     Some (if (sint n < 0) = (sint d < 0) then q_abs else - q_abs) }"

definition smod64 :: "u64 \<Rightarrow> u64 \<Rightarrow> u32 option" where
  "smod64 n d = do { q \<leftarrow> sdiv64 n d; Some (ucast (n - d * q)) }"

definition divdi3 :: "u64 \<Rightarrow> u64 \<Rightarrow> u64 option" where
  "divdi3 n d = sdiv64 n d"

definition moddi3 :: "u64 \<Rightarrow> u64 \<Rightarrow> u64 option" where
  "moddi3 n d = map_option scast (smod64 n d)"

definition udivdi3 :: "u64 \<Rightarrow> u64 \<Rightarrow> u64 option" where
  "udivdi3 n d = udiv64 n d"

definition umoddi3 :: "u64 \<Rightarrow> u64 \<Rightarrow> u64 option" where
  "umoddi3 n d = map_option ucast (umod64 n d)"

section \<open>Leading zeros\<close>

lemma nlz_stage:
  fixes x :: u32
  assumes "0 < unat x" "unat x * 2 ^ k < 2 ^ 32"
  shows "unat (push_bit k x) = unat x * 2 ^ k" "0 < unat (push_bit k x)"
proof -
  have "unat (push_bit k x) = take_bit 32 (unat x * 2 ^ k)"
    by (simp only: unsigned_push_bit_eq push_bit_eq_mult [of k "unat x"]) simp
  then show "unat (push_bit k x) = unat x * 2 ^ k" using assms(2) by (simp add: take_bit_eq_mod)
  with assms(1) show "0 < unat (push_bit k x)" by simp
qed

text \<open>One stage of \<open>nlz\<close>: the pair of the count and the shifted value.\<close>

definition nlz_step :: "nat \<Rightarrow> u32 \<Rightarrow> nat \<times> u32 \<Rightarrow> nat \<times> u32" where
  "nlz_step k c p = (if snd p \<le> c then (fst p + k, push_bit k (snd p)) else p)"

definition nlz_inv :: "u32 \<Rightarrow> nat \<Rightarrow> nat \<Rightarrow> nat \<times> u32 \<Rightarrow> bool" where
  "nlz_inv x l m p \<longleftrightarrow> unat (snd p) = unat x * 2 ^ fst p \<and> 2 ^ l \<le> unat (snd p) \<and> fst p \<le> m"

lemma nlz_inv_step:
  assumes inv: "nlz_inv x l m p" and c: "unat c = 2 ^ (32 - k) - 1" and k: "l + 2 * k = 32"
  shows "nlz_inv x (l + k) (m + k) (nlz_step k c p)"
proof (cases "snd p \<le> c")
  case True
  have "(1::nat) \<le> 2 ^ l" by simp
  with inv have pos: "0 < unat (snd p)" unfolding nlz_inv_def by linarith
  have "unat (snd p) < 2 ^ (32 - k)"
    using True c by (simp add: word_le_nat_alt less_eq_Suc_le [symmetric] le_diff_conv2)
  then have "unat (snd p) * 2 ^ k < 2 ^ (32 - k) * 2 ^ k" by simp
  also have "(2::nat) ^ (32 - k) * 2 ^ k = 2 ^ 32" using k by (simp flip: power_add)
  finally have "unat (push_bit k (snd p)) = unat (snd p) * 2 ^ k" using nlz_stage [OF pos] by blast
  with True inv show ?thesis by (simp add: nlz_inv_def nlz_step_def power_add)
next
  case False
  have "32 - k = l + k" using k by simp
  with False c have "2 ^ (l + k) \<le> unat (snd p)" by (simp add: word_le_nat_alt)
  with False inv show ?thesis by (simp add: nlz_inv_def nlz_step_def)
qed

lemma nlz_normalises:
  assumes "x \<noteq> 0"
  shows "2 ^ 31 \<le> unat x * 2 ^ nlz x" "unat x * 2 ^ nlz x < 2 ^ 32" "nlz x \<le> 31"
proof -
  define p where "p = nlz_step 2 0x3FFFFFFF (nlz_step 4 0x0FFFFFFF (nlz_step 8 0x00FFFFFF
    (nlz_step 16 0x0000FFFF (0, x))))"
  have "nlz_inv x 0 0 (0, x)" using assms by (simp add: nlz_inv_def Suc_le_eq unat_gt_0)
  from nlz_inv_step [OF this, where c = "0x0000FFFF" and k = 16] have "nlz_inv x 16 16 (nlz_step 16 0x0000FFFF (0, x))" by simp
  from nlz_inv_step [OF this, where c = "0x00FFFFFF" and k = 8] have
    "nlz_inv x 24 24 (nlz_step 8 0x00FFFFFF (nlz_step 16 0x0000FFFF (0, x)))" by simp
  from nlz_inv_step [OF this, where c = "0x0FFFFFFF" and k = 4] have
    "nlz_inv x 28 28 (nlz_step 4 0x0FFFFFFF (nlz_step 8 0x00FFFFFF (nlz_step 16 0x0000FFFF (0, x))))" by simp
  from nlz_inv_step [OF this, where c = "0x3FFFFFFF" and k = 2] have p: "nlz_inv x 30 30 p" by (simp add: p_def)
  have "nlz x = (if snd p \<le> 0x7FFFFFFF then fst p + 1 else fst p)"
    by (simp add: nlz_def p_def nlz_step_def Let_def split: prod.splits)
  moreover have "unat (snd p) < 2 ^ 32" using unat_u32_bound by simp
  ultimately show "2 ^ 31 \<le> unat x * 2 ^ nlz x" "unat x * 2 ^ nlz x < 2 ^ 32" "nlz x \<le> 31"
    using p by (auto simp: nlz_inv_def word_le_nat_alt)
qed

section \<open>Unsigned division\<close>

text \<open>The estimate of the quotient, on natural numbers.\<close>

lemma quotient_estimate:
  fixes n d s :: nat
  assumes n: "n < 2 ^ 64" and s: "s \<le> 31" and lo: "2 ^ (63 - s) \<le> d"
  defines "D \<equiv> d div 2 ^ (32 - s) * 2 ^ (32 - s)"
  shows "n div d \<le> n div D" "n div D \<le> n div d + 1" "2 ^ (63 - s) \<le> D" "0 < D"
proof -
  have "63 - s = 31 + (32 - s)" "64 = (s + 1) + (63 - s)" "33 = (s + 1) + (32 - s)" using s by simp_all
  then have split: "(2::nat) ^ (63 - s) = 2 ^ 31 * 2 ^ (32 - s)"
    and e64: "(2::nat) ^ 64 = 2 ^ (s + 1) * 2 ^ (63 - s)" and e33: "(2::nat) ^ 33 = 2 ^ (s + 1) * 2 ^ (32 - s)"
    by (metis power_add)+
  have "2 ^ 31 \<le> d div 2 ^ (32 - s)" using lo unfolding split by (simp add: less_eq_div_iff_mult_less_eq)
  then show D: "2 ^ (63 - s) \<le> D" unfolding split D_def by simp
  then show pos: "0 < D" by (metis le_0_eq not_gr_zero power_not_zero zero_neq_numeral)
  have "d mod 2 ^ (32 - s) < 2 ^ (32 - s)" by simp
  then have "d - D < 2 ^ (32 - s)" unfolding D_def minus_div_mult_eq_mod .
  then have dD: "D \<le> d" "d - D \<le> 2 ^ (32 - s) - 1" by (simp add: D_def, linarith)
  show "n div d \<le> n div D" using dD(1) pos by (rule div_le_mono2 [rotated])
  let ?q = "n div d"
  have "?q \<le> n div 2 ^ (63 - s)" using lo by (rule div_le_mono2 [rotated]) simp
  also have "\<dots> < 2 ^ (s + 1)"
    using n unfolding e64 by (simp add: div_less_iff_less_mult)
  finally have q: "?q + 1 \<le> 2 ^ (s + 1)" by simp
  have "(?q + 1) * (d - D) \<le> 2 ^ (s + 1) * (2 ^ (32 - s) - 1)" using q dD(2) by (rule mult_le_mono)
  also have "\<dots> = 2 ^ 33 - 2 ^ (s + 1)" unfolding e33 by (simp add: diff_mult_distrib2)
  also have "\<dots> \<le> 2 ^ (63 - s)"
  proof (cases "s = 31")
    case False
    then have "(2::nat) ^ 33 \<le> 2 ^ (63 - s)" using s by (intro power_increasing) auto
    then show ?thesis by simp
  qed simp
  finally have "(?q + 1) * (d - D) \<le> D" using D by simp
  moreover have "(?q + 1) * d = (?q + 1) * D + (?q + 1) * (d - D)"
    using dD(1) by (simp flip: distrib_left)
  moreover have "n < (?q + 1) * d"
    using pos dD(1) by (metis Suc_eq_plus1 dividend_less_div_times less_le_trans mult.commute mult_Suc_right)
  ultimately have "n < (?q + 2) * D" by simp
  then show "n div D \<le> n div d + 1"
    using pos by (simp add: div_less_iff_less_mult less_Suc_eq_le [symmetric])
qed

lemma unat_u64_bound: "unat w < 2 ^ 64"
  for w :: u64
  using unsigned_less [of w, where 'a = nat] by simp

lemma unat_hi: "unat (ucast (drop_bit 32 n) :: u32) = unat n div 2 ^ 32"
  for n :: u64
proof -
  have "unat n div 2 ^ 32 < 2 ^ 32"
    using unat_u64_bound [of n] by (simp add: div_less_iff_less_mult)
  then show ?thesis by (simp add: unsigned_ucast_eq drop_bit_eq_div take_bit_eq_mod unat_div)
qed

lemma unat_lo: "unat (ucast n :: u32) = unat n mod 2 ^ 32"
  for n :: u64
  by (simp add: unsigned_ucast_eq take_bit_eq_mod)

lemma unat_up: "unat (ucast x :: u64) = unat x"
  for x :: u32
  using unat_u32_bound [of x] by (simp add: unsigned_ucast_eq take_bit_eq_mod)

lemma divl_eq:
  assumes "d \<noteq> 0" "unat n div unat d < 2 ^ 32"
  obtains q where "divl n d = Some q" "unat q = unat n div unat d"
proof
  have u: "unat (n div ucast d) = unat n div unat d" by (simp add: unat_div unat_up)
  then show "divl n d = Some (ucast (n div ucast d))"
    using assms by (simp add: divl_def word_le_nat_alt)
  show "unat (ucast (n div ucast d) :: u32) = unat n div unat d"
    using assms(2) by (simp add: unat_lo u)
qed

lemma udiv64_small:
  assumes "d \<noteq> 0" "drop_bit 32 d = 0"
  shows "udiv64 n d = Some (n div d)"
proof -
  define n1 n0 d0 :: u32 where "n1 = ucast (drop_bit 32 n)" and "n0 = ucast n" and "d0 = ucast d"
  have "unat d div 2 ^ 32 = 0"
    using arg_cong [OF assms(2), of unat] by (simp add: drop_bit_eq_div unat_div)
  then have d: "unat d0 = unat d" "unat d < 2 ^ 32" by (simp_all add: d0_def unat_lo div_eq_0_iff)
  have dpos: "0 < unat d" using assms(1) by (simp add: unat_gt_0)
  then have d0: "d0 \<noteq> 0" using d(1) by auto
  have n: "unat n1 = unat n div 2 ^ 32" "unat n0 = unat n mod 2 ^ 32" unfolding n1_def n0_def by (rule unat_hi, rule unat_lo)
  let ?b = "4294967296 :: u64"
  define v where "v = ?b * ucast (n1 mod d0) + ucast n0"
  define V where "V = 2 ^ 32 * (unat n1 mod unat d) + unat n0"
  have r: "unat n1 mod unat d < unat d" "unat n0 < 2 ^ 32" using dpos unat_u32_bound by simp_all
  then have "2 ^ 32 * (unat n1 mod unat d) + 2 ^ 32 \<le> 2 ^ 32 * unat d" by (simp flip: distrib_left add: Suc_le_eq)
  then have V: "V < 2 ^ 32 * unat d" using r(2) by (simp add: V_def)
  then have V64: "V < 2 ^ 64" using d(2) by simp
  have b: "unat (?b * ucast (x :: u32)) = 2 ^ 32 * unat x" for x
    using unat_u32_bound [of x] by (simp add: unat_word_ariths unat_up)
  have v: "unat v = V"
    using V64 by (simp add: v_def unat_word_ariths(1) b unat_up V_def unat_mod d)
  obtain q where q: "divl v d0 = Some q" "unat q = V div unat d"
    using divl_eq [OF d0, of v] V v d by (auto simp: div_less_iff_less_mult)
  have nd: "unat n div unat d = 2 ^ 32 * (unat n1 div unat d) + V div unat d"
  proof -
    have "unat n = 2 ^ 32 * unat n1 + unat n0" using n by simp
    also have "unat n1 = unat d * (unat n1 div unat d) + unat n1 mod unat d" by simp
    finally have "unat n = unat d * (2 ^ 32 * (unat n1 div unat d)) + V"
      unfolding V_def by (simp only: distrib_left mult_ac add_ac)
    then show ?thesis using dpos by simp
  qed
  have "unat (ucast q + ?b * ucast (n1 div d0)) = unat (n div d)"
  proof -
    have "unat (ucast q + ?b * ucast (n1 div d0)) = (V div unat d + 2 ^ 32 * (unat n1 div unat d)) mod 2 ^ 64"
      by (simp add: unat_word_ariths(1) b unat_up unat_div d q(2))
    also have "\<dots> = unat (n div d) mod 2 ^ 64" by (simp only: unat_div nd add.commute)
    finally show ?thesis using unat_u64_bound [of "n div d"] by (simp only: mod_less)
  qed
  then have "ucast q + ?b * ucast (n1 div d0) = n div d" by (simp only: word_unat_eq_iff)
  with q(1) d0 assms(2) show ?thesis
    by (simp add: udiv64_def v_def n1_def n0_def d0_def Let_def)
qed

text \<open>The correction step: the estimate is the quotient or one more.\<close>

lemma correction:
  fixes n d q :: u64
  assumes d: "d \<le> n" "d \<noteq> 0" and q: "unat q = unat n div unat d \<or> unat q = unat n div unat d + 1"
  shows "(if n - (q - 1) * d < d then q - 1 else q) = n div d"
proof -
  have dpos: "0 < unat d" using d(2) by (simp add: unat_gt_0)
  have q0: "1 \<le> unat n div unat d"
    using d(1) dpos by (simp add: word_le_nat_alt Suc_le_eq div_greater_zero_iff)
  then have "q \<noteq> 0" using q by auto
  then have p: "unat (q - 1) = unat q - 1" by (rule unat_pred)
  have "unat q - 1 \<le> unat n div unat d" using q by auto
  then have "(unat q - 1) * unat d \<le> unat n div unat d * unat d" by (rule mult_le_mono1)
  also have "\<dots> \<le> unat n" by (rule div_times_less_eq_dividend)
  finally have le: "(unat q - 1) * unat d \<le> unat n" .
  then have "unat ((q - 1) * d) = (unat q - 1) * unat d"
    using unat_u64_bound [of n] by (simp add: unat_word_ariths p)
  then have r: "unat (n - (q - 1) * d) = unat n - (unat q - 1) * unat d"
    using le by (simp add: unat_sub word_le_nat_alt)
  show ?thesis
  proof (cases "unat q = unat n div unat d")
    case True
    have "unat q \<noteq> 0" using q0 True by simp
    then obtain k where k: "unat q = Suc k" using not0_implies_Suc by blast
    have "unat q * unat d \<le> unat n" unfolding True by (rule div_times_less_eq_dividend)
    then have "unat d + (unat q - 1) * unat d \<le> unat n" using k by simp
    then have "unat d \<le> unat n - (unat q - 1) * unat d" by (simp only: le_diff_conv2 [OF le])
    then have "\<not> n - (q - 1) * d < d" using r by (simp add: word_less_nat_alt)
    with True show ?thesis by (simp add: word_unat_eq_iff unat_div)
  next
    case False
    then have q1: "unat q - 1 = unat n div unat d" using q by simp
    then have "unat n - (unat q - 1) * unat d < unat d" using dpos by (simp add: minus_div_mult_eq_mod)
    then have "n - (q - 1) * d < d" using r by (simp add: word_less_nat_alt)
    with q1 p show ?thesis by (simp add: word_unat_eq_iff unat_div)
  qed
qed

lemma udiv64_large:
  assumes "drop_bit 32 d \<noteq> 0" "d \<le> n"
  shows "udiv64 n d = Some (n div d)"
proof -
  define d1 :: u32 where "d1 = ucast (drop_bit 32 d)"
  define s where "s = nlz d1"
  have d1: "unat d1 = unat d div 2 ^ 32" unfolding d1_def by (rule unat_hi)
  have "unat (drop_bit 32 d) = unat d div 2 ^ 32" by (simp add: drop_bit_eq_div unat_div)
  then have "unat d1 \<noteq> 0" using assms(1) d1 by (metis unsigned_eq_0_iff)
  then have "d1 \<noteq> 0" by auto
  note z = nlz_normalises [OF this, folded s_def]
  have e: "(2::nat) ^ 31 = 2 ^ (31 - s) * 2 ^ s" "(2::nat) ^ 32 = 2 ^ (32 - s) * 2 ^ s"
    "(2::nat) ^ (63 - s) = 2 ^ (31 - s) * 2 ^ 32" "(2::nat) ^ (64 - s) = 2 ^ (32 - s) * 2 ^ 32"
    "(2::nat) ^ 64 = 2 ^ (64 - s) * 2 ^ s"
    using z(3) by (simp_all only: power_add [symmetric]) simp_all
  have "2 ^ (31 - s) \<le> unat d1" "unat d1 < 2 ^ (32 - s)" using z(1,2) unfolding e(1,2) by simp_all
  then have lo: "2 ^ (63 - s) \<le> unat d" and hi: "unat d < 2 ^ (64 - s)"
    unfolding e(3,4) d1 by (simp_all add: less_eq_div_iff_mult_less_eq div_less_iff_less_mult)
  define v :: u32 where "v = ucast (drop_bit 32 (push_bit s d))"
  have "unat d * 2 ^ s < 2 ^ 64" using hi unfolding e(5) by simp
  then have "unat (push_bit s d) = unat d * 2 ^ s"
    by (simp only: unsigned_push_bit_eq push_bit_eq_mult [of s "unat d"]) (simp add: take_bit_eq_mod)
  then have v: "unat v = unat d div 2 ^ (32 - s)" unfolding v_def unat_hi e(2) by simp
  note est = quotient_estimate [OF unat_u64_bound [of n] z(3) lo, folded v]
  have "(2::nat) ^ (63 - s) = 2 ^ 31 * 2 ^ (32 - s)" using z(3) by (simp only: power_add [symmetric]) simp
  then have v31: "2 ^ 31 \<le> unat v" using lo unfolding v by (simp add: less_eq_div_iff_mult_less_eq)
  then have v0: "v \<noteq> 0" by auto
  have half: "unat (drop_bit 1 n) = unat n div 2" by (simp add: drop_bit_eq_div unat_div)
  have "unat n div 2 < 2 ^ 32 * 2 ^ 31" using unat_u64_bound [of n] by simp
  also have "\<dots> \<le> 2 ^ 32 * unat v" using v31 by simp
  finally have "unat (drop_bit 1 n) div unat v < 2 ^ 32"
    using v31 unfolding half by (simp add: div_less_iff_less_mult)
  then obtain q1 where q1: "divl (drop_bit 1 n) v = Some q1" "unat q1 = unat n div 2 div unat v"
    using divl_eq [OF v0] half by metis
  define q :: u64 where "q = ucast (drop_bit (31 - s) q1)"
  have "unat q = unat q1 div 2 ^ (31 - s)"
    unfolding q_def unat_up unat_drop_bit_eq by (rule drop_bit_eq_div)
  also have "\<dots> = unat n div (unat v * (2 * 2 ^ (31 - s)))"
    unfolding q1(2) by (simp only: div_mult2_eq [symmetric] mult_ac)
  also have "(2::nat) * 2 ^ (31 - s) = 2 ^ (32 - s)" using z(3) by (simp flip: power_Suc add: Suc_diff_le)
  finally have "unat q = unat n div unat d \<or> unat q = unat n div unat d + 1" using est(1,2) by linarith
  moreover have "d \<noteq> 0" using assms(1) by (cases "d = 0") simp_all
  ultimately have "(if n - (q - 1) * d < d then q - 1 else q) = n div d"
    using correction [OF assms(2)] by blast
  moreover have "\<not> n < d" using assms(2) by simp
  then have "udiv64 n d = Some (if n - (q - 1) * d < d then q - 1 else q)"
    using assms(1) q1(1) by (simp add: udiv64_def Let_def d1_def s_def v_def q_def)
  ultimately show ?thesis by simp
qed

lemma udiv64_eq: "d \<noteq> 0 \<Longrightarrow> udiv64 n d = Some (n div d)"
proof (cases "drop_bit 32 d = 0 \<or> d \<le> n")
  case False
  then have "n div d = 0" by (simp add: word_unat_eq_iff unat_div word_le_nat_alt)
  with False show ?thesis by (simp add: udiv64_def not_le)
qed (auto intro: udiv64_small udiv64_large)

section \<open>Signed division and remainders\<close>

lemma sint_cases:
  "sint n = (if uint n < 2 ^ 63 then uint n else uint n - 2 ^ 64)"
  for n :: u64
proof -
  have b: "0 \<le> uint n" "uint n < 2 ^ 64" using uint_lt2p [of n] by simp_all
  have "sint n = (uint n + 2 ^ 63) mod 2 ^ 64 - 2 ^ 63"
    using int_word_sint [of "uint n", where 'a = 64] by simp
  also have "(uint n + 2 ^ 63) mod 2 ^ 64 = (if uint n < 2 ^ 63 then uint n + 2 ^ 63 else uint n - 2 ^ 63)"
  proof (cases "uint n < 2 ^ 63")
    case False
    then have "(uint n + 2 ^ 63) mod 2 ^ 64 = (uint n - 2 ^ 63) mod 2 ^ 64"
      using mod_add_self2 [of "uint n - 2 ^ 63" "2 ^ 64 :: int"] by (simp add: add.commute)
    with False b show ?thesis by simp
  qed (use b in simp)
  finally show ?thesis by simp
qed

lemma sint_0_iff: "sint n = 0 \<longleftrightarrow> n = 0"
  for n :: u64
  using uint_lt2p [of n] by (auto simp: sint_cases unsigned_eq_0_iff)

lemma uint_abs:
  fixes n :: u64
  shows "uint (if 0 \<le> sint n then n else - n) = \<bar>sint n\<bar>"
proof (cases "uint n < 2 ^ 63")
  case True
  then show ?thesis by (simp add: sint_cases)
next
  case False
  have "0 \<le> uint n" "uint n < 2 ^ 64" using uint_lt2p [of n] by simp_all
  with False have "(- uint n) mod 2 ^ 64 = 2 ^ 64 - uint n" by (simp add: zmod_zminus1_eq_if)
  then have "uint (- n) = 2 ^ 64 - uint n" by (simp add: uint_word_ariths)
  with False show ?thesis using uint_lt2p [of n] by (simp add: sint_cases)
qed

lemma sdiv_int_eq:
  "b \<noteq> 0 \<Longrightarrow> a sdiv b = (if (a < 0) = (b < 0) then \<bar>a\<bar> div \<bar>b\<bar> else - (\<bar>a\<bar> div \<bar>b\<bar>))"
  for a b :: int
  by (auto simp: signed_divide_int_def sgn_if)

lemma sdiv_int_bounds:
  fixes a b :: int
  assumes "b \<noteq> 0" "- (2 ^ 63) \<le> a" "a < 2 ^ 63" "\<not> (a = - (2 ^ 63) \<and> b = - 1)"
  shows "- (2 ^ 63) \<le> a sdiv b" "a sdiv b < 2 ^ 63"
proof -
  have q: "0 \<le> \<bar>a\<bar> div \<bar>b\<bar>" "\<bar>a\<bar> div \<bar>b\<bar> \<le> \<bar>a\<bar>"
    using assms(1) zdiv_mono2 [of "\<bar>a\<bar>" 1 "\<bar>b\<bar>"] by (simp_all add: pos_imp_zdiv_nonneg_iff)
  then show "- (2 ^ 63) \<le> a sdiv b" using assms by (auto simp: sdiv_int_eq)
  show "a sdiv b < 2 ^ 63"
  proof (cases "a = - (2 ^ 63) \<and> b < 0")
    case True
    then have "\<bar>a\<bar> div \<bar>b\<bar> \<le> \<bar>a\<bar> div 2" using assms(4) by (intro zdiv_mono2) auto
    with True show ?thesis using assms by (auto simp: sdiv_int_eq)
  next
    case False
    with q assms show ?thesis by (auto simp: sdiv_int_eq)
  qed
qed

lemma sdiv64_eq:
  assumes "d \<noteq> 0"
  shows "sdiv64 n d = Some (word_of_int (sint n sdiv sint d))"
proof -
  define na da where "na = (if 0 \<le> sint n then n else - n)" and "da = (if 0 \<le> sint d then d else - d)"
  have a: "uint na = \<bar>sint n\<bar>" "uint da = \<bar>sint d\<bar>" unfolding na_def da_def by (rule uint_abs)+
  have "sint d \<noteq> 0" using assms by (simp add: sint_0_iff)
  then have "da \<noteq> 0" using a(2) by auto
  then have u: "udiv64 na da = Some (na div da)" by (rule udiv64_eq)
  have q: "na div da = word_of_int (\<bar>sint n\<bar> div \<bar>sint d\<bar>)"
    by (simp add: word_div_def a)
  with u show ?thesis
    using sdiv_int_eq [OF \<open>sint d \<noteq> 0\<close>, of "sint n"] by (simp add: sdiv64_def na_def da_def Let_def)
qed

lemma word_mod_diff: "n - d * (n div d) = n mod d"
  for n d :: u64
  by (metis add_diff_cancel_left' mult.commute word_mod_div_equality)

lemma umoddi3_eq: "d \<noteq> 0 \<Longrightarrow> umoddi3 n d = Some (ucast (ucast (n mod d) :: u32))"
  by (simp add: umoddi3_def umod64_def udiv64_eq word_mod_diff)

section \<open>Properties\<close>

text \<open>
  C7. \<open>udiv64\<close>, and so \<open>__udivdi3\<close>, is exact: for a nonzero divisor neither of its \<open>DIVL\<close>
  instructions traps and it returns the 64-bit quotient; for divisor zero it traps.
\<close>

theorem udiv64_exact: "udivdi3 n d = (if d = 0 then None else Some (n div d))"
proof (cases "d = 0")
  case True
  then show ?thesis by (simp add: udivdi3_def udiv64_def)
qed (simp add: udivdi3_def udiv64_eq)

text \<open>
  \<open>__divdi3\<close> divides signed 64-bit integers with truncation towards zero: for a nonzero divisor
  it returns the quotient of the signed values reduced to 64 bits.  Only the quotient of the
  least integer by -1 is changed by the reduction, and it wraps to the least integer.
\<close>

theorem divdi3_truncates:
  assumes "d \<noteq> 0"
  shows "\<exists>q. divdi3 n d = Some q \<and>
    (if sint n = - (2 ^ 63) \<and> sint d = - 1 then q = n else sint q = sint n sdiv sint d)"
proof -
  have r: "- (2 ^ 63) \<le> sint n" "sint n < 2 ^ 63" using sint_range_size [of n] by (auto simp: word_size)
  have d: "sint d \<noteq> 0" using assms by (simp add: sint_0_iff)
  show ?thesis
  proof (cases "sint n = - (2 ^ 63) \<and> sint d = - 1")
    case True
    then have "sint n sdiv sint d = 2 ^ 63" by (simp add: signed_divide_int_def)
    moreover have "uint n = 2 ^ 63"
    proof -
      have "0 \<le> uint n" "sint n < 0" using True by simp_all
      then have "sint n \<noteq> uint n" by linarith
      then have "sint n = uint n - 2 ^ 64" by (simp add: sint_cases split: if_splits)
      with True show ?thesis by simp
    qed
    then have "n = word_of_int (2 ^ 63)" by (metis word_of_int_uint)
    ultimately show ?thesis using True assms by (simp add: divdi3_def sdiv64_eq)
  next
    case False
    note sdiv_int_bounds [OF d r False]
    then have "sint (word_of_int (sint n sdiv sint d) :: u64) = sint n sdiv sint d"
      by (simp add: int_word_sint)
    with False assms show ?thesis by (auto simp: divdi3_def sdiv64_eq)
  qed
qed

theorem divdi3_truncates_witness: "\<exists>q. divdi3 (- 7) 2 = Some q \<and> sint q = - 3"
  using divdi3_truncates [of 2 "- 7"] by (simp add: signed_divide_int_def)

text \<open>
  C8. The remainder routine \<open>__umoddi3\<close> is right only for remainders below \<open>2 ^ 32\<close>: \<open>umod64\<close> returns
  a 32-bit integer, so the result is the remainder reduced to 32 bits.  In particular it is exact
  whenever the divisor is at most \<open>2 ^ 32\<close>, and it is zero for the remainder of \<open>2 ^ 32\<close> by \<open>2 ^ 33\<close>.
\<close>

theorem umoddi3_low_half:
  "(d \<noteq> 0 \<longrightarrow> (\<exists>r. umoddi3 n d = Some r \<and> unat r = unat (n mod d) mod 2 ^ 32)) \<and>
   (d \<noteq> 0 \<and> d \<le> 2 ^ 32 \<longrightarrow> umoddi3 n d = Some (n mod d)) \<and>
   umoddi3 (2 ^ 32) (2 ^ 33) = Some 0"
proof (intro conjI impI)
  assume "d \<noteq> 0"
  then show "\<exists>r. umoddi3 n d = Some r \<and> unat r = unat (n mod d) mod 2 ^ 32"
    by (simp add: umoddi3_eq unat_up unat_lo)
next
  assume d: "d \<noteq> 0 \<and> d \<le> 2 ^ 32"
  then have "0 < unat d" "unat d \<le> 2 ^ 32" by (auto simp: unat_gt_0 word_le_nat_alt)
  then have "unat n mod unat d < 2 ^ 32" by (meson mod_less_divisor order_less_le_trans)
  with d show "umoddi3 n d = Some (n mod d)"
    by (simp add: umoddi3_eq word_unat_eq_iff unat_up unat_lo unat_mod)
next
  show "umoddi3 (2 ^ 32) (2 ^ 33) = Some 0" by (simp add: umoddi3_eq)
qed

theorem umoddi3_low_half_witness: "umoddi3 1000000007 97 = Some (1000000007 mod 97)"
  using umoddi3_low_half [of 97 1000000007] by (simp add: word_le_nat_alt)

end
