(* ===== verification/Bitmap.thy ===== *)
theory Bitmap
  imports Prelude
begin

text \<open>
  \<open>lib/kernel/bitmap.c\<close>: an array of bits packed into 32-bit elements.  The record \<open>bitmap\<close>
  is \<open>struct bitmap\<close>; the operations follow the source, with its word-level masks, its loops
  over \<open>size_t\<close> counters and its assertions.  The abstraction \<open>bits_of\<close> reads a bitmap as a
  list of booleans; the lemmas show that every operation is its counterpart on that list, that
  the scan finds the first group and that no access leaves the element array.
\<close>

type_synonym elem_type = "32 word"

record bitmap =
  bit_cnt :: size_t
  bits :: "elem_type list"

definition BITMAP_ERROR :: size_t where
  "BITMAP_ERROR = -1"

definition elem_idx :: "size_t \<Rightarrow> size_t" where
  "elem_idx bit_idx = bit_idx div 32"

definition bit_mask :: "size_t \<Rightarrow> elem_type" where
  "bit_mask bit_idx = push_bit (unat (bit_idx mod 32)) 1"

definition elem_cnt :: "size_t \<Rightarrow> size_t" where
  "elem_cnt n = DIV_ROUND_UP n 32"

definition byte_cnt :: "size_t \<Rightarrow> size_t" where
  "byte_cnt n = 4 * elem_cnt n"

definition last_mask :: "bitmap \<Rightarrow> elem_type" where
  "last_mask b =
     (let last_bits = unat (bit_cnt b mod 32)
      in if last_bits \<noteq> 0 then push_bit last_bits 1 - 1 else -1)"

definition bitmap_size :: "bitmap \<Rightarrow> size_t" where
  "bitmap_size b = bit_cnt b"

definition bitmap_mark :: "bitmap \<Rightarrow> size_t \<Rightarrow> bitmap option" where
  "bitmap_mark b bit_idx = do {
     let idx = unat (elem_idx bit_idx);
     e \<leftarrow> arr_get (bits b) idx;
     es \<leftarrow> arr_set (bits b) idx (e OR bit_mask bit_idx);
     Some (b\<lparr>bits := es\<rparr>) }"

definition bitmap_reset :: "bitmap \<Rightarrow> size_t \<Rightarrow> bitmap option" where
  "bitmap_reset b bit_idx = do {
     let idx = unat (elem_idx bit_idx);
     e \<leftarrow> arr_get (bits b) idx;
     es \<leftarrow> arr_set (bits b) idx (e AND NOT (bit_mask bit_idx));
     Some (b\<lparr>bits := es\<rparr>) }"

definition bitmap_flip :: "bitmap \<Rightarrow> size_t \<Rightarrow> bitmap option" where
  "bitmap_flip b bit_idx = do {
     let idx = unat (elem_idx bit_idx);
     e \<leftarrow> arr_get (bits b) idx;
     es \<leftarrow> arr_set (bits b) idx (e XOR bit_mask bit_idx);
     Some (b\<lparr>bits := es\<rparr>) }"

definition bitmap_set :: "bitmap \<Rightarrow> size_t \<Rightarrow> bool \<Rightarrow> bitmap option" where
  "bitmap_set b idx v = do {
     ASSERT (idx < bit_cnt b);
     if v then bitmap_mark b idx else bitmap_reset b idx }"

definition bitmap_test :: "bitmap \<Rightarrow> size_t \<Rightarrow> bool option" where
  "bitmap_test b idx = do {
     ASSERT (idx < bit_cnt b);
     e \<leftarrow> arr_get (bits b) (unat (elem_idx idx));
     Some (e AND bit_mask idx \<noteq> 0) }"

text \<open>The counted loops of the source: \<open>i\<close> runs from its argument up to \<open>cnt\<close>.\<close>

function set_multiple_loop :: "bitmap \<Rightarrow> size_t \<Rightarrow> size_t \<Rightarrow> bool \<Rightarrow> size_t \<Rightarrow> bitmap option" where
  "set_multiple_loop b start cnt v i =
     (if i < cnt
      then do { b' \<leftarrow> bitmap_set b (start + i) v; set_multiple_loop b' start cnt v (i + 1) }
      else Some b)"
  by pat_completeness auto
termination
  by (relation "measure (\<lambda>(b, start, cnt, v, i). unat cnt - unat i)")
    (auto simp: count_below_measure)

definition bitmap_set_multiple :: "bitmap \<Rightarrow> size_t \<Rightarrow> size_t \<Rightarrow> bool \<Rightarrow> bitmap option" where
  "bitmap_set_multiple b start cnt v = do {
     ASSERT (start \<le> bit_cnt b);
     ASSERT (start + cnt \<le> bit_cnt b);
     set_multiple_loop b start cnt v 0 }"

definition bitmap_set_all :: "bitmap \<Rightarrow> bool \<Rightarrow> bitmap option" where
  "bitmap_set_all b v = bitmap_set_multiple b 0 (bitmap_size b) v"

function count_loop :: "bitmap \<Rightarrow> size_t \<Rightarrow> size_t \<Rightarrow> bool \<Rightarrow> size_t \<Rightarrow> size_t \<Rightarrow> size_t option" where
  "count_loop b start cnt v i value_cnt =
     (if i < cnt
      then do { t \<leftarrow> bitmap_test b (start + i);
                count_loop b start cnt v (i + 1) (if t = v then value_cnt + 1 else value_cnt) }
      else Some value_cnt)"
  by pat_completeness auto
termination
  by (relation "measure (\<lambda>(b, start, cnt, v, i, value_cnt). unat cnt - unat i)")
    (auto simp: count_below_measure)

definition bitmap_count :: "bitmap \<Rightarrow> size_t \<Rightarrow> size_t \<Rightarrow> bool \<Rightarrow> size_t option" where
  "bitmap_count b start cnt v = do {
     ASSERT (start \<le> bit_cnt b);
     ASSERT (start + cnt \<le> bit_cnt b);
     count_loop b start cnt v 0 0 }"

function contains_loop :: "bitmap \<Rightarrow> size_t \<Rightarrow> size_t \<Rightarrow> bool \<Rightarrow> size_t \<Rightarrow> bool option" where
  "contains_loop b start cnt v i =
     (if i < cnt
      then do { t \<leftarrow> bitmap_test b (start + i);
                if t = v then Some True else contains_loop b start cnt v (i + 1) }
      else Some False)"
  by pat_completeness auto
termination
  by (relation "measure (\<lambda>(b, start, cnt, v, i). unat cnt - unat i)")
    (auto simp: count_below_measure)

definition bitmap_contains :: "bitmap \<Rightarrow> size_t \<Rightarrow> size_t \<Rightarrow> bool \<Rightarrow> bool option" where
  "bitmap_contains b start cnt v = do {
     ASSERT (start \<le> bit_cnt b);
     ASSERT (start + cnt \<le> bit_cnt b);
     contains_loop b start cnt v 0 }"

definition bitmap_any :: "bitmap \<Rightarrow> size_t \<Rightarrow> size_t \<Rightarrow> bool option" where
  "bitmap_any b start cnt = bitmap_contains b start cnt True"

definition bitmap_none :: "bitmap \<Rightarrow> size_t \<Rightarrow> size_t \<Rightarrow> bool option" where
  "bitmap_none b start cnt = map_option Not (bitmap_contains b start cnt True)"

definition bitmap_all :: "bitmap \<Rightarrow> size_t \<Rightarrow> size_t \<Rightarrow> bool option" where
  "bitmap_all b start cnt = map_option Not (bitmap_contains b start cnt False)"

text \<open>
  The scan loop counts \<open>i\<close> from \<open>start\<close> to \<open>last\<close> inclusive.  Its increment can only wrap when
  \<open>last\<close> is \<open>SIZE_MAX\<close>, which needs \<open>cnt = 0\<close>, and then the first test already succeeds; the
  guard \<open>i = lst\<close> below stops the recursion at the last index as the loop condition does.
\<close>

function scan_loop :: "bitmap \<Rightarrow> size_t \<Rightarrow> bool \<Rightarrow> size_t \<Rightarrow> size_t \<Rightarrow> size_t option" where
  "scan_loop b cnt v lst i =
     (if i \<le> lst
      then do { c \<leftarrow> bitmap_contains b i cnt (\<not> v);
                if \<not> c then Some i
                else if i = lst then Some BITMAP_ERROR
                else scan_loop b cnt v lst (i + 1) }
      else Some BITMAP_ERROR)"
  by pat_completeness auto
termination
  by (relation "measure (\<lambda>(b, cnt, v, lst, i). unat lst - unat i)")
    (auto simp: count_up_measure)

definition bitmap_scan :: "bitmap \<Rightarrow> size_t \<Rightarrow> size_t \<Rightarrow> bool \<Rightarrow> size_t option" where
  "bitmap_scan b start cnt v = do {
     ASSERT (start \<le> bit_cnt b);
     if cnt \<le> bit_cnt b
     then scan_loop b cnt v (bit_cnt b - cnt) start
     else Some BITMAP_ERROR }"

definition bitmap_scan_and_flip ::
    "bitmap \<Rightarrow> size_t \<Rightarrow> size_t \<Rightarrow> bool \<Rightarrow> (size_t \<times> bitmap) option" where
  "bitmap_scan_and_flip b start cnt v = do {
     idx \<leftarrow> bitmap_scan b start cnt v;
     b' \<leftarrow> (if idx \<noteq> BITMAP_ERROR then bitmap_set_multiple b idx cnt (\<not> v) else Some b);
     Some (idx, b') }"

text \<open>
  Creation.  The two \<open>malloc\<close> calls of \<open>bitmap_create\<close> are parameters: \<open>m_hdr\<close> says whether the
  header was obtained, \<open>m_bits n\<close> is the content of the block returned for \<open>n\<close> bytes, read as
  elements, or \<open>None\<close> for a null pointer.  The result \<open>Some None\<close> is the null pointer the
  function returns.  \<open>bitmap_create_in_buf\<close> takes the buffer's content after the header.
\<close>

definition bitmap_create ::
    "bool \<Rightarrow> (size_t \<Rightarrow> elem_type list option) \<Rightarrow> size_t \<Rightarrow> bitmap option option" where
  "bitmap_create m_hdr m_bits n =
     (if m_hdr
      then (case m_bits (byte_cnt n) of
              Some es \<Rightarrow> map_option Some (bitmap_set_all \<lparr>bit_cnt = n, bits = es\<rparr> False)
            | None \<Rightarrow> if n = 0 then map_option Some (bitmap_set_all \<lparr>bit_cnt = n, bits = []\<rparr> False)
                      else Some None)
      else Some None)"

definition bitmap_buf_size :: "size_t \<Rightarrow> size_t" where
  "bitmap_buf_size n = 8 + byte_cnt n"

definition bitmap_create_in_buf :: "size_t \<Rightarrow> elem_type list \<Rightarrow> size_t \<Rightarrow> bitmap option" where
  "bitmap_create_in_buf n block block_size = do {
     ASSERT (bitmap_buf_size n \<le> block_size);
     bitmap_set_all \<lparr>bit_cnt = n, bits = block\<rparr> False }"

text \<open>
  File input and output.  \<open>fwrite\<close> and \<open>fread\<close> stand for \<open>file_write_at (file, _, size, 0)\<close> and
  \<open>file_read_at (file, _, size, 0)\<close>: the first takes the bytes and the file state and returns the
  count written and the new state; the second takes the size and returns the count read and the
  bytes that replace the buffer (of which a short read fills only a prefix).
\<close>

definition bitmap_file_size :: "bitmap \<Rightarrow> size_t" where
  "bitmap_file_size b = byte_cnt (bit_cnt b)"

definition elem_bytes :: "bitmap \<Rightarrow> byte list" where
  "elem_bytes b = take (unat (byte_cnt (bit_cnt b))) (concat (map le_bytes (bits b)))"

definition bitmap_write :: "(byte list \<Rightarrow> 's \<Rightarrow> size_t \<times> 's) \<Rightarrow> bitmap \<Rightarrow> 's \<Rightarrow> bool \<times> 's" where
  "bitmap_write fwrite b s =
     (let size = byte_cnt (bit_cnt b); (n, s') = fwrite (elem_bytes b) s in (n = size, s'))"

definition bitmap_read :: "(size_t \<Rightarrow> 's \<Rightarrow> size_t \<times> byte list) \<Rightarrow> bitmap \<Rightarrow> 's \<Rightarrow> (bool \<times> bitmap) option"
  where
  "bitmap_read fread b s =
     (if 0 < bit_cnt b
      then do {
        let size = byte_cnt (bit_cnt b);
        let (n, bs) = fread size s;
        let es = le_words (take (unat n) bs @ drop (unat n) (concat (map le_bytes (bits b))));
        let i = unat (elem_cnt (bit_cnt b) - 1);
        e \<leftarrow> arr_get es i;
        es' \<leftarrow> arr_set es i (e AND last_mask b);
        Some (n = size, b\<lparr>bits := es'\<rparr>) }
      else Some (True, b))"

text \<open>The bitmap read as a list of booleans, and the invariant that its elements suffice.\<close>

definition bit_at :: "bitmap \<Rightarrow> nat \<Rightarrow> bool" where
  "bit_at b i = bit (bits b ! (i div 32)) (i mod 32)"

definition bits_of :: "bitmap \<Rightarrow> bool list" where
  "bits_of b = map (bit_at b) [0..<unat (bit_cnt b)]"

definition bitmap_rep :: "bitmap \<Rightarrow> bool list \<Rightarrow> bool" where
  "bitmap_rep b xs \<longleftrightarrow> unat (bit_cnt b) \<le> 32 * length (bits b) \<and> xs = bits_of b"

definition scan_result :: "nat option \<Rightarrow> size_t" where
  "scan_result r = (case r of Some i \<Rightarrow> of_nat i | None \<Rightarrow> BITMAP_ERROR)"

declare set_multiple_loop.simps [simp del] count_loop.simps [simp del]
declare contains_loop.simps [simp del] scan_loop.simps [simp del]

subsection \<open>Single bits\<close>

lemma unat_elem_idx [simp]: "unat (elem_idx i) = unat i div 32"
  by (simp add: elem_idx_def unat_div)

lemma bit_bit_mask [simp]: "bit (bit_mask i) n \<longleftrightarrow> n = unat i mod 32"
  by (auto simp: bit_mask_def bit_simps unat_mod)

lemma and_bit_mask: "e AND bit_mask i \<noteq> 0 \<longleftrightarrow> bit e (unat i mod 32)"
  by (simp add: bit_mask_def unat_mod push_bit_of_1 and_exp_eq_0_iff_not_bit)

lemma length_bits_of [simp]: "length (bits_of b) = unat (bit_cnt b)"
  by (simp add: bits_of_def)

lemma nth_bits_of [simp]: "i < unat (bit_cnt b) \<Longrightarrow> bits_of b ! i = bit_at b i"
  by (simp add: bits_of_def)

lemma rep_length: "bitmap_rep b xs \<Longrightarrow> length xs = unat (bit_cnt b)"
  by (simp add: bitmap_rep_def)

lemma rep_elem_in:
  "bitmap_rep b xs \<Longrightarrow> unat i < length xs \<Longrightarrow> unat i div 32 < length (bits b)"
  by (auto simp: bitmap_rep_def less_mult_imp_div_less mult.commute)

lemma rep_update:
  assumes rep: "bitmap_rep b xs" and i: "i < length xs"
    and e: "\<And>n. n < 32 \<Longrightarrow> bit e n = (if n = i mod 32 then v else bit (bits b ! (i div 32)) n)"
  shows "bitmap_rep (b\<lparr>bits := (bits b)[i div 32 := e]\<rparr>) (xs[i := v])"
proof -
  let ?b = "b\<lparr>bits := (bits b)[i div 32 := e]\<rparr>"
  have in_range: "i div 32 < length (bits b)"
    using rep i by (auto simp: bitmap_rep_def less_mult_imp_div_less mult.commute)
  have "bits_of ?b = (bits_of b)[i := v]"
  proof (rule nth_equalityI)
    fix j assume "j < length (bits_of ?b)"
    then have "j < unat (bit_cnt b)" by simp
    moreover have "j = i" if "j div 32 = i div 32" "j mod 32 = i mod 32"
      using that by (metis div_mod_decomp)
    ultimately show "bits_of ?b ! j = (bits_of b)[i := v] ! j"
      using in_range e [of "j mod 32"] i rep
      by (auto simp: bit_at_def nth_list_update bitmap_rep_def)
  qed simp
  with rep show ?thesis by (simp add: bitmap_rep_def)
qed

lemma bitmap_mark_rep:
  assumes "bitmap_rep b xs" "unat i < length xs"
  obtains b' where "bitmap_mark b i = Some b'" "bitmap_rep b' (xs[unat i := True])"
  using rep_elem_in [OF assms]
  by (auto simp: bitmap_mark_def Let_def bit_simps
      intro!: that [OF _ rep_update [OF assms, of "bits b ! (unat i div 32) OR bit_mask i"]])

lemma bitmap_reset_rep:
  assumes "bitmap_rep b xs" "unat i < length xs"
  obtains b' where "bitmap_reset b i = Some b'" "bitmap_rep b' (xs[unat i := False])"
  using rep_elem_in [OF assms]
  by (auto simp: bitmap_reset_def Let_def bit_simps split: if_splits
      intro!: that [OF _ rep_update [OF assms, of "bits b ! (unat i div 32) AND NOT (bit_mask i)"]])

lemma bitmap_flip_rep:
  assumes "bitmap_rep b xs" "unat i < length xs"
  obtains b' where "bitmap_flip b i = Some b'"
    "bitmap_rep b' (xs[unat i := \<not> xs ! unat i])"
proof -
  have "xs ! unat i = bit (bits b ! (unat i div 32)) (unat i mod 32)"
    using assms by (auto simp: bitmap_rep_def bit_at_def)
  then show ?thesis
    using rep_elem_in [OF assms]
    by (auto simp: bitmap_flip_def Let_def bit_simps
        intro!: that [OF _ rep_update [OF assms, of "bits b ! (unat i div 32) XOR bit_mask i"]])
qed

lemma bitmap_set_rep:
  assumes "bitmap_rep b xs" "unat i < length xs"
  obtains b' where "bitmap_set b i v = Some b'" "bitmap_rep b' (xs[unat i := v])"
  using assms bitmap_mark_rep [OF assms] bitmap_reset_rep [OF assms] that
  by (cases v) (auto simp: bitmap_set_def bind_ASSERT rep_length word_less_nat_alt)

lemma bitmap_test_rep:
  assumes "bitmap_rep b xs" "unat i < length xs"
  shows "bitmap_test b i = Some (xs ! unat i)"
  using assms rep_elem_in [OF assms]
  by (auto simp: bitmap_test_def and_bit_mask bit_at_def bitmap_rep_def bind_ASSERT
      word_less_nat_alt)

subsection \<open>Ranges of bits\<close>

lemma unat_range:
  fixes start cnt :: size_t
  assumes "bitmap_rep b xs" "unat start + unat cnt \<le> length xs"
  shows "start \<le> bit_cnt b" "start + cnt \<le> bit_cnt b" "unat (start + cnt) = unat start + unat cnt"
    "i < cnt \<Longrightarrow> unat (start + i) = unat start + unat i"
    "i < cnt \<Longrightarrow> unat (start + i) < length xs"
proof -
  have bound: "unat (bit_cnt b) < 2 ^ 32"
    using unsigned_less [of "bit_cnt b"] by simp
  have len: "length xs = unat (bit_cnt b)" using assms(1) by (rule rep_length)
  show sum: "unat (start + cnt) = unat start + unat cnt"
    using assms bound len by (simp add: unat_word_ariths)
  show "start \<le> bit_cnt b" "start + cnt \<le> bit_cnt b"
    using assms(2) len sum by (simp_all add: word_le_nat_alt)
  show "unat (start + i) = unat start + unat i" if "i < cnt"
    using assms(2) bound len that by (simp add: unat_word_ariths word_less_nat_alt)
  then show "unat (start + i) < length xs" if "i < cnt"
    using assms(2) that by (simp add: word_less_nat_alt)
qed

lemma set_multiple_loop_rep:
  assumes "bitmap_rep b xs" "unat start + unat cnt \<le> length xs" "i \<le> cnt"
  shows "\<exists>b'. set_multiple_loop b start cnt v i = Some b' \<and>
    bitmap_rep b' (fill_range xs (unat start + unat i) (unat cnt - unat i) v)"
  using assms
proof (induction b start cnt v i arbitrary: xs rule: set_multiple_loop.induct)
  case (1 b start cnt v i)
  show ?case
  proof (cases "i < cnt")
    case True
    note r = unat_range [OF 1(2,3)]
    obtain b1 where b1: "bitmap_set b (start + i) v = Some b1"
        "bitmap_rep b1 (xs[unat start + unat i := v])"
      using bitmap_set_rep [OF 1(2) r(5) [OF True]] r(4) [OF True] by metis
    have "i + 1 \<le> cnt" "unat cnt - unat i = Suc (unat cnt - unat (i + 1))"
      "unat start + unat (i + 1) = Suc (unat start + unat i)"
      using True by (auto simp: unat_inc_less word_le_nat_alt word_less_nat_alt)
    with 1(1) [OF True b1(1) b1(2)] 1(3) True b1(1) show ?thesis
      by (subst set_multiple_loop.simps) (simp add: fill_range_Suc)
  next
    case False
    with 1(2,4) show ?thesis
      by (subst set_multiple_loop.simps) simp
  qed
qed

lemma bitmap_set_multiple_rep:
  assumes "bitmap_rep b xs" "unat start + unat cnt \<le> length xs"
  obtains b' where "bitmap_set_multiple b start cnt v = Some b'"
    "bitmap_rep b' (fill_range xs (unat start) (unat cnt) v)"
  using set_multiple_loop_rep [OF assms, of 0 v] unat_range [OF assms] that
  by (auto simp: bitmap_set_multiple_def bind_ASSERT)

lemma bitmap_set_all_rep:
  assumes "bitmap_rep b xs"
  obtains b' where "bitmap_set_all b v = Some b'" "bitmap_rep b' (replicate (length xs) v)"
  using bitmap_set_multiple_rep [OF assms, of 0 "bit_cnt b" v] that rep_length [OF assms]
  by (metis add_0 bitmap_set_all_def bitmap_size_def fill_range_all order_refl unsigned_0)

lemma count_loop_rep:
  assumes "bitmap_rep b xs" "unat start + unat cnt \<le> length xs" "i \<le> cnt"
  shows "count_loop b start cnt v i acc =
    Some (acc + of_nat (count_list (take (unat cnt - unat i) (drop (unat start + unat i) xs)) v))"
  using assms
proof (induction b start cnt v i acc rule: count_loop.induct)
  case (1 b start cnt v i acc)
  show ?case
  proof (cases "i < cnt")
    case True
    note r = unat_range [OF 1(2,3)]
    have t: "bitmap_test b (start + i) = Some (xs ! (unat start + unat i))"
      using bitmap_test_rep [OF 1(2) r(5) [OF True]] r(4) [OF True] by simp
    have "i + 1 \<le> cnt" "unat cnt - unat i = Suc (unat cnt - unat (i + 1))"
      "unat start + unat (i + 1) = Suc (unat start + unat i)"
      using True by (auto simp: unat_inc_less word_le_nat_alt word_less_nat_alt)
    with 1(1) [OF True t 1(2,3)] r(4,5) [OF True] True t show ?thesis
      by (subst count_loop.simps) (simp add: take_drop_Suc)
  next
    case False
    with 1(4) show ?thesis by (subst count_loop.simps) simp
  qed
qed

lemma contains_loop_rep:
  assumes "bitmap_rep b xs" "unat start + unat cnt \<le> length xs" "i \<le> cnt"
  shows "contains_loop b start cnt v i =
    Some (v \<in> set (take (unat cnt - unat i) (drop (unat start + unat i) xs)))"
  using assms
proof (induction b start cnt v i rule: contains_loop.induct)
  case (1 b start cnt v i)
  show ?case
  proof (cases "i < cnt")
    case True
    note r = unat_range [OF 1(2,3)]
    have t: "bitmap_test b (start + i) = Some (xs ! (unat start + unat i))"
      using bitmap_test_rep [OF 1(2) r(5) [OF True]] r(4) [OF True] by simp
    have "i + 1 \<le> cnt" "unat cnt - unat i = Suc (unat cnt - unat (i + 1))"
      "unat start + unat (i + 1) = Suc (unat start + unat i)"
      using True by (auto simp: unat_inc_less word_le_nat_alt word_less_nat_alt)
    with 1(1) [OF True t _ 1(2,3)] r(4,5) [OF True] True t show ?thesis
      by (subst contains_loop.simps) (auto simp: take_drop_Suc)
  next
    case False
    with 1(4) show ?thesis by (subst contains_loop.simps) simp
  qed
qed

lemma bitmap_count_rep:
  assumes "bitmap_rep b xs" "unat start + unat cnt \<le> length xs"
  shows "bitmap_count b start cnt v =
    Some (of_nat (count_list (take (unat cnt) (drop (unat start) xs)) v))"
  using count_loop_rep [OF assms, of 0 v 0] unat_range [OF assms]
  by (simp add: bitmap_count_def bind_ASSERT)

lemma bitmap_contains_rep:
  assumes "bitmap_rep b xs" "unat start + unat cnt \<le> length xs"
  shows "bitmap_contains b start cnt v = Some (v \<in> set (take (unat cnt) (drop (unat start) xs)))"
  using contains_loop_rep [OF assms, of 0 v] unat_range [OF assms]
  by (simp add: bitmap_contains_def bind_ASSERT)

lemma run_at_bool: "run_at xs n v i \<longleftrightarrow> (\<not> v) \<notin> set (take n (drop i xs))"
proof -
  have eq: "x = v \<longleftrightarrow> x \<noteq> (\<not> v)" for x by blast
  show ?thesis by (simp only: run_at_def eq) blast
qed

lemma bitmap_all_rep:
  assumes "bitmap_rep b xs" "unat start + unat cnt \<le> length xs"
  shows "bitmap_all b start cnt = Some (run_at xs (unat cnt) True (unat start))"
  by (simp add: bitmap_all_def bitmap_contains_rep [OF assms] run_at_bool)

lemma bitmap_none_rep:
  assumes "bitmap_rep b xs" "unat start + unat cnt \<le> length xs"
  shows "bitmap_none b start cnt = Some (run_at xs (unat cnt) False (unat start))"
  by (simp add: bitmap_none_def bitmap_contains_rep [OF assms] run_at_bool)

lemma scan_loop_rep:
  assumes "bitmap_rep b xs" "unat lst + unat cnt = length xs" "i \<le> lst"
  shows "scan_loop b cnt v lst i =
    Some (scan_result (find (run_at xs (unat cnt) v) [unat i..<Suc (unat lst)]))"
  using assms
proof (induction b cnt v lst i rule: scan_loop.induct)
  case (1 b cnt v lst i)
  have c: "bitmap_contains b i cnt (\<not> v) = Some (\<not> run_at xs (unat cnt) v (unat i))"
    using bitmap_contains_rep [OF 1(2), of i cnt "\<not> v"] 1(3,4)
    by (simp add: run_at_bool word_le_nat_alt)
  show ?case
  proof (cases "i = lst")
    case True
    with c show ?thesis by (subst scan_loop.simps) (auto simp: scan_result_def)
  next
    case False
    with 1(4) have "i < lst" by simp
    then have s: "i + 1 \<le> lst" "unat (i + 1) = Suc (unat i)" "unat i < unat lst"
      by (auto simp: unat_inc_less word_le_nat_alt word_less_nat_alt)
    then have "[unat i..<Suc (unat lst)] = unat i # [Suc (unat i)..<Suc (unat lst)]"
      by (simp add: upt_conv_Cons del: upt_Suc)
    with 1(1) [OF 1(4) c _ False 1(2,3) s(1)] c False 1(4) s(2) show ?thesis
      by (subst scan_loop.simps) (simp add: scan_result_def del: upt_Suc)
  qed
qed

lemma bitmap_scan_rep:
  assumes "bitmap_rep b xs" "unat start \<le> length xs"
  shows "bitmap_scan b start cnt v = Some (scan_result (find_run xs (unat start) (unat cnt) v))"
proof (cases "cnt \<le> bit_cnt b")
  case True
  let ?lst = "bit_cnt b - cnt"
  have lst: "unat ?lst = length xs - unat cnt" "unat ?lst + unat cnt = length xs"
    using True rep_length [OF assms(1)] by (auto simp: unat_sub word_le_nat_alt)
  have start: "start \<le> bit_cnt b"
    using assms by (simp add: rep_length word_le_nat_alt)
  show ?thesis
  proof (cases "start \<le> ?lst")
    case le: True
    show ?thesis
      using scan_loop_rep [OF assms(1) lst(2) le, of v] lst start True
      by (simp add: bitmap_scan_def bind_ASSERT find_run_def del: upt_Suc)
  next
    case False
    then have "[unat start..<Suc (length xs - unat cnt)] = []"
      using lst(1) by (simp add: word_le_nat_alt)
    then show ?thesis
      using False lst start True
      by (subst bitmap_scan_def, subst scan_loop.simps)
        (simp add: bind_ASSERT find_run_def scan_result_def del: upt_Suc)
  qed
next
  case False
  then show ?thesis
    using assms by (simp add: bitmap_scan_def bind_ASSERT find_run_def scan_result_def
        rep_length word_le_nat_alt)
qed

lemma scan_result_in:
  "i < unat (n :: size_t) \<Longrightarrow> unat (scan_result (Some i)) = i \<and> scan_result (Some i) \<noteq> BITMAP_ERROR"
proof -
  assume i: "i < unat n"
  then have "i < 4294967295" using unat_u32_bound [of n] by simp
  then have u: "unat (of_nat i :: size_t) = i" "i \<noteq> unat BITMAP_ERROR"
    by (simp_all add: unat_of_nat take_bit_eq_mod BITMAP_ERROR_def unsigned_minus_1_eq_mask mask_eq_exp_minus_1)
  then show ?thesis by (auto simp: scan_result_def)
qed

lemma bitmap_scan_and_flip_rep:
  assumes rep: "bitmap_rep b xs" and start: "unat start \<le> length xs" and cnt: "cnt \<noteq> 0"
  shows "case find_run xs (unat start) (unat cnt) v of
      Some i \<Rightarrow> \<exists>b'. bitmap_scan_and_flip b start cnt v = Some (scan_result (Some i), b') \<and>
        unat (scan_result (Some i)) = i \<and> scan_result (Some i) \<noteq> BITMAP_ERROR \<and>
        i + unat cnt \<le> length xs \<and> bitmap_rep b' (fill_range xs i (unat cnt) (\<not> v))
    | None \<Rightarrow> bitmap_scan_and_flip b start cnt v = Some (BITMAP_ERROR, b)"
proof (cases "find_run xs (unat start) (unat cnt) v")
  case None
  then show ?thesis
    by (simp add: bitmap_scan_and_flip_def bitmap_scan_rep [OF rep start] scan_result_def)
next
  case (Some i)
  have "0 < unat cnt" using cnt by (simp add: unat_gt_0)
  with find_run_SomeD [OF Some] rep_length [OF rep]
  have i: "i + unat cnt \<le> length xs" "i < unat (bit_cnt b)" by auto
  note r = scan_result_in [OF i(2)]
  obtain b' where "bitmap_set_multiple b (scan_result (Some i)) cnt (\<not> v) = Some b'"
      "bitmap_rep b' (fill_range xs i (unat cnt) (\<not> v))"
    using bitmap_set_multiple_rep [OF rep, of "scan_result (Some i)" cnt "\<not> v"] i r by metis
  with Some i r show ?thesis
    by (simp add: bitmap_scan_and_flip_def bitmap_scan_rep [OF rep start])
qed

subsection \<open>Creation, storage\<close>

lemma unat_elem_cnt:
  assumes "unat n + 31 < 2 ^ 32"
  shows "unat (elem_cnt n) = (unat n + 31) div 32" "unat (byte_cnt n) = 4 * unat (elem_cnt n)"
proof -
  show e: "unat (elem_cnt n) = (unat n + 31) div 32"
    using assms by (simp add: elem_cnt_def DIV_ROUND_UP_def unat_div unat_word_ariths)
  show "unat (byte_cnt n) = 4 * unat (elem_cnt n)"
    using assms e by (simp add: byte_cnt_def unat_word_ariths)
qed

lemma elem_cnt_enough:
  assumes "unat n + 31 < 2 ^ 32"
  shows "unat n \<le> 32 * unat (elem_cnt n)"
  unfolding unat_elem_cnt(1) [OF assms] by linarith

lemma bitmap_create_in_buf_rep:
  assumes "unat n + 31 < 2 ^ 32" "bitmap_buf_size n \<le> block_size" "unat (elem_cnt n) \<le> length block"
  obtains b where "bitmap_create_in_buf n block block_size = Some b"
    "bitmap_rep b (replicate (unat n) False)"
proof -
  have "bitmap_rep \<lparr>bit_cnt = n, bits = block\<rparr> (bits_of \<lparr>bit_cnt = n, bits = block\<rparr>)"
    using elem_cnt_enough [OF assms(1)] assms(3) by (simp add: bitmap_rep_def)
  then obtain b where "bitmap_set_all \<lparr>bit_cnt = n, bits = block\<rparr> False = Some b"
      "bitmap_rep b (replicate (unat n) False)"
    by (rule bitmap_set_all_rep [where v = False]) simp
  with assms(2) that show thesis by (simp add: bitmap_create_in_buf_def)
qed

lemma last_elem:
  assumes "0 < n" "n \<le> 32 * k" "k = (n + 31) div (32::nat)" "i < n"
  shows "i div 32 < k" and "i div 32 = k - 1 \<Longrightarrow> n mod 32 \<noteq> 0 \<Longrightarrow> i mod 32 < n mod 32"
proof -
  show "i div 32 < k" using assms by (simp add: less_mult_imp_div_less)
  assume i: "i div 32 = k - 1" and n: "n mod 32 \<noteq> 0"
  define q r where "q = n div 32" and "r = n mod 32"
  then have qr: "n = 32 * q + r" "r < 32" "0 < r" using n by auto
  then have "(32 * q + r + 31) div 32 = Suc q" by (intro div_nat_eqI) auto
  with assms(3) i have "i div 32 = q" unfolding qr(1) by simp
  then have "i = 32 * q + i mod 32" using div_mult_mod_eq [of i 32] by simp
  with assms(4) qr(1) show "i mod 32 < n mod 32" unfolding r_def [symmetric] by linarith
qed

lemma bit_last_mask:
  assumes "0 < unat (bit_cnt b)" "k = (unat (bit_cnt b) + 31) div 32" "i < unat (bit_cnt b)"
    "i div 32 = k - 1"
  shows "bit (last_mask b) (i mod 32)"
proof -
  have "unat (bit_cnt b) \<le> 32 * k" unfolding assms(2) by linarith
  note l = last_elem(2) [OF assms(1) this assms(2,3,4)]
  have "last_mask b = (if unat (bit_cnt b) mod 32 \<noteq> 0 then mask (unat (bit_cnt b) mod 32) else -1)"
    by (simp add: last_mask_def Let_def unat_mod mask_eq_exp_minus_1 push_bit_of_1)
  with l show ?thesis by (simp add: bit_mask_iff)
qed

text \<open>Reading back what \<open>bitmap_write\<close> stores into a bitmap of the same size.\<close>

lemma read_elems:
  assumes "unat (bit_cnt b) + 31 < 2 ^ 32" "bit_cnt b0 = bit_cnt b"
    "k = unat (elem_cnt (bit_cnt b))"
  shows "le_words (take (unat (byte_cnt (bit_cnt b))) (elem_bytes b) @
      drop (unat (byte_cnt (bit_cnt b))) (concat (map le_bytes (bits b0)))) =
    take k (bits b) @ drop k (bits b0)"
  using assms
  by (simp add: elem_bytes_def unat_elem_cnt take_concat_le_bytes drop_concat_le_bytes
      flip: map_append concat_append)

lemma bitmap_read_rep:
  assumes rep: "bitmap_rep b xs" and rep0: "bitmap_rep b0 ys" and eq: "bit_cnt b0 = bit_cnt b"
    and small: "unat (bit_cnt b) + 31 < 2 ^ 32"
    and fr: "fread (byte_cnt (bit_cnt b)) s = (byte_cnt (bit_cnt b), elem_bytes b)"
  obtains b' where "bitmap_read fread b0 s = Some (True, b')" "bitmap_rep b' xs"
proof (cases "0 < bit_cnt b")
  case False
  with rep rep0 eq have "xs = []" "bitmap_rep b0 []"
    by (auto simp: bitmap_rep_def bits_of_def word_gt_0)
  with False eq that show thesis by (auto simp: bitmap_read_def)
next
  case True
  define k where "k = unat (elem_cnt (bit_cnt b))"
  then have k: "k = (unat (bit_cnt b) + 31) div 32" using unat_elem_cnt [OF small] by simp
  have pos: "0 < k" using True k by (simp add: word_less_nat_alt)
  then have k1: "unat (elem_cnt (bit_cnt b) - 1) = k - 1"
    by (simp add: k_def unat_sub word_le_nat_alt)
  have len: "k \<le> length (bits b)" "k \<le> length (bits b0)"
    using rep rep0 eq k by (auto simp: bitmap_rep_def)
  define es where "es = take k (bits b) @ drop k (bits b0)"
  define b' where "b' = b0\<lparr>bits := es[k - 1 := es ! (k - 1) AND last_mask b0]\<rparr>"
  have "bitmap_read fread b0 s = Some (True, b')"
    using True eq fr pos k1 len read_elems [OF small eq k_def]
    by (simp add: bitmap_read_def b'_def es_def Let_def)
  moreover have "bits_of b' = bits_of b"
  proof (rule nth_equalityI)
    fix i assume "i < length (bits_of b')"
    then have i: "i < unat (bit_cnt b)" by (simp add: b'_def eq)
    have in_k: "i div 32 < k" using k i by linarith
    then have "bit_at b' i = bit_at b i"
      using bit_last_mask [of b0 k i] i k len
      by (auto simp: bit_at_def b'_def es_def nth_list_update nth_append bit_simps eq)
    with i show "bits_of b' ! i = bits_of b ! i" by (simp add: b'_def eq)
  qed (simp add: b'_def eq)
  moreover have "unat (bit_cnt b) \<le> 32 * length (bits b')"
    using rep0 eq len by (simp add: b'_def es_def bitmap_rep_def)
  ultimately show thesis
    using that rep eq by (simp add: bitmap_rep_def b'_def)
qed

subsection \<open>The allocator contract\<close>

text \<open>
  The page allocator, the free map and the swap table use a bitmap in one way: they find a
  group of clear bits and set it, check that a group is set, and clear it again.  The locale
  states what they rely on, over any representation \<open>rep\<close> of a list of booleans.
\<close>

locale bit_allocator =
  fixes rep :: "'b \<Rightarrow> bool list \<Rightarrow> bool"
    and scan_and_flip :: "'b \<Rightarrow> size_t \<Rightarrow> size_t \<Rightarrow> bool \<Rightarrow> (size_t \<times> 'b) option"
    and all_set :: "'b \<Rightarrow> size_t \<Rightarrow> size_t \<Rightarrow> bool option"
    and set_multiple :: "'b \<Rightarrow> size_t \<Rightarrow> size_t \<Rightarrow> bool \<Rightarrow> 'b option"
  assumes scan_found: "rep b xs \<Longrightarrow> cnt \<noteq> 0 \<Longrightarrow> find_run xs 0 (unat cnt) v = Some i \<Longrightarrow>
      \<exists>idx b'. scan_and_flip b 0 cnt v = Some (idx, b') \<and> unat idx = i \<and> idx \<noteq> BITMAP_ERROR \<and>
        rep b' (fill_range xs i (unat cnt) (\<not> v))"
    and scan_none: "rep b xs \<Longrightarrow> cnt \<noteq> 0 \<Longrightarrow> find_run xs 0 (unat cnt) v = None \<Longrightarrow>
      scan_and_flip b 0 cnt v = Some (BITMAP_ERROR, b)"
    and all_spec: "rep b xs \<Longrightarrow> unat s + unat n \<le> length xs \<Longrightarrow>
      all_set b s n = Some (run_at xs (unat n) True (unat s))"
    and set_spec: "rep b xs \<Longrightarrow> unat s + unat n \<le> length xs \<Longrightarrow>
      \<exists>b'. set_multiple b s n v = Some b' \<and> rep b' (fill_range xs (unat s) (unat n) v)"
begin

lemma alloc_cases:
  assumes "rep b xs" "cnt \<noteq> 0"
  obtains (found) idx b' where "scan_and_flip b 0 cnt False = Some (idx, b')" "idx \<noteq> BITMAP_ERROR"
      "unat idx + unat cnt \<le> length xs" "run_at xs (unat cnt) False (unat idx)"
      "rep b' (fill_range xs (unat idx) (unat cnt) True)"
      "\<And>j. j < unat idx \<Longrightarrow> \<not> run_at xs (unat cnt) False j"
  | (full) "scan_and_flip b 0 cnt False = Some (BITMAP_ERROR, b)"
      "\<And>i. i + unat cnt \<le> length xs \<Longrightarrow> \<not> run_at xs (unat cnt) False i"
proof (cases "find_run xs 0 (unat cnt) False")
  case None
  with scan_none [OF assms None] find_run_NoneD [OF None] show ?thesis by (auto intro: full)
next
  case (Some i)
  with scan_found [OF assms Some] find_run_SomeD [OF Some] show ?thesis by (auto intro: found)
qed

lemma free_after_alloc:
  assumes "rep b xs" "cnt \<noteq> 0" "scan_and_flip b 0 cnt False = Some (idx, b')" "idx \<noteq> BITMAP_ERROR"
  obtains b'' where "all_set b' idx cnt = Some True"
    "set_multiple b' idx cnt False = Some b''" "rep b'' xs"
proof (cases rule: alloc_cases [OF assms(1,2)])
  case (1 idx' b1)
  with assms(3) have r: "unat idx + unat cnt \<le> length xs" "run_at xs (unat cnt) False (unat idx)"
    "rep b' (fill_range xs (unat idx) (unat cnt) True)" by auto
  with all_spec [OF r(3), of idx cnt] set_spec [OF r(3), of idx cnt False] that show thesis
    by (auto simp: run_filled fill_back)
next
  case 2
  with assms show thesis by simp
qed

end

interpretation bm: bit_allocator bitmap_rep bitmap_scan_and_flip bitmap_all bitmap_set_multiple
proof unfold_locales
  fix b xs v i and cnt :: size_t
  assume "bitmap_rep b xs" "cnt \<noteq> 0" "find_run xs 0 (unat cnt) v = Some i"
  then show "\<exists>idx b'. bitmap_scan_and_flip b 0 cnt v = Some (idx, b') \<and> unat idx = i \<and>
      idx \<noteq> BITMAP_ERROR \<and> bitmap_rep b' (fill_range xs i (unat cnt) (\<not> v))"
    using bitmap_scan_and_flip_rep [of b xs 0 cnt v] by auto
next
  fix b xs v and cnt :: size_t
  assume "bitmap_rep b xs" "cnt \<noteq> 0" "find_run xs 0 (unat cnt) v = None"
  then show "bitmap_scan_and_flip b 0 cnt v = Some (BITMAP_ERROR, b)"
    using bitmap_scan_and_flip_rep [of b xs 0 cnt v] by auto
next
  fix b xs v and s n :: size_t
  assume "bitmap_rep b xs" "unat s + unat n \<le> length xs"
  then show "\<exists>b'. bitmap_set_multiple b s n v = Some b' \<and>
      bitmap_rep b' (fill_range xs (unat s) (unat n) v)"
    by (rule bitmap_set_multiple_rep [where v = v]) blast
qed (rule bitmap_all_rep)

subsection \<open>Properties\<close>

lemma length_elem_bytes:
  assumes "bitmap_rep b xs" "unat (bit_cnt b) + 31 < 2 ^ 32"
  shows "length (elem_bytes b) = unat (byte_cnt (bit_cnt b))"
proof -
  have "(unat (bit_cnt b) + 31) div 32 \<le> length (bits b)"
    using assms(1) by (auto simp: bitmap_rep_def)
  then show ?thesis
    using unat_elem_cnt [OF assms(2)]
    by (simp add: elem_bytes_def take_concat_le_bytes length_concat_le_bytes)
qed

text \<open>
  C1. \<open>bitmap_scan_and_flip\<close> is a first-fit search: it never panics, it returns the least index
  at or after \<open>start\<close> where \<open>cnt\<close> consecutive bits equal \<open>v\<close> and inverts exactly those bits,
  or, when there is no such group, it returns \<open>BITMAP_ERROR\<close> and leaves the bitmap unchanged.
\<close>

theorem scan_and_flip_first_fit:
  assumes "bitmap_rep b xs" "unat start \<le> length xs" "cnt \<noteq> 0"
  shows "(\<exists>idx b'. bitmap_scan_and_flip b start cnt v = Some (idx, b') \<and> idx \<noteq> BITMAP_ERROR \<and>
        start \<le> idx \<and> unat idx + unat cnt \<le> length xs \<and>
        (\<forall>j<unat cnt. xs ! (unat idx + j) = v) \<and>
        (\<forall>k. unat start \<le> k \<and> k < unat idx \<longrightarrow> (\<exists>j<unat cnt. xs ! (k + j) \<noteq> v)) \<and>
        bits_of b' = fill_range xs (unat idx) (unat cnt) (\<not> v)) \<or>
    ((\<forall>k. unat start \<le> k \<and> k + unat cnt \<le> length xs \<longrightarrow> (\<exists>j<unat cnt. xs ! (k + j) \<noteq> v)) \<and>
        bitmap_scan_and_flip b start cnt v = Some (BITMAP_ERROR, b))"
proof (cases "find_run xs (unat start) (unat cnt) v")
  case None
  with bitmap_scan_and_flip_rep [OF assms, of v] find_run_NoneD [OF None] show ?thesis
    by (auto simp: run_at_nth)
next
  case (Some i)
  note r = find_run_SomeD [OF Some]
  obtain b' where b': "bitmap_scan_and_flip b start cnt v = Some (scan_result (Some i), b')"
    "unat (scan_result (Some i)) = i" "scan_result (Some i) \<noteq> BITMAP_ERROR"
    "bits_of b' = fill_range xs i (unat cnt) (\<not> v)"
    using bitmap_scan_and_flip_rep [OF assms, of v] Some by (auto simp: bitmap_rep_def)
  have "\<exists>j<unat cnt. xs ! (k + j) \<noteq> v" if "unat start \<le> k" "k < i" for k
    using r that by (auto simp: run_at_nth)
  with b' r show ?thesis
    by (intro disjI1 exI [of _ "scan_result (Some i)"] exI [of _ b'])
      (auto simp: run_at_nth word_le_nat_alt)
qed

theorem scan_and_flip_first_fit_witness:
  "(\<exists>idx b'. bitmap_scan_and_flip \<lparr>bit_cnt = 40, bits = [5, 0]\<rparr> 1 2 False = Some (idx, b') \<and> 1 \<le> idx)"
  using scan_and_flip_first_fit [of "\<lparr>bit_cnt = 40, bits = [5, 0]\<rparr>"
      "bits_of \<lparr>bit_cnt = 40, bits = [5, 0]\<rparr>" 1 2 False]
  by (auto simp: bitmap_rep_def bit_at_def dest: spec [of _ 3])

text \<open>
  C2. A bitmap survives storage: whatever \<open>bitmap_write\<close> reports as written to a file,
  \<open>bitmap_read\<close> into any bitmap of the same size reads back successfully with the same bits,
  although the read clears the unused bits of the last element.  The file is any state whose
  read at offset 0 returns the bytes a complete write at offset 0 stored.
\<close>

theorem bitmap_storage_roundtrip:
  assumes rep: "bitmap_rep b xs" and rep0: "bitmap_rep b0 ys" and eq: "bit_cnt b0 = bit_cnt b"
    and small: "unat (bit_cnt b) + 31 < 2 ^ 32"
    and file_law: "\<And>bs s s'. fwrite bs s = (of_nat (length bs), s') \<Longrightarrow>
      fread (of_nat (length bs)) s' = (of_nat (length bs), bs)"
    and wr: "bitmap_write fwrite b s = (True, s')"
  shows "\<exists>b'. bitmap_read fread b0 s' = Some (True, b') \<and> bits_of b' = xs"
proof -
  note len = length_elem_bytes [OF rep small]
  from wr have "fwrite (elem_bytes b) s = (of_nat (length (elem_bytes b)), s')"
    by (auto simp: bitmap_write_def len split: prod.splits)
  from file_law [OF this] have "fread (byte_cnt (bit_cnt b)) s' = (byte_cnt (bit_cnt b), elem_bytes b)"
    by (simp add: len)
  then show ?thesis
    by (rule bitmap_read_rep [OF rep rep0 eq small, of fread s']) (auto simp: bitmap_rep_def)
qed

theorem bitmap_storage_roundtrip_witness:
  "\<exists>b'. bitmap_read (\<lambda>n s. (n, s)) \<lparr>bit_cnt = 3, bits = [7]\<rparr> (le_bytes 0xA5) = Some (True, b') \<and>
    bits_of b' = bits_of \<lparr>bit_cnt = 3, bits = [0xA5]\<rparr>"
proof -
  have "elem_bytes \<lparr>bit_cnt = 3, bits = [0xA5]\<rparr> = le_bytes 0xA5"
    by (simp add: elem_bytes_def byte_cnt_def elem_cnt_def DIV_ROUND_UP_def)
  then show ?thesis
    by (intro bitmap_storage_roundtrip [of "\<lparr>bit_cnt = 3, bits = [0xA5]\<rparr>" _ _
          "bits_of \<lparr>bit_cnt = 3, bits = [7]\<rparr>" "\<lambda>bs s. (of_nat (length bs), bs)" _ "[]"])
      (auto simp: bitmap_rep_def bitmap_write_def byte_cnt_def elem_cnt_def DIV_ROUND_UP_def)
qed

text \<open>
  \<open>bitmap_set_multiple\<close> on a group inside the bitmap never panics and changes exactly that
  group: a later \<open>bitmap_test\<close> of any bit returns the new value inside the group and the old one
  outside, and \<open>bitmap_count\<close> over the group returns \<open>cnt\<close>.
\<close>

theorem set_multiple_test:
  assumes rep: "bitmap_rep b xs" and range: "unat start + unat cnt \<le> length xs" and i: "i < bit_cnt b"
  shows "\<exists>b'. bitmap_set_multiple b start cnt v = Some b' \<and>
    bitmap_test b' i = Some (if start \<le> i \<and> i - start < cnt then v else xs ! unat i) \<and>
    bitmap_count b' start cnt v = Some cnt"
proof -
  obtain b' where b': "bitmap_set_multiple b start cnt v = Some b'"
      "bitmap_rep b' (fill_range xs (unat start) (unat cnt) v)"
    using bitmap_set_multiple_rep [OF rep range, of v] .
  have "take (unat cnt) (drop (unat start) (fill_range xs (unat start) (unat cnt) v)) =
      replicate (unat cnt) v"
    using range by (intro nth_equalityI) auto
  then have "bitmap_count b' start cnt v = Some cnt"
    using bitmap_count_rep [OF b'(2), of start cnt v] range by simp
  moreover have "unat i < length xs" using i rep by (simp add: rep_length word_less_nat_alt)
  then have "bitmap_test b' i = Some (if start \<le> i \<and> i - start < cnt then v else xs ! unat i)"
    using bitmap_test_rep [OF b'(2), of i]
    by (auto simp: word_le_nat_alt word_less_nat_alt unat_sub)
  ultimately show ?thesis using b'(1) by blast
qed

theorem set_multiple_test_witness:
  "\<exists>b'. bitmap_set_multiple \<lparr>bit_cnt = 40, bits = [0, 0]\<rparr> 30 5 True = Some b' \<and>
    bitmap_test b' 33 = Some True \<and> bitmap_count b' 30 5 True = Some 5"
  using set_multiple_test [of "\<lparr>bit_cnt = 40, bits = [0, 0]\<rparr>"
      "bits_of \<lparr>bit_cnt = 40, bits = [0, 0]\<rparr>" 30 5 33 True]
  by (simp add: bitmap_rep_def)

end
