(* ===== verification/Vaddr.thy ===== *)
theory Vaddr
  imports Prelude
begin

text \<open>
  \<open>threads/vaddr.h\<close> and \<open>threads/pte.h\<close>: virtual addresses, page numbers, the kernel mapping of
  physical memory, and the format of page directory and page table entries.  Addresses are
  32-bit words and the masks and shifts are those of the source.  The lemmas give the
  arithmetic reading: page number and offset are quotient and remainder by the page size, the
  two rounding functions find the neighbouring page boundaries, and an entry created for a page
  yields that page back with the flags asked for.
\<close>

section \<open>Definitions\<close>

type_synonym addr = u32

definition BITMASK :: "nat \<Rightarrow> nat \<Rightarrow> u32" where
  "BITMASK shift cnt = push_bit shift (push_bit cnt 1 - 1)"

definition PGBITS :: nat where "PGBITS = 12"

definition PGSIZE :: u32 where "PGSIZE = push_bit PGBITS 1"

definition PGMASK :: u32 where "PGMASK = BITMASK 0 PGBITS"

definition pg_ofs :: "addr \<Rightarrow> u32" where
  "pg_ofs va = va AND PGMASK"

definition pg_no :: "addr \<Rightarrow> u32" where
  "pg_no va = drop_bit PGBITS va"

definition pg_round_up :: "addr \<Rightarrow> addr" where
  "pg_round_up va = (va + PGSIZE - 1) AND NOT PGMASK"

definition pg_round_down :: "addr \<Rightarrow> addr" where
  "pg_round_down va = va AND NOT PGMASK"

definition PHYS_BASE :: addr where "PHYS_BASE = 0xc0000000"

definition is_user_vaddr :: "addr \<Rightarrow> bool" where
  "is_user_vaddr vaddr \<longleftrightarrow> vaddr < PHYS_BASE"

definition is_kernel_vaddr :: "addr \<Rightarrow> bool" where
  "is_kernel_vaddr vaddr \<longleftrightarrow> vaddr \<ge> PHYS_BASE"

definition ptov :: "u32 \<Rightarrow> addr option" where
  "ptov paddr = do { ASSERT (paddr < PHYS_BASE); Some (paddr + PHYS_BASE) }"

definition vtop :: "addr \<Rightarrow> u32 option" where
  "vtop vaddr = do { ASSERT (is_kernel_vaddr vaddr); Some (vaddr - PHYS_BASE) }"

definition PTBITS :: nat where "PTBITS = 10"

definition PTMASK :: u32 where "PTMASK = BITMASK PGBITS PTBITS"

definition pt_no :: "addr \<Rightarrow> u32" where
  "pt_no va = drop_bit PGBITS (va AND PTMASK)"

definition pd_no :: "addr \<Rightarrow> u32" where
  "pd_no va = drop_bit (PGBITS + PTBITS) va"

definition PTE_FLAGS :: u32 where "PTE_FLAGS = 0x00000fff"

definition PTE_ADDR :: u32 where "PTE_ADDR = 0xfffff000"

definition PTE_P :: u32 where "PTE_P = 0x1"

definition PTE_W :: u32 where "PTE_W = 0x2"

definition PTE_U :: u32 where "PTE_U = 0x4"

definition PTE_S :: u32 where "PTE_S = 0x8"

definition PTE_A :: u32 where "PTE_A = 0x20"

definition PTE_D :: u32 where "PTE_D = 0x40"

definition pde_create :: "addr \<Rightarrow> u32 option" where
  "pde_create pt = do {
     ASSERT (pg_ofs pt = 0);
     p \<leftarrow> vtop pt;
     Some (p OR PTE_U OR PTE_P OR PTE_W) }"

definition pde_get_pt :: "u32 \<Rightarrow> addr option" where
  "pde_get_pt pde = do { ASSERT (pde AND PTE_P \<noteq> 0); ptov (pde AND PTE_ADDR) }"

definition pte_create_kernel :: "addr \<Rightarrow> bool \<Rightarrow> u32 option" where
  "pte_create_kernel page writable = do {
     ASSERT (pg_ofs page = 0);
     p \<leftarrow> vtop page;
     Some (p OR PTE_P OR (if writable then PTE_W else 0)) }"

definition pte_create_user :: "addr \<Rightarrow> bool \<Rightarrow> u32 option" where
  "pte_create_user page writable = do {
     p \<leftarrow> pte_create_kernel page writable;
     Some (p OR PTE_U) }"

definition pte_get_page :: "u32 \<Rightarrow> addr option" where
  "pte_get_page pte = ptov (pte AND PTE_ADDR)"

section \<open>Pages\<close>

lemma PGSIZE_eq [simp]: "PGSIZE = 4096"
  by (simp add: PGSIZE_def PGBITS_def)

lemma PGMASK_eq: "PGMASK = mask 12"
  by (simp add: PGMASK_def BITMASK_def PGBITS_def mask_eq_exp_minus_1)

lemma unat_pg_ofs: "unat (pg_ofs va) = unat va mod 4096"
  by (simp add: pg_ofs_def PGMASK_eq flip: take_bit_eq_mask) (simp add: take_bit_eq_mod unat_mod)

lemma unat_pg_no: "unat (pg_no va) = unat va div 4096"
  by (simp add: pg_no_def PGBITS_def unat_drop_bit_eq drop_bit_eq_div unat_div)

lemma pg_ofs_0: "pg_ofs va = 0 \<longleftrightarrow> 4096 dvd unat va"
  by (simp add: word_unat_eq_iff unat_pg_ofs dvd_eq_mod_eq_0)

lemma round_down_diff: "pg_round_down va = va - pg_ofs va"
proof -
  have "va = (va AND PGMASK) + (va AND NOT PGMASK)"
    by (subst disjunctive_add) (auto simp: bit_simps intro!: bit_word_eqI)
  then show ?thesis by (simp add: pg_round_down_def pg_ofs_def algebra_simps)
qed

lemma unat_round_down: "unat (pg_round_down va) = unat va div 4096 * 4096"
proof -
  have "pg_ofs va \<le> va" by (simp add: word_le_nat_alt unat_pg_ofs)
  then show ?thesis
    by (simp add: round_down_diff unat_sub unat_pg_ofs minus_mod_eq_div_mult)
qed

lemma unat_round_up:
  assumes "unat va + 4095 < 2 ^ 32"
  shows "unat (pg_round_up va) = (unat va + 4095) div 4096 * 4096"
proof -
  have "pg_round_up va = pg_round_down (va + 4095)"
    by (simp add: pg_round_up_def pg_round_down_def add.commute)
  moreover have "unat (va + 4095) = unat va + 4095" using assms by (simp add: unat_word_ariths)
  ultimately show ?thesis by (simp add: unat_round_down)
qed

lemma page_split: "va = pg_round_down va + pg_ofs va"
  by (simp add: round_down_diff)

section \<open>Page table entries\<close>

lemma PTE_ADDR_eq: "PTE_ADDR = NOT (mask 12)"
  by (simp add: PTE_ADDR_def mask_eq_exp_minus_1)

lemma addr_with_flags:
  assumes "pg_ofs x = 0" "f AND PTE_ADDR = 0"
  shows "(x OR f) AND PTE_ADDR = x" "x AND PTE_ADDR = x"
proof -
  have x: "\<not> bit x n" if "n < 12" for n
    using arg_cong [OF assms(1), of "\<lambda>w. bit w n"] that by (simp add: pg_ofs_def PGMASK_eq bit_simps)
  have f: "\<not> bit f n" if "\<not> n < 12" for n
    using arg_cong [OF assms(2), of "\<lambda>w. bit w n"] that bit_imp_le_length [of f n]
    by (auto simp: PTE_ADDR_eq bit_simps)
  show "(x OR f) AND PTE_ADDR = x" "x AND PTE_ADDR = x"
    using x f by (auto simp: PTE_ADDR_eq bit_simps intro!: bit_word_eqI)
qed

lemma vtop_ptov:
  assumes "is_kernel_vaddr p"
  shows "vtop p = Some (p - PHYS_BASE)" "ptov (p - PHYS_BASE) = Some p"
proof -
  have le: "PHYS_BASE \<le> p" using assms by (simp add: is_kernel_vaddr_def)
  then show "vtop p = Some (p - PHYS_BASE)" by (simp add: vtop_def is_kernel_vaddr_def)
  have "unat (p - PHYS_BASE) = unat p - 0xc0000000" using le by (simp add: unat_sub PHYS_BASE_def)
  then show "ptov (p - PHYS_BASE) = Some p"
    using unat_u32_bound [of p] by (simp add: ptov_def word_less_nat_alt PHYS_BASE_def)
qed

lemma pg_ofs_vtop:
  assumes "is_kernel_vaddr p" "pg_ofs p = 0"
  shows "pg_ofs (p - PHYS_BASE) = 0"
proof -
  have "unat (p - PHYS_BASE) = unat p - 0xc0000000"
    using assms(1) by (simp add: unat_sub PHYS_BASE_def is_kernel_vaddr_def)
  with assms(2) show ?thesis by (simp add: pg_ofs_0 dvd_diff_nat)
qed

text \<open>The entry for a page, whatever flag bits are set or cleared in it later, denotes that page.\<close>

lemma pte_create_user_spec:
  assumes "is_kernel_vaddr page" "pg_ofs page = 0"
  obtains pte where "pte_create_user page w = Some pte" "pte AND PTE_ADDR = page - PHYS_BASE"
    "pte_get_page pte = Some page" "pte AND PTE_P \<noteq> 0" "pte AND PTE_W \<noteq> 0 \<longleftrightarrow> w" "pte AND PTE_U \<noteq> 0"
proof -
  define f where "f = PTE_P OR (if w then PTE_W else 0) OR PTE_U"
  let ?x = "page - PHYS_BASE"
  have o: "pg_ofs ?x = 0" by (rule pg_ofs_vtop [OF assms])
  have fz: "f AND PTE_ADDR = 0" by (simp add: f_def PTE_P_def PTE_W_def PTE_U_def PTE_ADDR_def)
  note a = addr_with_flags [OF o fz]
  have bits: "\<not> bit ?x n" if "n < 12" for n
    using arg_cong [OF o, of "\<lambda>w. bit w n"] that by (simp add: pg_ofs_def PGMASK_eq bit_simps)
  have t: "?x AND 1 = 0" "?x AND 2 = 0" "?x AND 4 = 0"
    using bits [of 0] bits [of 1] bits [of 2] and_exp_eq_0_iff_not_bit [of ?x 0]
      and_exp_eq_0_iff_not_bit [of ?x 1] and_exp_eq_0_iff_not_bit [of ?x 2] by simp_all
  have "pte_create_user page w = Some (?x OR f)"
    using vtop_ptov(1) [OF assms(1)] assms(2)
    by (simp add: pte_create_user_def pte_create_kernel_def f_def or.assoc)
  moreover have "pte_get_page (?x OR f) = Some page"
    using a vtop_ptov(2) [OF assms(1)] by (simp add: pte_get_page_def)
  moreover have "(?x OR f) AND PTE_P \<noteq> 0" "(?x OR f) AND PTE_W \<noteq> 0 \<longleftrightarrow> w" "(?x OR f) AND PTE_U \<noteq> 0"
    using t by (auto simp: f_def PTE_P_def PTE_W_def PTE_U_def bit.conj_disj_distrib2)
  ultimately show thesis using that a by blast
qed

lemma pde_create_spec:
  assumes "is_kernel_vaddr pt" "pg_ofs pt = 0"
  obtains pde where "pde_create pt = Some pde" "pde \<noteq> 0" "pde_get_pt pde = Some pt"
proof -
  let ?x = "pt - PHYS_BASE" and ?f = "PTE_U OR PTE_P OR PTE_W"
  have fz: "?f AND PTE_ADDR = 0" by (simp add: PTE_P_def PTE_W_def PTE_U_def PTE_ADDR_def)
  note a = addr_with_flags [OF pg_ofs_vtop [OF assms] fz]
  have p: "bit (?x OR ?f) 0" by (simp add: bit_simps PTE_P_def PTE_W_def PTE_U_def)
  then have "(?x OR ?f) AND PTE_P \<noteq> 0"
    using and_exp_eq_0_iff_not_bit [of "?x OR ?f" 0] by (simp add: PTE_P_def)
  moreover from p have "?x OR ?f \<noteq> 0" by (metis bit_0_eq bot_apply bot_bool_def)
  moreover have "pde_create pt = Some (?x OR ?f)"
    using vtop_ptov(1) [OF assms(1)] assms(2) by (simp add: pde_create_def or.assoc)
  ultimately show thesis
    using that a vtop_ptov(2) [OF assms(1)] by (simp add: pde_get_pt_def)
qed

end
