(* ===== verification/Palloc.thy ===== *)
theory Palloc
  imports Bitmap Vaddr
begin

text \<open>
  \<open>threads/palloc.c\<close>: the page allocator.  The field \<open>used_map\<close> of a pool is a pointer: the model keeps
  the bitmap it points to and, as \<open>used_map_at\<close>, its value.  The state holds the two pools and the
  contents of memory outside the two bitmaps; that the storage of a bitmap overlaps no page that is
  handed out is part of the allocator's invariant.  Pages are aligned and the allocator fills whole
  pages, so memory is kept as 32-bit words by (word-aligned) address.  The
  pool lock brackets a single bitmap call and is left out: the call is one atomic step.  The
  properties use the bitmap only through the contract \<open>bit_allocator\<close>.
\<close>

section \<open>Definitions\<close>

record pool =
  used_map :: bitmap
  used_map_at :: addr
  base :: addr

record palloc =
  kernel_pool :: pool
  user_pool :: pool
  mem :: "addr \<Rightarrow> u32"

definition PAL_ASSERT :: u32 where "PAL_ASSERT = 1"

definition PAL_ZERO :: u32 where "PAL_ZERO = 2"

definition PAL_USER :: u32 where "PAL_USER = 4"

text \<open>\<open>memset (dst, v, size)\<close> on a page-aligned block, with the byte \<open>v\<close> repeated in each word.\<close>

definition memset_words :: "addr \<Rightarrow> u32 \<Rightarrow> u32 \<Rightarrow> (addr \<Rightarrow> u32) \<Rightarrow> addr \<Rightarrow> u32" where
  "memset_words dst v n m = (\<lambda>a. if a - dst < n then v else m a)"

definition page_from_pool :: "pool \<Rightarrow> addr \<Rightarrow> bool" where
  "page_from_pool pool page =
     (let page_no = pg_no page;
          start_page = pg_no (base pool);
          end_page = start_page + bitmap_size (used_map pool)
      in page_no \<ge> start_page \<and> page_no < end_page)"

text \<open>
  The bitmap of a pool is put at the pool's base: after its two-word header, its elements are the
  words that memory holds there.
\<close>

definition words_at :: "(addr \<Rightarrow> u32) \<Rightarrow> addr \<Rightarrow> nat \<Rightarrow> u32 list" where
  "words_at m a n = map (\<lambda>i. m (a + 4 * of_nat i)) [0..<n]"

definition init_pool :: "(addr \<Rightarrow> u32) \<Rightarrow> addr \<Rightarrow> size_t \<Rightarrow> pool option" where
  "init_pool m bs page_cnt = do {
     let bm_pages = DIV_ROUND_UP (bitmap_buf_size page_cnt) PGSIZE;
     ASSERT (\<not> bm_pages > page_cnt);
     let page_cnt = page_cnt - bm_pages;
     let block = words_at m (bs + 8) (unat (bm_pages * PGSIZE) div 4 - 2);
     b \<leftarrow> bitmap_create_in_buf page_cnt block (bm_pages * PGSIZE);
     Some \<lparr>used_map = b, used_map_at = bs, base = bs + bm_pages * PGSIZE\<rparr> }"

definition palloc_init :: "addr \<Rightarrow> size_t \<Rightarrow> size_t \<Rightarrow> (addr \<Rightarrow> u32) \<Rightarrow> palloc option" where
  "palloc_init kernel_end ram_pages user_page_limit m = do {
     let free_start = pg_round_up kernel_end;
     free_end \<leftarrow> ptov (ram_pages * PGSIZE);
     let free_pages = (free_end - free_start) div PGSIZE;
     let user_pages = free_pages div 2;
     let user_pages = (if user_pages > user_page_limit then user_page_limit else user_pages);
     let kernel_pages = free_pages - user_pages;
     k \<leftarrow> init_pool m free_start kernel_pages;
     u \<leftarrow> init_pool m (free_start + kernel_pages * PGSIZE) user_pages;
     Some \<lparr>kernel_pool = k, user_pool = u, mem = m\<rparr> }"

definition the_pool :: "u32 \<Rightarrow> palloc \<Rightarrow> pool" where
  "the_pool flags st = (if flags AND PAL_USER \<noteq> 0 then user_pool st else kernel_pool st)"

definition set_pool :: "u32 \<Rightarrow> pool \<Rightarrow> palloc \<Rightarrow> palloc" where
  "set_pool flags p st =
     (if flags AND PAL_USER \<noteq> 0 then st\<lparr>user_pool := p\<rparr> else st\<lparr>kernel_pool := p\<rparr>)"

definition palloc_get_multiple :: "u32 \<Rightarrow> size_t \<Rightarrow> palloc \<Rightarrow> (addr \<times> palloc) option" where
  "palloc_get_multiple flags page_cnt st =
     (if page_cnt = 0 then Some (0, st)
      else do {
        let pool = the_pool flags st;
        (page_idx, b) \<leftarrow> bitmap_scan_and_flip (used_map pool) 0 page_cnt False;
        let st = set_pool flags (pool\<lparr>used_map := b\<rparr>) st;
        let pages = (if page_idx \<noteq> BITMAP_ERROR then base pool + PGSIZE * page_idx else 0);
        if pages \<noteq> 0 then
          Some (pages, if flags AND PAL_ZERO \<noteq> 0
                       then st\<lparr>mem := memset_words pages 0 (PGSIZE * page_cnt) (mem st)\<rparr> else st)
        else do {
          ASSERT (flags AND PAL_ASSERT = 0);
          Some (pages, st) } })"

definition palloc_get_page :: "u32 \<Rightarrow> palloc \<Rightarrow> (addr \<times> palloc) option" where
  "palloc_get_page flags st = palloc_get_multiple flags 1 st"

definition palloc_free_multiple :: "addr \<Rightarrow> size_t \<Rightarrow> palloc \<Rightarrow> palloc option" where
  "palloc_free_multiple pages page_cnt st = do {
     ASSERT (pg_ofs pages = 0);
     if pages = 0 \<or> page_cnt = 0 then Some st
     else do {
       flags \<leftarrow> (if page_from_pool (kernel_pool st) pages then Some 0
                else if page_from_pool (user_pool st) pages then Some PAL_USER
                else None);
       let pool = the_pool flags st;
       let page_idx = pg_no pages - pg_no (base pool);
       let st = st\<lparr>mem := memset_words pages 0xcccccccc (PGSIZE * page_cnt) (mem st)\<rparr>;
       all \<leftarrow> bitmap_all (used_map pool) page_idx page_cnt;
       ASSERT all;
       b \<leftarrow> bitmap_set_multiple (used_map pool) page_idx page_cnt False;
       Some (set_pool flags (pool\<lparr>used_map := b\<rparr>) st) } }"

definition palloc_free_page :: "addr \<Rightarrow> palloc \<Rightarrow> palloc option" where
  "palloc_free_page page st = palloc_free_multiple page 1 st"

section \<open>Invariant\<close>

text \<open>The first address after the storage of a pool's bitmap.\<close>

definition used_map_end :: "pool \<Rightarrow> nat" where
  "used_map_end p = unat (used_map_at p) + unat (bitmap_buf_size (bit_cnt (used_map p)))"

definition pool_rep :: "pool \<Rightarrow> bool list \<Rightarrow> bool" where
  "pool_rep p xs \<longleftrightarrow> bitmap_rep (used_map p) xs \<and> pg_ofs (base p) = 0 \<and> is_kernel_vaddr (base p) \<and>
     unat (base p) + 4096 * length xs < 2 ^ 32 \<and> used_map_end p \<le> unat (base p)"

definition palloc_rep :: "palloc \<Rightarrow> bool list \<Rightarrow> bool list \<Rightarrow> bool" where
  "palloc_rep st ks us \<longleftrightarrow> pool_rep (kernel_pool st) ks \<and> pool_rep (user_pool st) us \<and>
     unat (base (kernel_pool st)) + 4096 * length ks \<le> unat (base (user_pool st)) \<and>
     (used_map_end (user_pool st) \<le> unat (base (kernel_pool st)) \<or>
      unat (base (kernel_pool st)) + 4096 * length ks \<le> unat (used_map_at (user_pool st)))"

definition page_at :: "pool \<Rightarrow> nat \<Rightarrow> addr" where
  "page_at p i = base p + 4096 * of_nat i"

text \<open>The used pages of a state, as a set of addresses.\<close>

definition used_pages :: "pool \<Rightarrow> bool list \<Rightarrow> addr set" where
  "used_pages p xs = page_at p ` {i. i < length xs \<and> xs ! i}"

lemma unat_page_at:
  assumes "pool_rep p xs" "i < length xs"
  shows "unat (page_at p i) = unat (base p) + 4096 * i" "unat (pg_no (page_at p i)) = unat (pg_no (base p)) + i"
    "pg_ofs (page_at p i) = 0" "is_kernel_vaddr (page_at p i)" "page_at p i \<noteq> 0"
proof -
  have b: "unat (base p) + 4096 * length xs \<le> 2 ^ 32" "4096 dvd unat (base p)" "0xc0000000 \<le> unat (base p)"
    using assms(1) by (auto simp: pool_rep_def pg_ofs_0 is_kernel_vaddr_def PHYS_BASE_def word_le_nat_alt)
  have i: "4096 * i < 2 ^ 32" using b assms(2) by simp
  have "unat (4096 * of_nat i :: addr) = 4096 * i"
    using i by (simp add: unat_word_ariths unat_of_nat take_bit_eq_mod)
  then show u: "unat (page_at p i) = unat (base p) + 4096 * i"
    using b assms(2) by (simp add: page_at_def unat_word_ariths)
  show "unat (pg_no (page_at p i)) = unat (pg_no (base p)) + i" by (simp add: unat_pg_no u)
  show "pg_ofs (page_at p i) = 0" using b(2) by (simp add: pg_ofs_0 u)
  show "is_kernel_vaddr (page_at p i)" using b(3) by (simp add: is_kernel_vaddr_def PHYS_BASE_def word_le_nat_alt u)
  show "page_at p i \<noteq> 0" using b(3) u by (auto simp: word_unat_eq_iff)
qed

lemma page_from_pool_at:
  assumes "pool_rep p xs" "i < length xs"
  shows "page_from_pool p (page_at p i)" "unat (pg_no (page_at p i) - pg_no (base p)) = i"
proof -
  have len: "unat (bitmap_size (used_map p)) = length xs"
    using assms(1) rep_length by (auto simp: pool_rep_def bitmap_size_def)
  have "unat (base p) div 4096 + length xs \<le> 2 ^ 20" using assms(1) by (auto simp: pool_rep_def)
  then have e: "unat (pg_no (base p) + bitmap_size (used_map p)) = unat (pg_no (base p)) + length xs"
    by (simp add: unat_word_ariths len unat_pg_no)
  then show "page_from_pool p (page_at p i)"
    using unat_page_at(2) [OF assms] assms(2)
    by (simp add: page_from_pool_def Let_def word_le_nat_alt word_less_nat_alt)
  show "unat (pg_no (page_at p i) - pg_no (base p)) = i"
    using unat_page_at(2) [OF assms] by (simp add: unat_sub word_le_nat_alt)
qed

section \<open>Allocation and release\<close>

definition pool_bits :: "u32 \<Rightarrow> bool list \<Rightarrow> bool list \<Rightarrow> bool list" where
  "pool_bits flags ks us = (if flags AND PAL_USER \<noteq> 0 then us else ks)"

definition palloc_rep_upd :: "u32 \<Rightarrow> palloc \<Rightarrow> bool list \<Rightarrow> bool list \<Rightarrow> bool list \<Rightarrow> bool" where
  "palloc_rep_upd flags st ks us ys \<longleftrightarrow>
     (if flags AND PAL_USER \<noteq> 0 then palloc_rep st ks ys else palloc_rep st ys us)"

lemma the_pool_rep: "palloc_rep st ks us \<Longrightarrow> pool_rep (the_pool flags st) (pool_bits flags ks us)"
  by (simp add: palloc_rep_def the_pool_def pool_bits_def)

lemma set_pool_rep:
  assumes "palloc_rep st ks us" "bitmap_rep b ys" "length ys = length (pool_bits flags ks us)"
  shows "palloc_rep_upd flags (set_pool flags ((the_pool flags st)\<lparr>used_map := b\<rparr>) st) ks us ys"
proof -
  have "bitmap_rep (used_map (the_pool flags st)) (pool_bits flags ks us)"
    using the_pool_rep [OF assms(1)] by (simp add: pool_rep_def)
  then have "bit_cnt b = bit_cnt (used_map (the_pool flags st))"
    using rep_length [OF assms(2)] rep_length assms(3) by (simp add: word_unat_eq_iff)
  with assms show ?thesis
    by (auto simp: palloc_rep_def palloc_rep_upd_def set_pool_def the_pool_def pool_bits_def pool_rep_def
        used_map_end_def split: if_splits)
qed

lemma mem_palloc_rep [simp]:
  "palloc_rep (st\<lparr>mem := m\<rparr>) ks us = palloc_rep st ks us"
  "palloc_rep_upd flags (st\<lparr>mem := m\<rparr>) ks us ys = palloc_rep_upd flags st ks us ys"
  by (simp_all add: palloc_rep_def palloc_rep_upd_def)

lemma set_pool_simps [simp]:
  "mem (set_pool flags p st) = mem st" "the_pool flags (set_pool flags p st) = p"
  "set_pool flags (the_pool flags st) st = st" "the_pool flags (st\<lparr>mem := m\<rparr>) = the_pool flags st"
  "set_pool flags q (set_pool flags p st) = set_pool flags q st"
  "set_pool flags p (st\<lparr>mem := m\<rparr>) = (set_pool flags p st)\<lparr>mem := m\<rparr>"
  "(set_pool flags p st)\<lparr>mem := mem st\<rparr> = set_pool flags p st"
  by (simp_all add: set_pool_def the_pool_def)

lemma get_multiple_cases:
  assumes rep: "palloc_rep st ks us" and cnt: "cnt \<noteq> 0"
  obtains (found) i b st' where "i + unat cnt \<le> length (pool_bits flags ks us)"
      "run_at (pool_bits flags ks us) (unat cnt) False i"
      "bitmap_scan_and_flip (used_map (the_pool flags st)) 0 cnt False = Some (of_nat i, b)"
      "of_nat i \<noteq> BITMAP_ERROR"
      "palloc_get_multiple flags cnt st = Some (page_at (the_pool flags st) i, st')"
      "palloc_rep_upd flags st' ks us (fill_range (pool_bits flags ks us) i (unat cnt) True)"
      "st' = (set_pool flags ((the_pool flags st)\<lparr>used_map := b\<rparr>) st)\<lparr>mem :=
         if flags AND PAL_ZERO \<noteq> 0
         then memset_words (page_at (the_pool flags st) i) 0 (4096 * cnt) (mem st) else mem st\<rparr>"
      "\<And>j. j < i \<Longrightarrow> \<not> run_at (pool_bits flags ks us) (unat cnt) False j"
  | (full) "\<And>i. i + unat cnt \<le> length (pool_bits flags ks us) \<Longrightarrow>
        \<not> run_at (pool_bits flags ks us) (unat cnt) False i"
      "palloc_get_multiple flags cnt st = (if flags AND PAL_ASSERT = 0 then Some (0, st) else None)"
proof -
  let ?p = "the_pool flags st" and ?xs = "pool_bits flags ks us"
  have p: "pool_rep ?p ?xs" using rep by (rule the_pool_rep)
  then have br: "bitmap_rep (used_map ?p) ?xs" by (simp add: pool_rep_def)
  show thesis
  proof (cases rule: bm.alloc_cases [OF br cnt])
    case (1 idx b)
    have "0 < unat cnt" using cnt by (simp add: unat_gt_0)
    then have i: "unat idx < length ?xs" using 1(3) by linarith
    have at: "base ?p + 4096 * idx = page_at ?p (unat idx)" by (simp add: page_at_def)
    let ?st = "(set_pool flags (?p\<lparr>used_map := b\<rparr>) st)\<lparr>mem :=
         if flags AND PAL_ZERO \<noteq> 0 then memset_words (page_at ?p (unat idx)) 0 (4096 * cnt) (mem st) else mem st\<rparr>"
    have "palloc_rep_upd flags ?st ks us (fill_range ?xs (unat idx) (unat cnt) True)"
      using set_pool_rep [OF rep 1(5)] by simp
    moreover have "palloc_get_multiple flags cnt st = Some (page_at ?p (unat idx), ?st)"
      using 1(1,2) cnt at unat_page_at(5) [OF p i] by (simp add: palloc_get_multiple_def Let_def)
    ultimately show thesis using 1(1-4,6) by (intro found [of "unat idx" b ?st]) simp_all
  next
    case 2
    then show thesis using cnt by (intro full) (simp_all add: palloc_get_multiple_def)
  qed
qed

lemma not_from_kernel_pool:
  assumes "palloc_rep st ks us" "i < length us"
  shows "\<not> page_from_pool (kernel_pool st) (page_at (user_pool st) i)"
proof -
  let ?k = "kernel_pool st" and ?u = "user_pool st"
  have r: "pool_rep ?k ks" "pool_rep ?u us" "unat (base ?k) + 4096 * length ks \<le> unat (base ?u)"
    using assms(1) by (auto simp: palloc_rep_def)
  have len: "unat (bitmap_size (used_map ?k)) = length ks"
    using r(1) rep_length by (auto simp: pool_rep_def bitmap_size_def)
  have d: "4096 dvd unat (base ?k)" "4096 dvd unat (base ?u)" using r by (auto simp: pool_rep_def pg_ofs_0)
  then have le: "unat (pg_no (base ?k)) + length ks \<le> unat (pg_no (base ?u))"
    using r(3) by (auto simp: unat_pg_no elim!: dvdE)
  then have "unat (pg_no (base ?k) + bitmap_size (used_map ?k)) = unat (pg_no (base ?k)) + length ks"
    using len by (subst unat_add_le [of _ _ "pg_no (base ?u)"]) simp_all
  then show ?thesis
    using unat_page_at(2) [OF r(2) assms(2)] le
    by (simp add: page_from_pool_def Let_def word_less_nat_alt)
qed

lemma free_multiple_at:
  assumes rep: "palloc_rep st ks us" and cnt: "cnt \<noteq> 0"
    and i: "i + unat cnt \<le> length (pool_bits flags ks us)" "run_at (pool_bits flags ks us) (unat cnt) True i"
  obtains st' where "palloc_free_multiple (page_at (the_pool flags st) i) cnt st = Some st'"
    "palloc_rep_upd flags st' ks us (fill_range (pool_bits flags ks us) i (unat cnt) False)"
    "base (kernel_pool st') = base (kernel_pool st)" "base (user_pool st') = base (user_pool st)"
    "mem st' = memset_words (page_at (the_pool flags st) i) 0xcccccccc (4096 * cnt) (mem st)"
proof -
  let ?p = "the_pool flags st" and ?xs = "pool_bits flags ks us"
  have p: "pool_rep ?p ?xs" using rep by (rule the_pool_rep)
  then have br: "bitmap_rep (used_map ?p) ?xs" by (simp add: pool_rep_def)
  have "0 < unat cnt" using cnt by (simp add: unat_gt_0)
  then have il: "i < length ?xs" using i(1) by linarith
  define idx where "idx = pg_no (page_at ?p i) - pg_no (base ?p)"
  have idx: "unat idx = i" using page_from_pool_at(2) [OF p il] by (simp add: idx_def)
  have all: "bitmap_all (used_map ?p) idx cnt = Some True"
    using bm.all_spec [OF br, of idx cnt] i idx by simp
  obtain b where b: "bitmap_set_multiple (used_map ?p) idx cnt False = Some b"
      "bitmap_rep b (fill_range ?xs i (unat cnt) False)"
    using bm.set_spec [OF br, of idx cnt False] i(1) idx by auto
  define fl where "fl = (if flags AND PAL_USER \<noteq> 0 then PAL_USER else 0)"
  have fl: "the_pool fl = the_pool flags" "set_pool fl = set_pool flags"
    by (auto simp: fl_def the_pool_def set_pool_def PAL_USER_def fun_eq_iff)
  have which: "(if page_from_pool (kernel_pool st) (page_at ?p i) then Some 0
      else if page_from_pool (user_pool st) (page_at ?p i) then Some PAL_USER else None) = Some fl"
    using page_from_pool_at(1) [OF p il] not_from_kernel_pool [OF rep, of i] il
    by (auto simp: the_pool_def fl_def pool_bits_def split: if_splits)
  let ?st = "(set_pool flags (?p\<lparr>used_map := b\<rparr>) st)\<lparr>mem := memset_words (page_at ?p i) 0xcccccccc (4096 * cnt) (mem st)\<rparr>"
  have "palloc_free_multiple (page_at ?p i) cnt st = Some ?st"
    using which unat_page_at(3,5) [OF p il] cnt all b(1) fl
    by (simp add: palloc_free_multiple_def idx_def Let_def)
  moreover have "palloc_rep_upd flags ?st ks us (fill_range ?xs i (unat cnt) False)"
    using set_pool_rep [OF rep b(2)] by simp
  ultimately show thesis by (rule that) (simp_all add: set_pool_def the_pool_def)
qed

lemma block_addresses:
  assumes "pool_rep p xs" "i + unat cnt \<le> length xs" "cnt \<noteq> 0"
  shows "a - page_at p i < 4096 * cnt \<longleftrightarrow>
    unat (page_at p i) \<le> unat a \<and> unat a < unat (page_at p i) + 4096 * unat cnt"
proof -
  have "0 < unat cnt" using assms(3) by (simp add: unat_gt_0)
  then have il: "i < length xs" using assms(2) by linarith
  have b: "unat (base p) + 4096 * length xs \<le> 2 ^ 32" "0xc0000000 \<le> unat (base p)"
    using assms(1) by (auto simp: pool_rep_def is_kernel_vaddr_def PHYS_BASE_def word_le_nat_alt)
  have u: "unat (page_at p i) = unat (base p) + 4096 * i" by (rule unat_page_at(1) [OF assms(1) il])
  have c: "unat (4096 * cnt) = 4096 * unat cnt" using b assms(2) by (simp add: unat_word_ariths)
  have e: "unat (page_at p i) + 4096 * unat cnt \<le> 2 ^ 32" using b assms(2) u by simp
  show ?thesis
  proof (cases "page_at p i \<le> a")
    case True
    then show ?thesis using c by (simp add: word_less_nat_alt unat_sub word_le_nat_alt) linarith
  next
    case False
    then have "unat (a - page_at p i) = 2 ^ 32 + unat a - unat (page_at p i)"
      by (simp add: unat_sub_if' word_le_nat_alt word_size)
    with False show ?thesis using c e by (simp add: word_less_nat_alt word_le_nat_alt)
  qed
qed

section \<open>The page contract\<close>

text \<open>
  Clients of single pages see the allocator as a set of used pages: the locale states what they
  rely on and derives that a list of distinct used pages can be released one after the other.
\<close>

locale page_allocator =
  fixes ok :: "'s \<Rightarrow> bool" and used :: "'s \<Rightarrow> addr set" and memory :: "'s \<Rightarrow> addr \<Rightarrow> u32"
    and wr :: "(addr \<Rightarrow> u32) \<Rightarrow> 's \<Rightarrow> 's"
    and get :: "u32 \<Rightarrow> 's \<Rightarrow> (addr \<times> 's) option" and free :: "addr \<Rightarrow> 's \<Rightarrow> 's option"
  assumes used_page: "ok st \<Longrightarrow> p \<in> used st \<Longrightarrow>
      pg_ofs p = 0 \<and> is_kernel_vaddr p \<and> unat p + 4096 < 2 ^ 32"
    and get_page: "ok st \<Longrightarrow> flags AND PAL_ASSERT = 0 \<Longrightarrow>
      get flags st = Some (0, st) \<or>
      (\<exists>p st'. get flags st = Some (p, st') \<and> p \<noteq> 0 \<and> ok st' \<and> p \<notin> used st \<and> used st' = insert p (used st) \<and>
         (\<forall>a. memory st' a = (if flags AND PAL_ZERO \<noteq> 0 \<and> pg_round_down a = p then 0 else memory st a)))"
    and free_page: "ok st \<Longrightarrow> p \<in> used st \<Longrightarrow>
      \<exists>st'. free p st = Some st' \<and> ok st' \<and> used st' = used st - {p} \<and>
        (\<forall>a. pg_round_down a \<noteq> p \<longrightarrow> memory st' a = memory st a)"
    and wr [simp]: "memory (wr m st) = m" "ok (wr m st) = ok st" "used (wr m st) = used st"
begin

lemma free_list:
  "ok st \<Longrightarrow> set ps \<subseteq> used st \<Longrightarrow> distinct ps \<Longrightarrow>
   \<exists>st'. fold_opt free ps st = Some st' \<and> ok st' \<and> used st' = used st - set ps \<and>
     (\<forall>a. pg_round_down a \<notin> set ps \<longrightarrow> memory st' a = memory st a)"
proof (induction ps arbitrary: st)
  case (Cons p ps)
  then obtain st1 where st1: "free p st = Some st1" "ok st1" "used st1 = used st - {p}"
      "\<And>a. pg_round_down a \<noteq> p \<Longrightarrow> memory st1 a = memory st a"
    using free_page [of st p] by auto
  moreover have "set ps \<subseteq> used st1" "distinct ps" using Cons.prems st1(3) by auto
  ultimately obtain st2 where "fold_opt free ps st1 = Some st2" "ok st2" "used st2 = used st1 - set ps"
      "\<And>a. pg_round_down a \<notin> set ps \<Longrightarrow> memory st2 a = memory st1 a"
    using Cons.IH [of st1] by auto
  with st1 show ?case by auto
qed simp

end

definition palloc_ok :: "palloc \<Rightarrow> bool" where
  "palloc_ok st \<longleftrightarrow> palloc_rep st (bits_of (used_map (kernel_pool st))) (bits_of (used_map (user_pool st)))"

definition palloc_used :: "palloc \<Rightarrow> addr set" where
  "palloc_used st = used_pages (kernel_pool st) (bits_of (used_map (kernel_pool st))) \<union>
     used_pages (user_pool st) (bits_of (used_map (user_pool st)))"

lemma palloc_rep_bits:
  "palloc_rep st ks us \<longleftrightarrow>
    palloc_ok st \<and> ks = bits_of (used_map (kernel_pool st)) \<and> us = bits_of (used_map (user_pool st))"
  by (auto simp: palloc_ok_def palloc_rep_def pool_rep_def bitmap_rep_def)

lemma page_at_inj:
  assumes "pool_rep p xs" "i < length xs" "j < length xs"
  shows "page_at p i = page_at p j \<longleftrightarrow> i = j"
  using unat_page_at(1) [OF assms(1,2)] unat_page_at(1) [OF assms(1,3)] by (simp add: word_unat_eq_iff)

lemma pages_disjoint:
  assumes "palloc_rep st ks us" "i < length ks" "j < length us"
  shows "page_at (kernel_pool st) i \<noteq> page_at (user_pool st) j"
  using not_from_kernel_pool [OF assms(1,3)] page_from_pool_at(1) [of "kernel_pool st" ks i] assms
  by (auto simp: palloc_rep_def)

lemma fill_range_1: "i < length xs \<Longrightarrow> fill_range xs i 1 v = xs[i := v]"
  by (rule nth_equalityI) (auto simp: nth_list_update)

lemma used_pages_upd:
  assumes "pool_rep p xs" "i < length xs"
  shows "used_pages p (xs[i := v]) =
    (if v then insert (page_at p i) (used_pages p xs) else used_pages p xs - {page_at p i})"
proof -
  have "page_at p j \<noteq> page_at p i" if "j < length xs" "j \<noteq> i" for j
    using page_at_inj [OF assms(1) that(1) assms(2)] that(2) by simp
  then show ?thesis using assms(2) by (auto simp: used_pages_def nth_list_update)
qed

lemma used_pages_base: "base q = base p \<Longrightarrow> used_pages q xs = used_pages p xs"
  by (simp add: used_pages_def page_at_def cong: image_cong)

lemma used_upd:
  assumes rep: "palloc_rep st ks us" and i: "i < length (pool_bits flags ks us)"
    and rep': "palloc_rep_upd flags st' ks us (fill_range (pool_bits flags ks us) i 1 v)"
    and bs: "base (kernel_pool st') = base (kernel_pool st)" "base (user_pool st') = base (user_pool st)"
  shows "palloc_ok st'"
    "palloc_used st' = (if v then insert (page_at (the_pool flags st) i) (palloc_used st)
       else palloc_used st - {page_at (the_pool flags st) i})"
proof -
  show "palloc_ok st'" using rep' by (auto simp: palloc_rep_upd_def palloc_rep_bits split: if_splits)
  have eq: "used_pages (kernel_pool st') = used_pages (kernel_pool st)"
    "used_pages (user_pool st') = used_pages (user_pool st)"
    using used_pages_base [OF bs(1)] used_pages_base [OF bs(2)] by (simp_all add: fun_eq_iff)
  have k: "pool_rep (kernel_pool st) ks" "pool_rep (user_pool st) us" using rep by (auto simp: palloc_rep_def)
  have u: "palloc_used st = used_pages (kernel_pool st) ks \<union> used_pages (user_pool st) us"
    using rep by (auto simp: palloc_used_def palloc_rep_bits)
  show "palloc_used st' = (if v then insert (page_at (the_pool flags st) i) (palloc_used st)
       else palloc_used st - {page_at (the_pool flags st) i})"
  proof (cases "flags AND PAL_USER \<noteq> 0")
    case True
    then have "palloc_used st' = used_pages (kernel_pool st) ks \<union> used_pages (user_pool st) (us[i := v])"
      and il: "i < length us"
      using rep' i fill_range_1 [of i us v]
      by (auto simp: palloc_rep_upd_def palloc_rep_bits palloc_used_def eq pool_bits_def)
    moreover have "page_at (user_pool st) i \<notin> used_pages (kernel_pool st) ks"
      using pages_disjoint [OF rep _ il] by (force simp: used_pages_def)
    ultimately show ?thesis using True used_pages_upd [OF k(2) il, of v] u by (auto simp: the_pool_def)
  next
    case False
    then have "palloc_used st' = used_pages (kernel_pool st) (ks[i := v]) \<union> used_pages (user_pool st) us"
      and il: "i < length ks"
      using rep' i fill_range_1 [of i ks v]
      by (auto simp: palloc_rep_upd_def palloc_rep_bits palloc_used_def eq pool_bits_def)
    moreover have "page_at (kernel_pool st) i \<notin> used_pages (user_pool st) us"
      using pages_disjoint [OF rep il] by (force simp: used_pages_def)
    ultimately show ?thesis using False used_pages_upd [OF k(1) il, of v] u by (auto simp: the_pool_def)
  qed
qed

lemma one_page_addresses:
  assumes "pool_rep p xs" "i < length xs"
  shows "a - page_at p i < 4096 \<longleftrightarrow> pg_round_down a = page_at p i"
proof -
  obtain k where k: "unat (page_at p i) = 4096 * k"
    using unat_page_at(3) [OF assms] by (auto simp: pg_ofs_0 elim: dvdE)
  have "a - page_at p i < 4096 \<longleftrightarrow> unat a div 4096 = k"
    using block_addresses [OF assms(1), of i 1 a] assms(2) k by auto
  then show ?thesis by (auto simp: word_unat_eq_iff unat_round_down k)
qed

lemma get_page_contract:
  assumes "palloc_ok st" "flags AND PAL_ASSERT = 0"
  shows "palloc_get_page flags st = Some (0, st) \<or>
    (\<exists>p st'. palloc_get_page flags st = Some (p, st') \<and> p \<noteq> 0 \<and> palloc_ok st' \<and> p \<notin> palloc_used st \<and>
       palloc_used st' = insert p (palloc_used st) \<and>
       (\<forall>a. mem st' a = (if flags AND PAL_ZERO \<noteq> 0 \<and> pg_round_down a = p then 0 else mem st a)))"
proof -
  define ks us where "ks = bits_of (used_map (kernel_pool st))" and "us = bits_of (used_map (user_pool st))"
  have rep: "palloc_rep st ks us" using assms(1) by (simp add: palloc_ok_def ks_def us_def)
  show ?thesis
  proof (cases rule: get_multiple_cases [OF rep, of 1 flags])
    case (2 i b st')
    let ?p = "the_pool flags st" and ?xs = "pool_bits flags ks us"
    have p: "pool_rep ?p ?xs" using rep by (rule the_pool_rep)
    have il: "i < length ?xs" using 2(1) by simp
    have free: "\<not> ?xs ! i" using 2(2) il by (simp add: run_at_nth)
    have bs: "base (kernel_pool st') = base (kernel_pool st)" "base (user_pool st') = base (user_pool st)"
      using 2(7) by (simp_all add: set_pool_def the_pool_def)
    have "page_at ?p i \<notin> palloc_used st"
      using free il page_at_inj [OF p _ il] pages_disjoint [OF rep]
      by (force simp: palloc_used_def used_pages_def the_pool_def pool_bits_def ks_def us_def split: if_splits)
    moreover have "mem st' a = (if flags AND PAL_ZERO \<noteq> 0 \<and> pg_round_down a = page_at ?p i then 0 else mem st a)" for a
      using one_page_addresses [OF p il, of a] by (simp add: 2(7) memset_words_def)
    ultimately show ?thesis
      using 2(5,6) used_upd [OF rep il _ bs, of True] unat_page_at(5) [OF p il]
      by (simp add: palloc_get_page_def)
  next
    case 3
    then show ?thesis using assms(2) by (simp add: palloc_get_page_def)
  qed simp
qed

lemma used_page_cases:
  assumes "palloc_ok st" "p \<in> palloc_used st"
  obtains flags ks us i where "palloc_rep st ks us" "i < length (pool_bits flags ks us)"
    "pool_bits flags ks us ! i" "p = page_at (the_pool flags st) i"
proof -
  define ks us where "ks = bits_of (used_map (kernel_pool st))" and "us = bits_of (used_map (user_pool st))"
  have rep: "palloc_rep st ks us" using assms(1) by (simp add: palloc_ok_def ks_def us_def)
  have "p \<in> used_pages (kernel_pool st) ks \<or> p \<in> used_pages (user_pool st) us"
    using assms(2) by (simp add: palloc_used_def ks_def us_def)
  then show thesis
  proof
    assume "p \<in> used_pages (kernel_pool st) ks"
    then show thesis using that [OF rep, of _ 0] by (auto simp: used_pages_def pool_bits_def the_pool_def)
  next
    assume "p \<in> used_pages (user_pool st) us"
    then show thesis using that [OF rep, of _ PAL_USER]
      by (auto simp: used_pages_def pool_bits_def the_pool_def PAL_USER_def)
  qed
qed

lemma free_page_contract:
  assumes "palloc_ok st" "p \<in> palloc_used st"
  shows "\<exists>st'. palloc_free_page p st = Some st' \<and> palloc_ok st' \<and> palloc_used st' = palloc_used st - {p} \<and>
    (\<forall>a. pg_round_down a \<noteq> p \<longrightarrow> mem st' a = mem st a)"
proof (rule used_page_cases [OF assms])
  fix flags ks us i
  assume rep: "palloc_rep st ks us" and i: "i < length (pool_bits flags ks us)" "pool_bits flags ks us ! i"
    and p: "p = page_at (the_pool flags st) i"
  have run: "i + unat (1::size_t) \<le> length (pool_bits flags ks us)" "run_at (pool_bits flags ks us) (unat (1::size_t)) True i"
    using i by (simp_all add: run_at_nth)
  obtain st' where st': "palloc_free_multiple p 1 st = Some st'"
      "palloc_rep_upd flags st' ks us (fill_range (pool_bits flags ks us) i (unat (1::size_t)) False)"
      "base (kernel_pool st') = base (kernel_pool st)" "base (user_pool st') = base (user_pool st)"
      "mem st' = memset_words p 0xcccccccc (4096 * 1) (mem st)"
    unfolding p by (rule free_multiple_at [OF rep _ run]) simp
  then show ?thesis
    using used_upd [OF rep i(1) _ st'(3,4), of False] one_page_addresses [OF the_pool_rep [OF rep] i(1)] p
    by (simp add: palloc_free_page_def memset_words_def)
qed

lemma used_page_facts:
  assumes "palloc_ok st" "p \<in> palloc_used st"
  shows "pg_ofs p = 0 \<and> is_kernel_vaddr p \<and> unat p + 4096 < 2 ^ 32"
proof (rule used_page_cases [OF assms])
  fix flags ks us i
  assume rep: "palloc_rep st ks us" and i: "i < length (pool_bits flags ks us)"
    and p: "p = page_at (the_pool flags st) i"
  note r = the_pool_rep [OF rep, of flags]
  have "unat p + 4096 < 2 ^ 32" using r unat_page_at(1) [OF r i] i by (simp add: p pool_rep_def)
  with unat_page_at(3,4) [OF r i] show ?thesis by (simp add: p)
qed

interpretation pal: page_allocator palloc_ok palloc_used mem "\<lambda>m st. st\<lparr>mem := m\<rparr>" palloc_get_page palloc_free_page
  by unfold_locales
    ((rule used_page_facts get_page_contract free_page_contract, assumption+)+,
     simp_all add: palloc_used_def palloc_ok_def)

text \<open>
  With every page of the user pool in use, releasing one of them and asking for a zeroed page gives
  the same page back.
\<close>

lemma free_then_get:
  assumes rep: "palloc_rep st ks us" and full: "False \<notin> set us" and i: "i < length us"
  defines "k \<equiv> page_at (user_pool st) i"
  obtains st1 st2 where "palloc_free_page k st = Some st1"
    "palloc_get_page (PAL_USER OR PAL_ZERO) st1 = Some (k, st2)" "palloc_rep st2 ks us"
    "base (kernel_pool st2) = base (kernel_pool st)" "base (user_pool st2) = base (user_pool st)"
    "\<And>a. mem st2 a = (if pg_round_down a = k then 0 else mem st a)"
proof -
  let ?f = "PAL_USER OR PAL_ZERO"
  have f: "?f AND PAL_USER \<noteq> 0" "?f AND PAL_ZERO \<noteq> 0" by (simp_all add: PAL_USER_def PAL_ZERO_def)
  then have pu [simp]: "the_pool ?f st = user_pool st" "pool_bits ?f ks us = us" for st us
    by (simp_all add: the_pool_def pool_bits_def)
  have all: "us ! j" if "j < length us" for j using full nth_mem [OF that] by (cases "us ! j") auto
  have run: "i + unat (1::size_t) \<le> length (pool_bits ?f ks us)" "run_at (pool_bits ?f ks us) (unat (1::size_t)) True i"
    using i all by (simp_all add: run_at_nth)
  have one: "(1::size_t) \<noteq> 0" by simp
  obtain st1 where free: "palloc_free_multiple (page_at (the_pool ?f st) i) 1 st = Some st1"
      "palloc_rep_upd ?f st1 ks us (fill_range (pool_bits ?f ks us) i (unat (1::size_t)) False)"
      "base (kernel_pool st1) = base (kernel_pool st)" "base (user_pool st1) = base (user_pool st)"
      "mem st1 = memset_words (page_at (the_pool ?f st) i) 0xcccccccc (4096 * 1) (mem st)"
    by (rule free_multiple_at [OF rep one run])
  then have st1: "palloc_free_multiple k 1 st = Some st1" "palloc_rep st1 ks (us[i := False])"
      "base (kernel_pool st1) = base (kernel_pool st)" "base (user_pool st1) = base (user_pool st)"
      "mem st1 = memset_words k 0xcccccccc 4096 (mem st)"
    using fill_range_1 [OF i] f(1) by (simp_all add: palloc_rep_upd_def k_def)
  have at: "page_at (user_pool st1) j = page_at (user_pool st) j" for j using st1(4) by (simp add: page_at_def)
  have block: "a - k < 4096 \<longleftrightarrow> pg_round_down a = k" for a
    using one_page_addresses [OF the_pool_rep [OF rep, of ?f]] i by (simp add: k_def)
  show thesis
  proof (cases rule: get_multiple_cases [OF st1(2), of 1 ?f])
    case (2 j b st2)
    then have "\<not> us[i := False] ! j" "j < length us" by (simp_all add: run_at_nth)
    then have j: "j = i" using all [of j] by (cases "j = i") simp_all
    have "us[i := True] = us" using all i by (intro list_update_same_conv [THEN iffD2]) simp_all
    then have "palloc_rep st2 ks us" using 2(6) f i j fill_range_1 [of i "us[i := False]" True] by (simp add: palloc_rep_upd_def)
    moreover have "base (kernel_pool st2) = base (kernel_pool st)" "base (user_pool st2) = base (user_pool st)"
      using 2(7) st1(3,4) f by (simp_all add: set_pool_def)
    moreover have "mem st2 a = (if pg_round_down a = k then 0 else mem st a)" for a
      using 2(7) f st1(5) at j block by (simp add: memset_words_def k_def)
    ultimately show thesis using that [of st1 st2] st1(1) 2(5) at j
      by (simp add: palloc_free_page_def palloc_get_page_def k_def)
  next
    case 3
    with 3(1) [of i] i show thesis by (simp add: run_at_nth)
  qed simp
qed

lemma no_kernel_page:
  assumes "palloc_ok st" "palloc_get_page PAL_ZERO st = Some (0, st')"
  shows "False \<notin> set (bits_of (used_map (kernel_pool st)))"
proof -
  let ?ks = "bits_of (used_map (kernel_pool st))" and ?us = "bits_of (used_map (user_pool st))"
  have rep: "palloc_rep st ?ks ?us" using assms(1) by (simp add: palloc_ok_def)
  have b: "pool_bits PAL_ZERO ?ks ?us = ?ks" by (simp add: pool_bits_def PAL_ZERO_def PAL_USER_def)
  have p: "pool_rep (the_pool PAL_ZERO st) (pool_bits PAL_ZERO ?ks ?us)" using rep by (rule the_pool_rep)
  show ?thesis
  proof (cases rule: get_multiple_cases [OF rep, of 1 PAL_ZERO])
    case (2 i b st')
    then have "page_at (the_pool PAL_ZERO st) i \<noteq> 0" by (intro unat_page_at(5) [OF p]) simp
    with 2(5) assms(2) show ?thesis by (simp add: palloc_get_page_def)
  next
    case 3
    show ?thesis
    proof
      assume "False \<in> set ?ks"
      then obtain i where "i < length ?ks" "\<not> ?ks ! i" by (auto simp: in_set_conv_nth)
      with 3(1) [of i] b show False by (simp add: run_at_nth)
    qed
  qed simp
qed

section \<open>Initialisation\<close>

lemma unat_buf_size:
  assumes "unat n < 2 ^ 18"
  shows "unat (bitmap_buf_size n) = 8 + 4 * ((unat n + 31) div 32)"
  using assms unat_elem_cnt [of n] by (simp add: bitmap_buf_size_def unat_word_ariths)

text \<open>The number of pages that the bitmap of a pool of \<open>n\<close> pages takes.\<close>

definition map_pages :: "nat \<Rightarrow> nat" where
  "map_pages n = (8 + 4 * ((n + 31) div 32) + 4095) div 4096"

lemma init_pool_rep:
  assumes cnt: "0 < unat n" "unat n < 2 ^ 18" and bs: "pg_ofs bs = 0" "is_kernel_vaddr bs"
    and fit: "unat bs + 4096 * unat n < 2 ^ 32"
  obtains p where "init_pool m bs n = Some p" "used_map_at p = bs"
    "unat (base p) = unat bs + 4096 * map_pages (unat n)"
    "unat (bit_cnt (used_map p)) + map_pages (unat n) = unat n"
    "pool_rep p (replicate (unat (bit_cnt (used_map p))) False)"
proof -
  define k where "k = DIV_ROUND_UP (bitmap_buf_size n) 4096"
  define w where "w = 8 + 4 * ((unat n + 31) div 32)"
  have w: "unat (bitmap_buf_size n) = w" "w \<le> 4096 * unat n" "w < 2 ^ 17"
    using cnt unat_buf_size [OF cnt(2)] by (auto simp: w_def)
  have k: "unat k = map_pages (unat n)"
    using w by (simp add: k_def DIV_ROUND_UP_def unat_div unat_word_ariths map_pages_def w_def)
  then have kn: "unat k \<le> unat n" "w \<le> 4096 * unat k" using w by (auto simp: map_pages_def w_def)
  have m: "unat (n - k) = unat n - unat k" using kn by (simp add: unat_sub word_le_nat_alt)
  have k4: "unat (k * 4096) = 4096 * unat k" using kn cnt by (simp add: unat_word_ariths mult.commute)
  have buf: "unat (bitmap_buf_size (n - k)) \<le> w" using m cnt unat_buf_size [of "n - k"] by (simp add: w_def)
  then have "bitmap_buf_size (n - k) \<le> k * 4096" using kn(2) k4 by (simp add: word_le_nat_alt)
  moreover have "unat (elem_cnt (n - k)) \<le> length (words_at m (bs + 8) (unat (k * 4096) div 4 - 2))"
    using unat_elem_cnt(1) [of "n - k"] m cnt kn(2) k4 by (simp add: words_at_def w_def)
  moreover have "unat (n - k) + 31 < 2 ^ 32" using m cnt by simp
  ultimately obtain b where b: "bitmap_create_in_buf (n - k) (words_at m (bs + 8) (unat (k * 4096) div 4 - 2)) (k * 4096) = Some b"
      "bitmap_rep b (replicate (unat (n - k)) False)"
    using bitmap_create_in_buf_rep by blast
  have c: "unat (bit_cnt b) = unat n - unat k" using rep_length [OF b(2)] m by simp
  then have "bit_cnt b = n - k" using m by (simp add: word_unat_eq_iff)
  have base: "unat (bs + k * 4096) = unat bs + 4096 * unat k"
    using k4 fit kn(1) by (simp add: unat_word_ariths)
  let ?p = "\<lparr>used_map = b, used_map_at = bs, base = bs + k * 4096\<rparr>"
  have "init_pool m bs n = Some ?p"
    using kn(1) b(1) by (simp add: init_pool_def Let_def k_def word_less_nat_alt not_less)
  moreover have "used_map_end ?p \<le> unat (base ?p)"
    using buf kn(2) base \<open>bit_cnt b = n - k\<close> by (simp add: used_map_end_def)
  then have "pool_rep ?p (replicate (unat n - unat k) False)"
    using b(2) m base bs fit kn(1)
    by (simp add: pool_rep_def pg_ofs_0 is_kernel_vaddr_def word_le_nat_alt)
  ultimately show thesis using that [of ?p] base c kn(1) k by simp
qed

lemma empty_pools:
  assumes "pool_rep (kernel_pool st) (replicate (unat (bit_cnt (used_map (kernel_pool st)))) False)"
    "pool_rep (user_pool st) (replicate (unat (bit_cnt (used_map (user_pool st)))) False)"
    "unat (base (kernel_pool st)) + 4096 * unat (bit_cnt (used_map (kernel_pool st))) \<le> unat (used_map_at (user_pool st))"
  shows "palloc_ok st" "palloc_used st = {}"
proof -
  have "palloc_rep st (replicate (unat (bit_cnt (used_map (kernel_pool st)))) False)
      (replicate (unat (bit_cnt (used_map (user_pool st)))) False)"
    using assms by (auto simp: palloc_rep_def pool_rep_def used_map_end_def)
  then have "palloc_ok st" and e: "bits_of (used_map (kernel_pool st)) = replicate (unat (bit_cnt (used_map (kernel_pool st)))) False"
      "bits_of (used_map (user_pool st)) = replicate (unat (bit_cnt (used_map (user_pool st)))) False"
    unfolding palloc_rep_bits by simp_all
  then show "palloc_ok st" "palloc_used st = {}" by (auto simp: palloc_used_def used_pages_def)
qed

text \<open>The free pages of a machine, and how they are divided.\<close>

definition total_pages :: "addr \<Rightarrow> size_t \<Rightarrow> nat" where
  "total_pages kernel_end ram_pages = (0xc0000000 + 4096 * unat ram_pages - unat (pg_round_up kernel_end)) div 4096"

definition user_share :: "addr \<Rightarrow> size_t \<Rightarrow> size_t \<Rightarrow> nat" where
  "user_share kernel_end ram_pages user_page_limit =
     min (total_pages kernel_end ram_pages div 2) (unat user_page_limit)"

text \<open>A pool of \<open>n\<close> pages from address \<open>a\<close> on: its bitmap, then its pages, all free.\<close>

definition fresh_pool :: "pool \<Rightarrow> nat \<Rightarrow> nat \<Rightarrow> bool" where
  "fresh_pool p a n \<longleftrightarrow> unat (used_map_at p) = a \<and> unat (base p) = a + 4096 * map_pages n \<and>
     unat (bit_cnt (used_map p)) + map_pages n = n \<and>
     pool_rep p (replicate (unat (bit_cnt (used_map p))) False)"

lemma init_fresh_pool:
  assumes "0 < unat n" "unat n < 2 ^ 18" "pg_ofs bs = 0" "is_kernel_vaddr bs" "unat bs + 4096 * unat n < 2 ^ 32"
  shows "\<exists>p. init_pool m bs n = Some p \<and> fresh_pool p (unat bs) (unat n)"
  using init_pool_rep [OF assms, of m] unfolding fresh_pool_def by metis

lemma free_memory:
  assumes "is_kernel_vaddr kernel_end" "unat ram_pages < 2 ^ 18"
    "unat kernel_end + 3 * 4096 \<le> 0xc0000000 + 4096 * unat ram_pages"
  defines "fs \<equiv> pg_round_up kernel_end" and "fe \<equiv> ram_pages * 4096 + PHYS_BASE"
  shows "ptov (ram_pages * 4096) = Some fe" "unat kernel_end \<le> unat fs" "pg_ofs fs = 0" "is_kernel_vaddr fs"
    "unat fe = 0xc0000000 + 4096 * unat ram_pages" "unat ((fe - fs) div 4096) = total_pages kernel_end ram_pages"
    "2 \<le> total_pages kernel_end ram_pages" "total_pages kernel_end ram_pages < 2 ^ 18"
    "unat fs + 4096 * total_pages kernel_end ram_pages \<le> unat fe"
proof -
  have ke: "0xc0000000 \<le> unat kernel_end"
    using assms(1) by (simp add: is_kernel_vaddr_def PHYS_BASE_def word_le_nat_alt)
  have fs: "unat fs = (unat kernel_end + 4095) div 4096 * 4096"
    unfolding fs_def using assms(2,3) by (intro unat_round_up) simp
  then show fs_le: "unat kernel_end \<le> unat fs" by linarith
  have fs_up: "unat fs \<le> unat kernel_end + 4095" using fs by linarith
  show "pg_ofs fs = 0" "is_kernel_vaddr fs"
    using fs fs_le ke by (simp_all add: pg_ofs_0 is_kernel_vaddr_def PHYS_BASE_def word_le_nat_alt)
  have rp: "unat (ram_pages * 4096) = 4096 * unat ram_pages" using assms(2) by (simp add: unat_word_ariths mult.commute)
  show fe: "unat fe = 0xc0000000 + 4096 * unat ram_pages"
    using assms(2) rp by (simp add: fe_def PHYS_BASE_def unat_word_ariths)
  show "ptov (ram_pages * 4096) = Some fe"
    using rp assms(2) by (simp add: ptov_def fe_def PHYS_BASE_def word_less_nat_alt)
  have d: "unat (fe - fs) = unat fe - unat fs" using fe fs_up assms(3) by (simp add: unat_sub word_le_nat_alt)
  show F: "unat ((fe - fs) div 4096) = total_pages kernel_end ram_pages"
    unfolding total_pages_def fs_def [symmetric] by (simp add: unat_div d fe)
  show "2 \<le> total_pages kernel_end ram_pages" "total_pages kernel_end ram_pages < 2 ^ 18"
    "unat fs + 4096 * total_pages kernel_end ram_pages \<le> unat fe"
    unfolding total_pages_def fs_def [symmetric] using fe fs_le fs_up assms(2,3) ke by auto
qed

section \<open>Properties\<close>

text \<open>
  C11. Initialisation with at least two free pages, a user limit of at least one page and less than
  1 GB of memory succeeds.  The pages between the end of the kernel and the end of RAM are divided:
  the user pool gets half of them, at most the user limit, and the kernel pool the rest.  Each pool
  starts with the pages of its own bitmap, as many as the bitmap needs, and every page behind them
  is free.  The allocator's invariant holds, so the pools are disjoint and no page of them overlaps
  the storage of a bitmap.
\<close>

theorem palloc_init_establishes:
  assumes "is_kernel_vaddr kernel_end" "unat ram_pages < 2 ^ 18" "0 < user_page_limit"
    "unat kernel_end + 3 * 4096 \<le> 0xc0000000 + 4096 * unat ram_pages"
  defines "n \<equiv> total_pages kernel_end ram_pages" and "u \<equiv> user_share kernel_end ram_pages user_page_limit"
    and "start \<equiv> unat (pg_round_up kernel_end)"
  shows "\<exists>st. palloc_init kernel_end ram_pages user_page_limit m = Some st \<and>
    palloc_ok st \<and> palloc_used st = {} \<and> fresh_pool (kernel_pool st) start (n - u) \<and>
    fresh_pool (user_pool st) (start + 4096 * (n - u)) u \<and>
    unat kernel_end \<le> start \<and> start + 4096 * n \<le> 0xc0000000 + 4096 * unat ram_pages \<and> mem st = m"
proof -
  note M = free_memory [OF assms(1,2,4), folded n_def]
  define fs where "fs = pg_round_up kernel_end"
  define F where "F = (ram_pages * 4096 + PHYS_BASE - fs) div 4096"
  define w where "w = (if F div 2 > user_page_limit then user_page_limit else F div 2)"
  have F: "unat F = n" using M(6) by (simp add: F_def fs_def)
  have w: "unat w = u" "0 < u" "u \<le> n div 2"
    using F M(7) assms(3)
    by (auto simp: w_def u_def user_share_def unat_div word_less_nat_alt n_def [symmetric])
  define v where "v = F - w"
  have v: "unat v = n - u" using w F by (simp add: v_def unat_sub word_le_nat_alt)
  have off: "unat (fs + v * 4096) = start + 4096 * (n - u)"
    using v M(5,8,9) assms(2) by (simp add: unat_word_ariths fs_def start_def)
  have fs0: "pg_ofs fs = 0" "is_kernel_vaddr fs" using M(3,4) by (simp_all add: fs_def)
  have u0: "pg_ofs (fs + v * 4096) = 0" "is_kernel_vaddr (fs + v * 4096)"
    using off fs0 by (simp_all add: pg_ofs_0 is_kernel_vaddr_def PHYS_BASE_def word_le_nat_alt fs_def start_def)
  have start: "unat fs = start" by (simp add: fs_def start_def)
  have top: "start + 4096 * n \<le> 0xc0000000 + 4096 * unat ram_pages" using M(5,9) by (simp add: start_def)
  have b: "0 < unat v" "unat v < 2 ^ 18" "unat fs + 4096 * unat v < 2 ^ 32"
      "0 < unat w" "unat w < 2 ^ 18" "unat (fs + v * 4096) + 4096 * unat w < 2 ^ 32"
    using v w M(7,8) top start off assms(2) by simp_all
  obtain kp where kp: "init_pool m fs v = Some kp" "fresh_pool kp start (n - u)"
    using init_fresh_pool [OF b(1,2) fs0 b(3), of m] v start by auto
  obtain up where up: "init_pool m (fs + v * 4096) w = Some up" "fresh_pool up (start + 4096 * (n - u)) u"
    using init_fresh_pool [OF b(4,5) u0 b(6), of m] off w(1) by auto
  let ?st = "\<lparr>kernel_pool = kp, user_pool = up, mem = m\<rparr>"
  have "palloc_init kernel_end ram_pages user_page_limit m = Some ?st"
    unfolding palloc_init_def Let_def PGSIZE_eq M(1) Option.bind.bind_lunit
      fs_def [symmetric] F_def [symmetric] w_def [symmetric] v_def [symmetric]
    using kp(1) up(1) by simp
  moreover have "palloc_ok ?st" "palloc_used ?st = {}"
    using empty_pools [of ?st] kp(2) up(2) by (auto simp: fresh_pool_def)
  ultimately show ?thesis using kp(2) up(2) M(2,5,9) by (auto simp: start_def)
qed

theorem palloc_init_establishes_witness:
  "\<exists>st. palloc_init 0xc0030000 1024 65535 (\<lambda>_. 0) = Some st \<and> palloc_ok st \<and>
     fresh_pool (kernel_pool st) 0xc0030000 488 \<and> fresh_pool (user_pool st) 0xc0218000 488"
proof -
  have "unat (pg_round_up 0xc0030000) = 0xc0030000" by (subst unat_round_up) simp_all
  then have n: "total_pages 0xc0030000 1024 = 976" "user_share 0xc0030000 1024 65535 = 488"
    "unat (pg_round_up 0xc0030000) = 0xc0030000"
    by (simp_all add: user_share_def total_pages_def)
  show ?thesis
    using palloc_init_establishes [of "0xc0030000" 1024 65535 "\<lambda>_. 0", unfolded n]
    by (auto simp: is_kernel_vaddr_def PHYS_BASE_def)
qed

text \<open>A machine with two pools of four pages each; the first kernel page is in use.\<close>

definition demo_palloc :: palloc where
  "demo_palloc =
     \<lparr>kernel_pool = \<lparr>used_map = \<lparr>bit_cnt = 4, bits = [1]\<rparr>, used_map_at = 0xc000e000, base = 0xc0010000\<rparr>,
      user_pool = \<lparr>used_map = \<lparr>bit_cnt = 4, bits = [0]\<rparr>, used_map_at = 0xc000f000, base = 0xc0014000\<rparr>,
      mem = (\<lambda>_. 7)\<rparr>"

lemma demo_palloc_rep: "palloc_rep demo_palloc [True, False, False, False] [False, False, False, False]"
  by (simp add: palloc_rep_def pool_rep_def demo_palloc_def bitmap_rep_def bits_of_def bit_at_def
      used_map_end_def bitmap_buf_size_def byte_cnt_def elem_cnt_def DIV_ROUND_UP_def is_kernel_vaddr_def PHYS_BASE_def pg_ofs_0 upt_rec)

text \<open>
  C9. \<open>palloc_get_multiple\<close> returns the page-aligned kernel address of the first block of \<open>page_cnt\<close>
  pages of the requested pool that are all free: every earlier block has a page in use.  Afterwards
  exactly these pages have become used, with \<open>PAL_ZERO\<close> they read as zero, and no other memory has
  changed.  Only when no such block exists does it return the null pointer, with the state unchanged,
  or panic if \<open>PAL_ASSERT\<close> is set.
\<close>

theorem palloc_get_fresh:
  assumes rep: "palloc_rep st ks us" and cnt: "cnt \<noteq> 0"
  shows "(\<exists>pages st' i. palloc_get_multiple flags cnt st = Some (pages, st') \<and>
        pages = page_at (the_pool flags st) i \<and> pg_ofs pages = 0 \<and> is_kernel_vaddr pages \<and>
        i + unat cnt \<le> length (pool_bits flags ks us) \<and>
        (\<forall>j < unat cnt. \<not> pool_bits flags ks us ! (i + j)) \<and>
        (\<forall>k < i. \<exists>j < unat cnt. pool_bits flags ks us ! (k + j)) \<and>
        palloc_rep_upd flags st' ks us (fill_range (pool_bits flags ks us) i (unat cnt) True) \<and>
        (\<forall>a. mem st' a = (if flags AND PAL_ZERO \<noteq> 0 \<and> unat pages \<le> unat a \<and>
            unat a < unat pages + 4096 * unat cnt then 0 else mem st a))) \<or>
    ((\<forall>i. i + unat cnt \<le> length (pool_bits flags ks us) \<longrightarrow>
        (\<exists>j < unat cnt. pool_bits flags ks us ! (i + j))) \<and>
      palloc_get_multiple flags cnt st = (if flags AND PAL_ASSERT = 0 then Some (0, st) else None))"
proof (cases rule: get_multiple_cases [OF rep cnt, of flags])
  case (1 i b st')
  let ?p = "the_pool flags st" and ?xs = "pool_bits flags ks us"
  have p: "pool_rep ?p ?xs" using rep by (rule the_pool_rep)
  have "0 < unat cnt" using cnt by (simp add: unat_gt_0)
  then have il: "i < length ?xs" using 1(1) by linarith
  have "\<forall>a. mem st' a = (if flags AND PAL_ZERO \<noteq> 0 \<and> unat (page_at ?p i) \<le> unat a \<and>
      unat a < unat (page_at ?p i) + 4096 * unat cnt then 0 else mem st a)"
    using block_addresses [OF p 1(1) cnt] by (simp add: 1(7) memset_words_def)
  moreover have "\<forall>k < i. \<exists>j < unat cnt. ?xs ! (k + j)"
    using 1(1,8) by (auto simp: run_at_nth)
  ultimately show ?thesis using 1(1-6) unat_page_at(3,4) [OF p il]
    by (intro disjI1 exI [of _ "page_at ?p i"] exI [of _ st'] exI [of _ i]) (simp add: run_at_nth)
next
  case 2
  then show ?thesis by (auto simp: run_at_nth)
qed

theorem palloc_get_fresh_witness:
  "\<exists>pages st'. palloc_get_multiple PAL_ZERO 2 demo_palloc = Some (pages, st') \<and> pg_ofs pages = 0 \<and>
    mem st' pages = 0"
proof -
  have f: "PAL_ZERO AND PAL_USER = 0" "PAL_ZERO AND PAL_ZERO \<noteq> 0" "PAL_ZERO AND PAL_ASSERT = 0"
    by (simp_all add: PAL_ZERO_def PAL_USER_def PAL_ASSERT_def)
  let ?xs = "[True, False, False, False]"
  have "\<not> (\<forall>i. i + 2 \<le> length ?xs \<longrightarrow> (\<exists>j < 2. ?xs ! (i + j)))"
    by (auto simp: less_2_cases_iff nth_Cons' intro!: exI [of _ 1])
  with palloc_get_fresh [OF demo_palloc_rep, of 2 PAL_ZERO] f show ?thesis
    by (auto simp: pool_bits_def)
qed

text \<open>
  C10. Releasing a block just allocated never panics and restores the allocation state: the same
  pages are free and used as before the allocation.
\<close>

theorem palloc_free_restores:
  assumes rep: "palloc_rep st ks us" and cnt: "cnt \<noteq> 0"
    and get: "palloc_get_multiple flags cnt st = Some (pages, st')" "pages \<noteq> 0"
  shows "\<exists>st''. palloc_free_multiple pages cnt st' = Some st'' \<and> palloc_rep st'' ks us"
proof (cases rule: get_multiple_cases [OF rep cnt, of flags])
  case (1 i b t)
  let ?xs = "pool_bits flags ks us"
  define ks' us' where "ks' = (if flags AND PAL_USER \<noteq> 0 then ks else fill_range ?xs i (unat cnt) True)"
    and "us' = (if flags AND PAL_USER \<noteq> 0 then fill_range ?xs i (unat cnt) True else us)"
  have t: "pages = page_at (the_pool flags st) i" "t = st'" using get(1) 1(5) by auto
  have rep': "palloc_rep st' ks' us'" using 1(6) t by (auto simp: palloc_rep_upd_def ks'_def us'_def)
  have xs': "pool_bits flags ks' us' = fill_range ?xs i (unat cnt) True"
    by (simp add: pool_bits_def ks'_def us'_def)
  have at: "page_at (the_pool flags st') i = pages"
    using 1(7) t by (simp add: page_at_def)
  have run: "i + unat cnt \<le> length (pool_bits flags ks' us')" "run_at (pool_bits flags ks' us') (unat cnt) True i"
    unfolding xs' using 1(1) run_filled [OF 1(1)] by simp_all
  obtain st'' where st'': "palloc_free_multiple pages cnt st' = Some st''"
      "palloc_rep_upd flags st'' ks' us' (fill_range (pool_bits flags ks' us') i (unat cnt) False)"
    using free_multiple_at [OF rep' cnt run] unfolding at by blast
  moreover have "fill_range (pool_bits flags ks' us') i (unat cnt) False = ?xs"
    unfolding xs' by (rule fill_back [OF 1(1,2)])
  ultimately have "palloc_rep st'' ks us"
    by (auto simp: palloc_rep_upd_def pool_bits_def ks'_def us'_def split: if_splits)
  with st''(1) show ?thesis by blast
next
  case 2
  with get show ?thesis by (auto split: if_splits)
qed

theorem palloc_free_restores_witness:
  "\<exists>pages st' st''. palloc_get_multiple PAL_USER 3 demo_palloc = Some (pages, st') \<and>
    palloc_free_multiple pages 3 st' = Some st'' \<and>
    palloc_rep st'' [True, False, False, False] [False, False, False, False]"
proof (cases rule: get_multiple_cases [OF demo_palloc_rep, of 3 PAL_USER])
  case (2 i b st')
  then have "page_at (the_pool PAL_USER demo_palloc) i \<noteq> 0"
    using unat_page_at(5) [OF the_pool_rep [OF demo_palloc_rep, of PAL_USER], of i] by simp
  with 2(5) palloc_free_restores [OF demo_palloc_rep _ 2(5)] show ?thesis by auto
next
  case 3
  have "\<not> run_at [False, False, False, False] 3 False 0" using 3(1) [of 0] by (simp add: pool_bits_def PAL_USER_def)
  then show ?thesis by (simp add: run_at_def)
qed simp

end
