(* ===== verification/Pagedir.thy ===== *)
theory Pagedir
  imports Palloc
begin

text \<open>
  \<open>userprog/pagedir.c\<close>: two-level page directories in memory pages of the page allocator.  The
  state adds to the allocator the kernel's page directory, the number of RAM pages, the CPU's
  page directory base register and its translation lookaside buffer, which caches entries by page
  number and which loading the register empties.  An address 0 is the null pointer.

  \<open>pte_of\<close> reads a page directory as a map from virtual addresses to page table entries (0 where
  there is none), and \<open>pd_wf\<close> is the invariant: the directory and its page tables are distinct
  pages in use.  The operations are shown to change exactly one entry of that map.
\<close>

section \<open>Definitions\<close>

record mmu =
  pal :: palloc
  base_page_dir :: addr
  ram_pages :: u32
  cr3 :: u32
  tlb :: "u32 \<rightharpoonup> u32"

abbreviation load :: "mmu \<Rightarrow> addr \<Rightarrow> u32" where
  "load st a \<equiv> mem (pal st) a"

definition store :: "addr \<Rightarrow> u32 \<Rightarrow> mmu \<Rightarrow> mmu" where
  "store a v st = st\<lparr>pal := (pal st)\<lparr>mem := (mem (pal st))(a := v)\<rparr>\<rparr>"

definition pagedir_create :: "mmu \<Rightarrow> (addr \<times> mmu) option" where
  "pagedir_create st = do {
     (pd, p) \<leftarrow> palloc_get_page 0 (pal st);
     let m = (\<lambda>a. if pd \<noteq> 0 \<and> a - pd < PGSIZE then mem p (base_page_dir st + (a - pd)) else mem p a);
     Some (pd, st\<lparr>pal := p\<lparr>mem := m\<rparr>\<rparr>) }"

partial_function (option) pte_loop :: "addr \<Rightarrow> addr \<Rightarrow> palloc \<Rightarrow> palloc option" where
  "pte_loop pte lim st =
     (if pte < lim then do {
        st \<leftarrow> (if mem st pte AND PTE_P \<noteq> 0
              then do { page \<leftarrow> pte_get_page (mem st pte); palloc_free_page page st }
              else Some st);
        pte_loop (pte + 4) lim st }
      else Some st)"

partial_function (option) pde_loop :: "addr \<Rightarrow> addr \<Rightarrow> palloc \<Rightarrow> palloc option" where
  "pde_loop pde lim st =
     (if pde < lim then do {
        st \<leftarrow> (if mem st pde AND PTE_P \<noteq> 0
              then do {
                pt \<leftarrow> pde_get_pt (mem st pde);
                st \<leftarrow> pte_loop pt (pt + 4 * (PGSIZE div 4)) st;
                palloc_free_page pt st }
              else Some st);
        pde_loop (pde + 4) lim st }
      else Some st)"

definition pagedir_destroy :: "addr \<Rightarrow> mmu \<Rightarrow> mmu option" where
  "pagedir_destroy pd st =
     (if pd = 0 then Some st
      else do {
        ASSERT (pd \<noteq> base_page_dir st);
        p \<leftarrow> pde_loop pd (pd + 4 * pd_no PHYS_BASE) (pal st);
        p \<leftarrow> palloc_free_page pd p;
        Some (st\<lparr>pal := p\<rparr>) })"

definition lookup_page :: "addr \<Rightarrow> addr \<Rightarrow> bool \<Rightarrow> mmu \<Rightarrow> (addr \<times> mmu) option" where
  "lookup_page pd vaddr create st = do {
     ASSERT (pd \<noteq> 0);
     ASSERT (\<not> create \<or> is_user_vaddr vaddr);
     let pde = pd + 4 * pd_no vaddr;
     (missing, st) \<leftarrow>
       (if load st pde = 0 then
          if create then do {
            (pt, p) \<leftarrow> palloc_get_page PAL_ZERO (pal st);
            let st = st\<lparr>pal := p\<rparr>;
            if pt = 0 then Some (True, st)
            else do {
              e \<leftarrow> pde_create pt;
              Some (False, store pde e st) } }
          else Some (True, st)
        else Some (False, st));
     if missing then Some (0, st)
     else do {
       pt \<leftarrow> pde_get_pt (load st pde);
       Some (pt + 4 * pt_no vaddr, st) } }"

definition pagedir_set_page :: "addr \<Rightarrow> addr \<Rightarrow> addr \<Rightarrow> bool \<Rightarrow> mmu \<Rightarrow> (bool \<times> mmu) option" where
  "pagedir_set_page pd upage kpage writable st = do {
     ASSERT (pg_ofs upage = 0);
     ASSERT (pg_ofs kpage = 0);
     ASSERT (is_user_vaddr upage);
     paddr \<leftarrow> vtop kpage;
     ASSERT (drop_bit PGBITS paddr < ram_pages st);
     ASSERT (pd \<noteq> base_page_dir st);
     (pte, st) \<leftarrow> lookup_page pd upage True st;
     if pte \<noteq> 0 then do {
       ASSERT (load st pte AND PTE_P = 0);
       e \<leftarrow> pte_create_user kpage writable;
       Some (True, store pte e st) }
     else Some (False, st) }"

definition pagedir_activate :: "addr \<Rightarrow> mmu \<Rightarrow> mmu option" where
  "pagedir_activate pd st = do {
     let pd = (if pd = 0 then base_page_dir st else pd);
     p \<leftarrow> vtop pd;
     Some (st\<lparr>cr3 := p, tlb := Map.empty\<rparr>) }"

definition active_pd :: "mmu \<Rightarrow> addr option" where
  "active_pd st = ptov (cr3 st)"

definition invalidate_pagedir :: "addr \<Rightarrow> mmu \<Rightarrow> mmu option" where
  "invalidate_pagedir pd st = do {
     a \<leftarrow> active_pd st;
     if a = pd then pagedir_activate pd st else Some st }"

definition pagedir_is_accessed :: "addr \<Rightarrow> addr \<Rightarrow> mmu \<Rightarrow> bool option" where
  "pagedir_is_accessed pd vpage st = do {
     (pte, st) \<leftarrow> lookup_page pd vpage False st;
     Some (pte \<noteq> 0 \<and> load st pte AND PTE_A \<noteq> 0) }"

definition pagedir_set_accessed :: "addr \<Rightarrow> addr \<Rightarrow> bool \<Rightarrow> mmu \<Rightarrow> mmu option" where
  "pagedir_set_accessed pd vpage accessed st = do {
     (pte, st) \<leftarrow> lookup_page pd vpage False st;
     if pte \<noteq> 0 then
       if accessed then Some (store pte (load st pte OR PTE_A) st)
       else invalidate_pagedir pd (store pte (load st pte AND NOT PTE_A) st)
     else Some st }"

definition pagedir_get_page :: "addr \<Rightarrow> addr \<Rightarrow> mmu \<Rightarrow> (addr \<times> mmu) option" where
  "pagedir_get_page pd uaddr st = do {
     ASSERT (is_user_vaddr uaddr);
     (pte, st) \<leftarrow> lookup_page pd uaddr False st;
     st \<leftarrow> pagedir_set_accessed pd uaddr True st;
     if pte \<noteq> 0 \<and> load st pte AND PTE_P \<noteq> 0 then do {
       page \<leftarrow> pte_get_page (load st pte);
       Some (page + pg_ofs uaddr, st) }
     else Some (0, st) }"

definition pagedir_clear_page :: "addr \<Rightarrow> addr \<Rightarrow> mmu \<Rightarrow> mmu option" where
  "pagedir_clear_page pd upage st = do {
     ASSERT (pg_ofs upage = 0);
     ASSERT (is_user_vaddr upage);
     (pte, st) \<leftarrow> lookup_page pd upage False st;
     if pte \<noteq> 0 \<and> load st pte AND PTE_P \<noteq> 0
     then invalidate_pagedir pd (store pte (load st pte AND NOT PTE_P) st)
     else Some st }"

definition pagedir_is_dirty :: "addr \<Rightarrow> addr \<Rightarrow> mmu \<Rightarrow> bool option" where
  "pagedir_is_dirty pd vpage st = do {
     (pte, st) \<leftarrow> lookup_page pd vpage False st;
     Some (pte \<noteq> 0 \<and> load st pte AND PTE_D \<noteq> 0) }"

definition pagedir_set_dirty :: "addr \<Rightarrow> addr \<Rightarrow> bool \<Rightarrow> mmu \<Rightarrow> mmu option" where
  "pagedir_set_dirty pd vpage dirty st = do {
     (pte, st) \<leftarrow> lookup_page pd vpage False st;
     if pte \<noteq> 0 then
       if dirty then Some (store pte (load st pte OR PTE_D) st)
       else invalidate_pagedir pd (store pte (load st pte AND NOT PTE_D) st)
     else Some st }"

definition pagedir_is_stack :: "addr \<Rightarrow> addr \<Rightarrow> mmu \<Rightarrow> bool option" where
  "pagedir_is_stack pd vpage st = do {
     (pte, st) \<leftarrow> lookup_page pd vpage False st;
     Some (pte \<noteq> 0 \<and> load st pte AND PTE_S \<noteq> 0) }"

definition pagedir_set_stack :: "addr \<Rightarrow> addr \<Rightarrow> bool \<Rightarrow> mmu \<Rightarrow> mmu option" where
  "pagedir_set_stack pd vpage dirty st = do {
     (pte, st) \<leftarrow> lookup_page pd vpage False st;
     if pte \<noteq> 0 then
       if dirty then Some (store pte (load st pte OR PTE_S) st)
       else invalidate_pagedir pd (store pte (load st pte AND NOT PTE_S) st)
     else Some st }"

definition pagedir_is_writable :: "addr \<Rightarrow> addr \<Rightarrow> mmu \<Rightarrow> bool option" where
  "pagedir_is_writable pd vpage st = do {
     (pte, st) \<leftarrow> lookup_page pd vpage False st;
     Some (pte \<noteq> 0 \<and> load st pte AND PTE_W \<noteq> 0) }"

section \<open>Page directories as maps\<close>

definition pde_of :: "mmu \<Rightarrow> addr \<Rightarrow> addr \<Rightarrow> u32" where
  "pde_of st pd va = load st (pd + 4 * pd_no va)"

definition table_of :: "u32 \<Rightarrow> addr" where
  "table_of pde = (pde AND PTE_ADDR) + PHYS_BASE"

definition pte_addr :: "mmu \<Rightarrow> addr \<Rightarrow> addr \<Rightarrow> addr" where
  "pte_addr st pd va = table_of (pde_of st pd va) + 4 * pt_no va"

definition pte_of :: "mmu \<Rightarrow> addr \<Rightarrow> addr \<Rightarrow> u32" where
  "pte_of st pd va = (if pde_of st pd va = 0 then 0 else load st (pte_addr st pd va))"

definition tables_wf :: "(addr \<Rightarrow> u32) \<Rightarrow> addr set \<Rightarrow> bool" where
  "tables_wf pde pages \<longleftrightarrow>
     (\<forall>va. is_user_vaddr va \<longrightarrow> pde va \<noteq> 0 \<longrightarrow>
        pde_get_pt (pde va) = Some (table_of (pde va)) \<and> table_of (pde va) \<in> pages) \<and>
     (\<forall>va vb. is_user_vaddr va \<longrightarrow> is_user_vaddr vb \<longrightarrow> pde va \<noteq> 0 \<longrightarrow> pde vb \<noteq> 0 \<longrightarrow>
        table_of (pde va) = table_of (pde vb) \<longrightarrow> pd_no va = pd_no vb)"

definition pd_wf :: "mmu \<Rightarrow> addr \<Rightarrow> bool" where
  "pd_wf st pd \<longleftrightarrow> palloc_ok (pal st) \<and> pd \<in> palloc_used (pal st) \<and> pd \<noteq> base_page_dir st \<and>
     tables_wf (pde_of st pd) (palloc_used (pal st) - {pd}) \<and>
     (\<forall>va. is_user_vaddr va \<longrightarrow> pte_of st pd va AND PTE_P \<noteq> 0 \<longrightarrow>
        pte_get_page (pte_of st pd va) = Some (table_of (pte_of st pd va)))"

definition user_tables :: "mmu \<Rightarrow> addr \<Rightarrow> addr set" where
  "user_tables st pd = {table_of (pde_of st pd va) |va. is_user_vaddr va \<and> pde_of st pd va \<noteq> 0}"

text \<open>Every user translation in the buffer is present in the active directory with the same rights.\<close>

definition rights :: "u32 \<Rightarrow> u32" where
  "rights pte = pte AND (PTE_ADDR OR PTE_P OR PTE_W OR PTE_U)"

definition tlb_coherent :: "mmu \<Rightarrow> bool" where
  "tlb_coherent st \<longleftrightarrow> (\<forall>va pte. is_user_vaddr va \<longrightarrow> tlb st (pg_no va) = Some pte \<longrightarrow>
     pte AND PTE_P \<noteq> 0 \<and> rights pte = rights (pte_of st (cr3 st + PHYS_BASE) va))"

lemma unat_pd_no: "unat (pd_no va) = unat va div 2 ^ 22"
  by (simp add: pd_no_def PGBITS_def PTBITS_def unat_drop_bit_eq drop_bit_eq_div unat_div)

lemma unat_pt_no: "unat (pt_no va) = unat va div 4096 mod 1024"
proof -
  have m: "PTMASK = push_bit 12 (mask 10)"
    by (simp add: PTMASK_def BITMASK_def PGBITS_def PTBITS_def mask_eq_exp_minus_1)
  have "pt_no va = take_bit 10 (drop_bit 12 va)"
    by (intro bit_word_eqI) (auto simp: pt_no_def PGBITS_def m bit_simps)
  then show ?thesis
    by (simp add: take_bit_eq_mod drop_bit_eq_div unat_div unat_mod)
qed

lemma table_index [simp]: "unat (pd_no va) < 1024" "unat (pt_no va) < 1024"
  using unat_u32_bound [of va] by (simp_all add: unat_pd_no unat_pt_no)

lemma user_pd_no: "is_user_vaddr va \<longleftrightarrow> unat (pd_no va) < 768"
  by (auto simp: is_user_vaddr_def PHYS_BASE_def word_less_nat_alt unat_pd_no)

lemma pg_no_eq_iff: "pg_no va = pg_no vb \<longleftrightarrow> pd_no va = pd_no vb \<and> pt_no va = pt_no vb"
proof -
  have q: "n div 2 ^ 22 = n div 4096 div (1024::nat)" for n by (simp add: div_mult2_eq [symmetric])
  have "n div 4096 = m div 4096 \<longleftrightarrow> n div 2 ^ 22 = m div 2 ^ 22 \<and> n div 4096 mod 1024 = m div 4096 mod (1024::nat)" for n m
    unfolding q by (metis div_mult_mod_eq)
  then show ?thesis by (simp add: word_unat_eq_iff unat_pg_no unat_pd_no unat_pt_no)
qed

lemma entry_page:
  assumes "pg_ofs p = 0" "unat i < 1024"
  shows "pg_round_down (p + 4 * i) = p" "unat (p + 4 * i) = unat p + 4 * unat i"
proof -
  obtain k where k: "unat p = 4096 * k" using assms(1) by (auto simp: pg_ofs_0 elim: dvdE)
  have "k < 2 ^ 20" using unat_u32_bound [of p] k by simp
  then show u: "unat (p + 4 * i) = unat p + 4 * unat i"
    using k assms(2) by (simp add: unat_word_ariths)
  have "(4096 * k + 4 * unat i) div 4096 = k" using assms(2) by (intro div_nat_eqI) auto
  then show "pg_round_down (p + 4 * i) = p" by (simp add: word_unat_eq_iff unat_round_down u k)
qed

lemma entry_eq:
  assumes "pg_ofs p = 0" "pg_ofs q = 0" "unat i < 1024" "unat j < 1024"
  shows "p + 4 * i = q + 4 * j \<longleftrightarrow> p = q \<and> i = j"
proof
  assume e: "p + 4 * i = q + 4 * j"
  then have "p = q" using entry_page(1) [OF assms(1,3)] entry_page(1) [OF assms(2,4)] by simp
  moreover from this have "unat i = unat j"
    using e entry_page(2) [OF assms(1,3)] entry_page(2) [OF assms(2,4)] by simp
  ultimately show "p = q \<and> i = j" by (simp add: word_unat_eq_iff)
qed simp

lemma load_store [simp]:
  "load (store a v st) b = (if b = a then v else load st b)"
  "palloc_ok (pal (store a v st)) = palloc_ok (pal st)"
  "palloc_used (pal (store a v st)) = palloc_used (pal st)"
  "base_page_dir (store a v st) = base_page_dir st" "cr3 (store a v st) = cr3 st" "tlb (store a v st) = tlb st"
  by (simp_all add: store_def)

section \<open>Looking up an entry\<close>

lemma pd_wfD:
  assumes "pd_wf st pd"
  shows "palloc_ok (pal st)" "pd \<in> palloc_used (pal st)" "pg_ofs pd = 0" "is_kernel_vaddr pd" "pd \<noteq> 0"
    "pd \<noteq> base_page_dir st"
    "is_user_vaddr va \<Longrightarrow> pde_of st pd va \<noteq> 0 \<Longrightarrow> pde_get_pt (pde_of st pd va) = Some (table_of (pde_of st pd va))"
    "is_user_vaddr va \<Longrightarrow> pde_of st pd va \<noteq> 0 \<Longrightarrow> table_of (pde_of st pd va) \<in> palloc_used (pal st) - {pd}"
    "is_user_vaddr va \<Longrightarrow> is_user_vaddr vb \<Longrightarrow> pde_of st pd va \<noteq> 0 \<Longrightarrow> pde_of st pd vb \<noteq> 0 \<Longrightarrow>
       table_of (pde_of st pd va) = table_of (pde_of st pd vb) \<Longrightarrow> pd_no va = pd_no vb"
    "is_user_vaddr va \<Longrightarrow> pte_of st pd va AND PTE_P \<noteq> 0 \<Longrightarrow>
       pte_get_page (pte_of st pd va) = Some (table_of (pte_of st pd va))"
proof -
  show ok: "palloc_ok (pal st)" and u: "pd \<in> palloc_used (pal st)" using assms by (auto simp: pd_wf_def)
  from pal.used_page [OF ok u] show "pg_ofs pd = 0" "is_kernel_vaddr pd" "pd \<noteq> 0"
    by (auto simp: is_kernel_vaddr_def PHYS_BASE_def)
qed (use assms [unfolded pd_wf_def tables_wf_def] in blast)+

lemma pd_wf_table:
  assumes "pd_wf st pd" "is_user_vaddr va" "pde_of st pd va \<noteq> 0"
  shows "pg_ofs (table_of (pde_of st pd va)) = 0" "is_kernel_vaddr (table_of (pde_of st pd va))"
    "table_of (pde_of st pd va) \<noteq> pd" "pte_addr st pd va \<noteq> 0"
proof -
  have u: "table_of (pde_of st pd va) \<in> palloc_used (pal st)" using pd_wfD(8) [OF assms] by simp
  note f = pal.used_page [OF pd_wfD(1) [OF assms(1)] u]
  then show "pg_ofs (table_of (pde_of st pd va)) = 0" "is_kernel_vaddr (table_of (pde_of st pd va))"
    "table_of (pde_of st pd va) \<noteq> pd" using pd_wfD(8) [OF assms] by auto
  have "unat (pte_addr st pd va) \<noteq> 0"
    using f entry_page(2) [of "table_of (pde_of st pd va)" "pt_no va"]
    by (simp add: pte_addr_def is_kernel_vaddr_def PHYS_BASE_def word_le_nat_alt)
  then show "pte_addr st pd va \<noteq> 0" by auto
qed

lemma lookup_existing:
  assumes "pd_wf st pd" "is_user_vaddr va" "pde_of st pd va \<noteq> 0"
  shows "lookup_page pd va create st = Some (pte_addr st pd va, st)"
  using assms pd_wfD(5,7) [OF assms(1)]
  by (simp add: lookup_page_def Let_def pte_addr_def flip: pde_of_def)

lemma lookup_page_False:
  assumes "pd_wf st pd" "is_user_vaddr va"
  shows "lookup_page pd va False st = Some (if pde_of st pd va = 0 then 0 else pte_addr st pd va, st)"
proof (cases "pde_of st pd va = 0")
  case True
  then show ?thesis using pd_wfD(5) [OF assms(1)] by (simp add: lookup_page_def pde_of_def Let_def)
next
  case False
  then show ?thesis using lookup_existing [OF assms] by simp
qed

lemma pde_of_store_pte:
  assumes "pd_wf st pd" "is_user_vaddr va" "pde_of st pd va \<noteq> 0"
  shows "pde_of (store (pte_addr st pd va) v st) pd vb = pde_of st pd vb"
proof -
  have "pd + 4 * pd_no vb \<noteq> pte_addr st pd va"
    using entry_eq [OF pd_wfD(3) [OF assms(1)] pd_wf_table(1) [OF assms], of "pd_no vb" "pt_no va"]
      pd_wf_table(3) [OF assms] by (simp add: pte_addr_def)
  then show ?thesis by (simp add: pde_of_def)
qed

lemma pte_of_store_pte:
  assumes wf: "pd_wf st pd" and va: "is_user_vaddr va" "pde_of st pd va \<noteq> 0" and vb: "is_user_vaddr vb"
  shows "pte_of (store (pte_addr st pd va) v st) pd vb = (if pg_no vb = pg_no va then v else pte_of st pd vb)"
proof (cases "pde_of st pd vb = 0")
  case True
  have "pd_no va \<noteq> pd_no vb" using True va(2) by (auto simp: pde_of_def)
  with True show ?thesis by (simp add: pte_of_def pde_of_store_pte [OF wf va] pg_no_eq_iff)
next
  case False
  have a: "pte_addr (store (pte_addr st pd va) v st) pd vb = pte_addr st pd vb"
    by (simp add: pte_addr_def pde_of_store_pte [OF wf va, unfolded pte_addr_def])
  have "pte_addr st pd vb = pte_addr st pd va \<longleftrightarrow>
      table_of (pde_of st pd vb) = table_of (pde_of st pd va) \<and> pt_no vb = pt_no va"
    unfolding pte_addr_def by (rule entry_eq) (simp_all add: pd_wf_table(1) [OF wf] va vb False)
  also have "\<dots> \<longleftrightarrow> pg_no vb = pg_no va"
    using pd_wfD(9) [OF wf vb va(1) False va(2)] by (auto simp: pg_no_eq_iff pde_of_def)
  finally show ?thesis using False by (simp add: pte_of_def pde_of_store_pte [OF wf va] a)
qed

lemma pd_wf_store_pte:
  assumes wf: "pd_wf st pd" and va: "is_user_vaddr va" "pde_of st pd va \<noteq> 0"
    and v: "v AND PTE_P \<noteq> 0 \<Longrightarrow> pte_get_page v = Some (table_of v)"
  shows "pd_wf (store (pte_addr st pd va) v st) pd"
proof -
  have "pde_of (store (pte_addr st pd va) v st) pd = pde_of st pd"
    by (rule ext) (rule pde_of_store_pte [OF wf va])
  then show ?thesis using wf v by (simp add: pd_wf_def pte_of_store_pte [OF wf va])
qed

text \<open>A missing page table: the new one is zeroed, so no entry appears or disappears.\<close>

lemma lookup_create_run:
  assumes wf: "pd_wf st pd" and va: "is_user_vaddr va" "pde_of st pd va = 0"
    and get: "palloc_get_page PAL_ZERO (pal st) = Some (pt, p)" "pt \<noteq> 0"
    and pde: "pde_create pt = Some e" "pde_get_pt e = Some pt"
  shows "lookup_page pd va True st =
    Some (pt + 4 * pt_no va, store (pd + 4 * pd_no va) e (st\<lparr>pal := p\<rparr>))"
  using assms pd_wfD(5) [OF wf] by (simp add: lookup_page_def Let_def pde_of_def)

lemma tables_wf_new:
  assumes "tables_wf pde pages" "pt \<notin> pages" "pde_get_pt e = Some pt" "table_of e = pt"
  shows "tables_wf (\<lambda>v. if pd_no v = k then e else pde v) (insert pt pages)"
proof -
  have in_pages: "pde_get_pt (pde v) = Some (table_of (pde v))" "table_of (pde v) \<in> pages"
    if "is_user_vaddr v" "pde v \<noteq> 0" for v using assms(1) that by (auto simp: tables_wf_def)
  then have fresh: "table_of (pde v) \<noteq> pt" if "is_user_vaddr v" "pde v \<noteq> 0" for v
    using assms(2) that by metis
  have inj: "pd_no v = pd_no w" if "is_user_vaddr v" "is_user_vaddr w" "pde v \<noteq> 0" "pde w \<noteq> 0"
    "table_of (pde v) = table_of (pde w)" for v w
    using assms(1) that unfolding tables_wf_def by blast
  show ?thesis unfolding tables_wf_def
  proof (intro conjI allI impI, goal_cases)
    case (1 va)
    then show ?case using in_pages(1) [of va] assms(3,4) by (simp split: if_splits)
  next
    case (2 va)
    then show ?case using in_pages(2) [of va] assms(4) by (simp split: if_splits)
  next
    case (3 va vb)
    note eq = 3(5)
    show ?case
    proof (cases "pd_no va = k"; cases "pd_no vb = k")
      assume n: "pd_no va \<noteq> k" "pd_no vb \<noteq> k"
      show ?thesis by (rule inj [OF 3(1,2)]) (use 3(3-5) n in \<open>simp_all only: if_False simp_thms\<close>)
    next
      assume n: "pd_no va \<noteq> k" "pd_no vb = k"
      then have "table_of (pde va) = pt" using eq assms(4) by (simp only: if_False if_True simp_thms)
      with fresh [OF 3(1)] n 3(3) show ?thesis by (simp only: if_False simp_thms True_implies_equals)
    next
      assume n: "pd_no va = k" "pd_no vb \<noteq> k"
      then have "table_of (pde vb) = pt" using eq assms(4) by (simp only: if_False if_True simp_thms)
      with fresh [OF 3(2)] n 3(4) show ?thesis by (simp only: if_False simp_thms True_implies_equals)
    qed (simp only:)
  qed
qed

lemma new_table:
  assumes wf: "pd_wf st pd" and va: "is_user_vaddr va" "pde_of st pd va = 0"
    and p: "palloc_ok p" "pt \<notin> palloc_used (pal st)" "palloc_used p = insert pt (palloc_used (pal st))"
      "\<And>a. mem p a = (if pg_round_down a = pt then 0 else load st a)"
    and e: "e \<noteq> 0" "pde_get_pt e = Some pt" "table_of e = pt"
  defines "st' \<equiv> store (pd + 4 * pd_no va) e (st\<lparr>pal := p\<rparr>)"
  shows "pde_of st' pd vb = (if pd_no vb = pd_no va then e else pde_of st pd vb)"
    "is_user_vaddr vb \<Longrightarrow> pte_of st' pd vb = pte_of st pd vb" "pd_wf st' pd"
proof -
  have pd: "pg_ofs pd = 0" "pd \<in> palloc_used (pal st)" using pd_wfD(2,3) [OF wf] by simp_all
  have ptpd: "pt \<noteq> pd" using pd(2) p(2) by auto
  have pt: "pg_ofs pt = 0" using pal.used_page [OF p(1)] p(3) by simp
  have pde: "pde_of st' pd vb = (if pd_no vb = pd_no va then e else pde_of st pd vb)" for vb
  proof -
    have "pd + 4 * pd_no vb = pd + 4 * pd_no va \<longleftrightarrow> pd_no vb = pd_no va" using entry_eq [OF pd(1,1)] by simp
    moreover have "pg_round_down (pd + 4 * pd_no vb) = pd" using entry_page(1) [OF pd(1)] by simp
    ultimately show ?thesis using ptpd by (simp add: st'_def pde_of_def p(4))
  qed
  then show "pde_of st' pd vb = (if pd_no vb = pd_no va then e else pde_of st pd vb)" .
  have pte: "pte_of st' pd vb = pte_of st pd vb" if vb: "is_user_vaddr vb" for vb
  proof (cases "pde_of st' pd vb = 0")
    case True
    then show ?thesis using e(1) by (auto simp: pte_of_def pde split: if_splits)
  next
    case False
    define t where "t = table_of (pde_of st' pd vb)"
    have t: "pg_ofs t = 0" "t \<noteq> pd" "pd_no vb = pd_no va \<or> t \<noteq> pt \<and> pde_of st pd vb \<noteq> 0"
      using False pde [of vb] pt ptpd e(3) pd_wf_table [OF wf vb] pd_wfD(8) [OF wf vb] p(2)
      by (auto simp: t_def split: if_splits)
    have "pg_round_down (t + 4 * pt_no vb) = t" using entry_page(1) [OF t(1)] by simp
    moreover have "t + 4 * pt_no vb \<noteq> pd + 4 * pd_no va" using entry_eq [OF t(1) pd(1)] t(2) by simp
    ultimately have ld: "load st' (t + 4 * pt_no vb) = (if t = pt then 0 else load st (t + 4 * pt_no vb))"
      by (simp add: st'_def p(4))
    show ?thesis
    proof (cases "pd_no vb = pd_no va")
      case True
      then have "pde_of st pd vb = 0" using va(2) by (simp add: pde_of_def)
      then show ?thesis using True ld pde [of vb] e by (simp add: pte_of_def pte_addr_def t_def)
    next
      case False
      with t(3) ld show ?thesis using pde [of vb] by (simp add: pte_of_def pte_addr_def t_def)
    qed
  qed
  then show "is_user_vaddr vb \<Longrightarrow> pte_of st' pd vb = pte_of st pd vb" by simp
  have "pde_of st' pd = (\<lambda>vb. if pd_no vb = pd_no va then e else pde_of st pd vb)" using pde by (rule ext)
  moreover have "palloc_used (pal st') - {pd} = insert pt (palloc_used (pal st) - {pd})"
    using p(3) ptpd by (auto simp: st'_def)
  ultimately have "tables_wf (pde_of st' pd) (palloc_used (pal st') - {pd})"
    using tables_wf_new [of "pde_of st pd" "palloc_used (pal st) - {pd}" pt e "pd_no va"] wf p(2) e
    by (simp add: pd_wf_def)
  with pte pd_wfD(2,6,10) [OF wf] p(1,3) show "pd_wf st' pd" unfolding pd_wf_def by (simp add: st'_def)
qed

lemma lookup_create:
  assumes wf: "pd_wf st pd" and va: "is_user_vaddr va"
  obtains (full) "lookup_page pd va True st = Some (0, st)" "pde_of st pd va = 0"
      "palloc_get_page PAL_ZERO (pal st) = Some (0, pal st)"
  | (entry) st' where "lookup_page pd va True st = Some (pte_addr st' pd va, st')" "pd_wf st' pd"
      "pde_of st' pd va \<noteq> 0" "\<And>vb. is_user_vaddr vb \<Longrightarrow> pte_of st' pd vb = pte_of st pd vb"
      "cr3 st' = cr3 st" "tlb st' = tlb st" "base_page_dir st' = base_page_dir st"
      "palloc_used (pal st) \<subseteq> palloc_used (pal st')"
      "\<And>a. pg_round_down a \<noteq> pd \<Longrightarrow> pg_round_down a \<in> palloc_used (pal st) \<Longrightarrow> load st' a = load st a"
      "table_of (pde_of st' pd va) \<in> user_tables st pd \<or> table_of (pde_of st' pd va) \<notin> palloc_used (pal st)"
proof (cases "pde_of st pd va = 0")
  case False
  then have "table_of (pde_of st pd va) \<in> user_tables st pd" using va by (auto simp: user_tables_def)
  then show thesis using entry [of st] lookup_existing [OF wf va] wf False by simp
next
  case True
  have z: "PAL_ZERO AND PAL_ASSERT = 0" "PAL_ZERO AND PAL_ZERO \<noteq> 0" by (simp_all add: PAL_ZERO_def PAL_ASSERT_def)
  consider "palloc_get_page PAL_ZERO (pal st) = Some (0, pal st)"
    | pt p where "palloc_get_page PAL_ZERO (pal st) = Some (pt, p)" "pt \<noteq> 0" "palloc_ok p"
      "pt \<notin> palloc_used (pal st)" "palloc_used p = insert pt (palloc_used (pal st))"
      "\<And>a. mem p a = (if pg_round_down a = pt then 0 else load st a)"
    using pal.get_page [OF pd_wfD(1) [OF wf] z(1)] z(2) by auto
  then show thesis
  proof cases
    case 1
    then have "lookup_page pd va True st = Some (0, st)"
      using True va pd_wfD(5) [OF wf] by (simp add: lookup_page_def pde_of_def Let_def)
    then show thesis using full True 1 by blast
  next
    case (2 pt p)
    have pt: "is_kernel_vaddr pt" "pg_ofs pt = 0" using pal.used_page [OF 2(3)] 2(5) by simp_all
    obtain e where e: "pde_create pt = Some e" "e \<noteq> 0" "pde_get_pt e = Some pt"
      using pde_create_spec [OF pt] by blast
    have te: "table_of e = pt"
      using e(3) by (auto simp: pde_get_pt_def ptov_def table_of_def bind_eq_Some_conv)
    let ?st = "store (pd + 4 * pd_no va) e (st\<lparr>pal := p\<rparr>)"
    note n = new_table [OF wf va True 2(3-6) e(2,3) te]
    have "pte_addr ?st pd va = pt + 4 * pt_no va" using n(1) te by (simp add: pte_addr_def)
    moreover have "load ?st a = load st a"
      if "pg_round_down a \<noteq> pd" "pg_round_down a \<in> palloc_used (pal st)" for a
      using that 2(4,6) entry_page(1) [OF pd_wfD(3) [OF wf], of "pd_no va"] by auto
    ultimately show thesis
      using entry [of ?st] lookup_create_run [OF wf va True 2(1,2) e(1,3)] n e(2) 2(4,5) te by auto
  qed
qed

section \<open>Updating an entry\<close>

text \<open>The page directory base register holds the physical address of a page directory.\<close>

definition cpu_ok :: "mmu \<Rightarrow> bool" where
  "cpu_ok st \<longleftrightarrow> is_kernel_vaddr (cr3 st + PHYS_BASE)"

definition flush :: "addr \<Rightarrow> mmu \<Rightarrow> mmu" where
  "flush pd st = (if cr3 st + PHYS_BASE = pd then st\<lparr>tlb := Map.empty\<rparr> else st)"

definition with_flag :: "u32 \<Rightarrow> bool \<Rightarrow> u32 \<Rightarrow> u32" where
  "with_flag x b pte = (if b then pte OR x else pte AND NOT x)"

lemma invalidate_flush:
  assumes "cpu_ok st"
  shows "invalidate_pagedir pd st = Some (flush pd st)"
proof -
  have "ptov (cr3 st) = Some (cr3 st + PHYS_BASE)" "cr3 st + PHYS_BASE \<noteq> 0"
    using assms vtop_ptov(2) [of "cr3 st + PHYS_BASE"]
    by (auto simp: cpu_ok_def is_kernel_vaddr_def PHYS_BASE_def)
  then show ?thesis
    using assms vtop_ptov(1) [of "cr3 st + PHYS_BASE"]
    by (auto simp: invalidate_pagedir_def active_pd_def pagedir_activate_def flush_def cpu_ok_def)
qed

lemma flush_simps [simp]:
  "load (flush pd st) = load st" "pal (flush pd st) = pal st" "base_page_dir (flush pd st) = base_page_dir st"
  "cr3 (flush pd st) = cr3 st" "pde_of (flush pd st) = pde_of st" "pte_addr (flush pd st) = pte_addr st"
  "pte_of (flush pd st) = pte_of st"
  "cpu_ok (store a v st) = cpu_ok st" "cpu_ok (flush pd st) = cpu_ok st"
  by (simp_all add: flush_def pde_of_def pte_addr_def pte_of_def cpu_ok_def fun_eq_iff)

lemma pd_wf_flush [simp]: "pd_wf (flush pd st) pd' = pd_wf st pd'"
  by (simp add: pd_wf_def)

lemma set_flag_cases:
  assumes wf: "pd_wf st pd" and va: "is_user_vaddr va" and cpu: "b \<or> cpu_ok st"
    and set: "set_flag = (\<lambda>b. do {
     (pte, st) \<leftarrow> lookup_page pd va False st;
     if pte \<noteq> 0 then
       if b then Some (store pte (load st pte OR x) st)
       else invalidate_pagedir pd (store pte (load st pte AND NOT x) st)
     else Some st })"
  shows "set_flag b = Some (if pde_of st pd va = 0 then st
    else let st' = store (pte_addr st pd va) (with_flag x b (pte_of st pd va)) st
         in if b then st' else flush pd st')"
  using cpu pd_wf_table(4) [OF wf va]
  by (auto simp: set lookup_page_False [OF wf va] invalidate_flush with_flag_def pte_of_def)

lemmas set_flags =
  set_flag_cases [where set_flag = "\<lambda>b. pagedir_set_accessed pd va b st" and x = PTE_A for pd va st,
    unfolded pagedir_set_accessed_def, OF _ _ _ refl, folded pagedir_set_accessed_def]
  set_flag_cases [where set_flag = "\<lambda>b. pagedir_set_dirty pd va b st" and x = PTE_D for pd va st,
    unfolded pagedir_set_dirty_def, OF _ _ _ refl, folded pagedir_set_dirty_def]
  set_flag_cases [where set_flag = "\<lambda>b. pagedir_set_stack pd va b st" and x = PTE_S for pd va st,
    unfolded pagedir_set_stack_def, OF _ _ _ refl, folded pagedir_set_stack_def]

lemma get_flags:
  assumes "pd_wf st pd" "is_user_vaddr va"
  shows "pagedir_is_accessed pd va st = Some (pte_of st pd va AND PTE_A \<noteq> 0)"
    "pagedir_is_dirty pd va st = Some (pte_of st pd va AND PTE_D \<noteq> 0)"
    "pagedir_is_stack pd va st = Some (pte_of st pd va AND PTE_S \<noteq> 0)"
    "pagedir_is_writable pd va st = Some (pte_of st pd va AND PTE_W \<noteq> 0)"
  using pd_wf_table(4) [OF assms]
  by (auto simp: pagedir_is_accessed_def pagedir_is_dirty_def pagedir_is_stack_def
      pagedir_is_writable_def lookup_page_False [OF assms] pte_of_def)

text \<open>The flags are single bits below the address field.\<close>

lemma flag_bits:
  "PTE_P = 2 ^ 0" "PTE_W = 2 ^ 1" "PTE_U = 2 ^ 2" "PTE_S = 2 ^ 3" "PTE_A = 2 ^ 5" "PTE_D = 2 ^ 6"
  by (simp_all add: PTE_P_def PTE_W_def PTE_U_def PTE_S_def PTE_A_def PTE_D_def)

lemma with_flag_addr:
  assumes "n < 12"
  shows "with_flag (2 ^ n) b pte AND PTE_ADDR = pte AND PTE_ADDR"
  using assms by (intro bit_word_eqI) (auto simp: with_flag_def PTE_ADDR_eq bit_simps)

lemma with_flag_bit:
  assumes "n < 12" "m < 12"
  shows "with_flag (2 ^ n) b pte AND 2 ^ m \<noteq> 0 \<longleftrightarrow> (if m = n then b else pte AND 2 ^ m \<noteq> 0)"
  using assms by (auto simp: with_flag_def and_exp_eq_0_iff_not_bit bit_simps)

lemma table_of_with_flag: "n < 12 \<Longrightarrow> table_of (with_flag (2 ^ n) b pte) = table_of pte"
  by (simp add: table_of_def with_flag_addr)

lemma pte_get_page_with_flag: "n < 12 \<Longrightarrow> pte_get_page (with_flag (2 ^ n) b pte) = pte_get_page pte"
  by (simp add: pte_get_page_def with_flag_addr)

lemma store_flag:
  assumes wf: "pd_wf st pd" and va: "is_user_vaddr va" "pde_of st pd va \<noteq> 0" and n: "0 < n" "n < 12"
  shows "pd_wf (store (pte_addr st pd va) (with_flag (2 ^ n) b (pte_of st pd va)) st) pd"
proof (rule pd_wf_store_pte [OF wf va])
  assume "with_flag (2 ^ n) b (pte_of st pd va) AND PTE_P \<noteq> 0"
  then have "pte_of st pd va AND PTE_P \<noteq> 0" using with_flag_bit [OF n(2), of 0] n(1) by (simp add: flag_bits)
  then show "pte_get_page (with_flag (2 ^ n) b (pte_of st pd va)) =
      Some (table_of (with_flag (2 ^ n) b (pte_of st pd va)))"
    using pd_wfD(10) [OF wf va(1)] n(2) by (simp add: pte_get_page_with_flag table_of_with_flag)
qed

lemma get_page_spec:
  assumes wf: "pd_wf st pd" and va: "is_user_vaddr va"
  shows "pagedir_get_page pd va st =
    Some (if pte_of st pd va AND PTE_P = 0 then 0 else table_of (pte_of st pd va) + pg_ofs va,
      if pde_of st pd va = 0 then st
      else store (pte_addr st pd va) (with_flag PTE_A True (pte_of st pd va)) st)"
proof (cases "pde_of st pd va = 0")
  case True
  then show ?thesis
    using va set_flags(1) [OF wf va, of True]
    by (simp add: pagedir_get_page_def lookup_page_False [OF wf va] pte_of_def)
next
  case False
  have bits: "with_flag PTE_A True q AND PTE_P = 0 \<longleftrightarrow> q AND PTE_P = 0"
    "pte_get_page (with_flag PTE_A True q) = pte_get_page q" for q
    using with_flag_bit [of 5 0 True q] pte_get_page_with_flag [of 5 True q] by (simp_all add: flag_bits)
  show ?thesis
    using False va set_flags(1) [OF wf va, of True] pd_wf_table(4) [OF wf va False] pd_wfD(10) [OF wf va] bits
    by (simp add: pagedir_get_page_def lookup_page_False [OF wf va])
qed

lemma clear_page_spec:
  assumes wf: "pd_wf st pd" and va: "is_user_vaddr va" "pg_ofs va = 0" and cpu: "cpu_ok st"
  shows "pagedir_clear_page pd va st = Some (if pte_of st pd va AND PTE_P = 0 then st
    else flush pd (store (pte_addr st pd va) (with_flag PTE_P False (pte_of st pd va)) st))"
  using va cpu pd_wf_table(4) [OF wf va(1)]
  by (auto simp: pagedir_clear_page_def lookup_page_False [OF wf va(1)] pte_of_def with_flag_def invalidate_flush)

lemma tlb_coherent_store:
  assumes wf: "pd_wf st pd" and va: "is_user_vaddr va" "pde_of st pd va \<noteq> 0"
    and active: "cr3 st + PHYS_BASE = pd" and ok: "tlb_coherent st"
    and same: "tlb st (pg_no va) = None \<or> rights v = rights (pte_of st pd va)"
  shows "tlb_coherent (store (pte_addr st pd va) v st)"
  unfolding tlb_coherent_def
proof (intro allI impI)
  fix vb pte assume vb: "is_user_vaddr vb" and t: "tlb (store (pte_addr st pd va) v st) (pg_no vb) = Some pte"
  then have c: "pte AND PTE_P \<noteq> 0" "rights pte = rights (pte_of st pd vb)"
    using ok active by (auto simp: tlb_coherent_def)
  have "pte_of st pd va = pte_of st pd vb" if "pg_no vb = pg_no va"
    using that by (simp add: pg_no_eq_iff pte_of_def pte_addr_def pde_of_def)
  with c t same show "pte AND PTE_P \<noteq> 0 \<and>
      rights pte = rights (pte_of (store (pte_addr st pd va) v st) (cr3 (store (pte_addr st pd va) v st) + PHYS_BASE) vb)"
    using active pte_of_store_pte [OF wf va vb, of v] by auto
qed

lemma tlb_coherent_flush:
  "cr3 st + PHYS_BASE = pd \<Longrightarrow> tlb_coherent (flush pd st)"
  by (simp add: tlb_coherent_def flush_def)

lemma rights_with_flag: "rights (with_flag PTE_A True q) = rights q" "rights (with_flag PTE_D True q) = rights q"
  "rights (with_flag PTE_S True q) = rights q"
  by (simp_all add: rights_def with_flag_def bit.conj_disj_distrib2 PTE_ADDR_def PTE_P_def PTE_W_def PTE_U_def
      PTE_A_def PTE_D_def PTE_S_def)

text \<open>The entry of the page of \<open>va\<close> has become \<open>v\<close>; every other one is as before.\<close>

definition entry_updated :: "mmu \<Rightarrow> mmu \<Rightarrow> addr \<Rightarrow> addr \<Rightarrow> u32 \<Rightarrow> bool" where
  "entry_updated st st' pd va v \<longleftrightarrow> pd_wf st' pd \<and>
     (\<forall>vb. is_user_vaddr vb \<longrightarrow> pte_of st' pd vb = (if pg_no vb = pg_no va then v else pte_of st pd vb)) \<and>
     (\<forall>a. a \<noteq> pte_addr st pd va \<longrightarrow> load st' a = load st a) \<and>
     (cr3 st + PHYS_BASE = pd \<longrightarrow> tlb_coherent st \<longrightarrow> tlb_coherent st')"

lemma entry_updated_flag:
  assumes wf: "pd_wf st pd" and va: "is_user_vaddr va" "pde_of st pd va \<noteq> 0" and cpu: "cpu_ok st"
    and x: "x = 2 ^ n" "0 < n" "n < 12" "rights (with_flag x True (pte_of st pd va)) = rights (pte_of st pd va)"
    and set: "r = Some (if pde_of st pd va = 0 then st
      else let st' = store (pte_addr st pd va) (with_flag x b (pte_of st pd va)) st
           in if b then st' else flush pd st')"
  shows "\<exists>st'. r = Some st' \<and> pd_wf st' pd \<and> pte_of st' pd va AND x \<noteq> 0 = b \<and>
    entry_updated st st' pd va (with_flag x b (pte_of st pd va))"
proof -
  let ?st = "store (pte_addr st pd va) (with_flag x b (pte_of st pd va)) st"
  have wf': "pd_wf ?st pd" using store_flag [OF wf va x(2,3)] by (simp add: x(1))
  note upd = pte_of_store_pte [OF wf va]
  have tlb: "tlb_coherent (if b then ?st else flush pd ?st)" if "cr3 st + PHYS_BASE = pd" "tlb_coherent st"
    using tlb_coherent_store [OF wf va that] x(4) tlb_coherent_flush [of ?st pd] that by (auto split: if_splits)
  show ?thesis
    using set va(2) wf' upd tlb with_flag_bit [OF x(3,3), of b] va(1) x(1)
    by (auto simp: entry_updated_def Let_def split: if_splits)
qed

section \<open>Destroying a directory\<close>

text \<open>
  The pages that the two loops release, in order: from a page table its frames, from a
  directory the frames and then the table of every present entry.
\<close>

definition frames :: "(addr \<Rightarrow> u32) \<Rightarrow> addr \<Rightarrow> nat \<Rightarrow> addr list" where
  "frames m pt k = map (\<lambda>j. table_of (m (pt + 4 * of_nat j)))
     (filter (\<lambda>j. m (pt + 4 * of_nat j) AND PTE_P \<noteq> 0) [k..<1024])"

definition dir_block :: "(addr \<Rightarrow> u32) \<Rightarrow> addr \<Rightarrow> nat \<Rightarrow> addr list" where
  "dir_block m pd i = (let e = m (pd + 4 * of_nat i) in
     if e AND PTE_P \<noteq> 0 then frames m (table_of e) 0 @ [table_of e] else [])"

definition pages_of :: "(addr \<Rightarrow> u32) \<Rightarrow> addr \<Rightarrow> nat \<Rightarrow> addr list" where
  "pages_of m pd k = concat (map (dir_block m pd) [k..<768])"

lemma unat_of_nat_1024: "j < 1024 \<Longrightarrow> unat (of_nat j :: u32) = j"
  by (simp add: unat_of_nat take_bit_eq_mod)

lemma frames_cong:
  assumes "pg_ofs pt = 0" "\<And>a. pg_round_down a = pt \<Longrightarrow> m' a = m a"
  shows "frames m' pt k = frames m pt k"
proof -
  have "m' (pt + 4 * of_nat j) = m (pt + 4 * of_nat j)" if "j < 1024" for j
    using entry_page(1) [OF assms(1), of "of_nat j"] assms(2) that by (simp add: unat_of_nat_1024)
  then show ?thesis by (auto simp: frames_def intro!: map_cong filter_cong)
qed

lemma frames_Cons:
  "k < 1024 \<Longrightarrow> frames m pt k = (if m (pt + 4 * of_nat k) AND PTE_P \<noteq> 0
     then table_of (m (pt + 4 * of_nat k)) # frames m pt (Suc k) else frames m pt (Suc k))"
  by (simp add: frames_def upt_conv_Cons)

lemma entry_less:
  assumes "pg_ofs p = 0" "unat p + 4096 < 2 ^ 32" "k \<le> 1024" "n \<le> 1024"
  shows "p + 4 * of_nat k < p + 4 * of_nat n \<longleftrightarrow> k < n"
proof -
  have "unat (p + 4 * of_nat j) = unat p + 4 * j" if "j \<le> 1024" for j
    using assms(2) that by (simp add: unat_word_ariths unat_of_nat take_bit_eq_mod)
  then show ?thesis using assms(3,4) by (simp add: word_less_nat_alt)
qed

lemma pte_loop_frees:
  assumes pt: "pg_ofs pt = 0" "unat pt + 4096 < 2 ^ 32"
  shows "k \<le> 1024 \<Longrightarrow> palloc_ok st \<Longrightarrow> set (frames (mem st) pt k) \<subseteq> palloc_used st - {pt} \<Longrightarrow>
    distinct (frames (mem st) pt k) \<Longrightarrow>
    (\<And>j. j < 1024 \<Longrightarrow> mem st (pt + 4 * of_nat j) AND PTE_P \<noteq> 0 \<Longrightarrow>
       pte_get_page (mem st (pt + 4 * of_nat j)) = Some (table_of (mem st (pt + 4 * of_nat j)))) \<Longrightarrow>
    pte_loop (pt + 4 * of_nat k) (pt + 4096) st = fold_opt palloc_free_page (frames (mem st) pt k) st"
proof (induction "1024 - k" arbitrary: k st)
  case 0
  then have "\<not> pt + 4 * of_nat k < pt + 4096" using entry_less [OF pt, of k 1024] by simp
  with 0 show ?case by (subst pte_loop.simps) (simp add: frames_def)
next
  case (Suc d)
  let ?e = "mem st (pt + 4 * of_nat k)"
  from Suc.hyps(2) have k: "k < 1024" and d: "d = 1024 - Suc k" by auto
  have lt: "pt + 4 * of_nat k < pt + 4096" using entry_less [OF pt, of k 1024] k by simp
  have nxt: "pt + 4 * of_nat k + 4 = pt + 4 * of_nat (Suc k)" by simp
  show ?case
  proof (cases "?e AND PTE_P = 0")
    case True
    then have "frames (mem st) pt k = frames (mem st) pt (Suc k)" using frames_Cons [OF k] by simp
    with True show ?thesis
      using Suc.hyps(1) [OF d, of st] Suc.prems k by (subst pte_loop.simps) (simp add: lt nxt del: of_nat_Suc)
  next
    case False
    let ?f = "table_of ?e"
    have fr: "frames (mem st) pt k = ?f # frames (mem st) pt (Suc k)" using frames_Cons [OF k] False by simp
    then have f: "?f \<in> palloc_used st" "?f \<noteq> pt" using Suc.prems(3) by auto
    obtain st1 where st1: "palloc_free_page ?f st = Some st1" "palloc_ok st1" "palloc_used st1 = palloc_used st - {?f}"
        "\<And>a. pg_round_down a \<noteq> ?f \<Longrightarrow> mem st1 a = mem st a"
      using pal.free_page [OF Suc.prems(2) f(1)] by auto
    have "frames (mem st1) pt (Suc k) = frames (mem st) pt (Suc k)"
      using frames_cong [OF pt(1), of "mem st1" "mem st"] st1(4) f(2) by auto
    moreover have "mem st1 (pt + 4 * of_nat j) = mem st (pt + 4 * of_nat j)" if "j < 1024" for j
      using entry_page(1) [OF pt(1), of "of_nat j"] st1(4) f(2) that by (simp add: unat_of_nat_1024)
    ultimately have "pte_loop (pt + 4 * of_nat (Suc k)) (pt + 4096) st1 =
        fold_opt palloc_free_page (frames (mem st) pt (Suc k)) st1"
      using Suc.hyps(1) [OF d, of st1] Suc.prems k st1(2,3) fr by auto
    then show ?thesis
      using False Suc.prems(5) [OF k] st1(1) fr
      by (subst pte_loop.simps) (simp add: lt nxt del: of_nat_Suc)
  qed
qed

definition dir_valid :: "(addr \<Rightarrow> u32) \<Rightarrow> addr \<Rightarrow> nat \<Rightarrow> bool" where
  "dir_valid m pd k \<longleftrightarrow> (\<forall>i. k \<le> i \<longrightarrow> i < 768 \<longrightarrow> m (pd + 4 * of_nat i) AND PTE_P \<noteq> 0 \<longrightarrow>
     (let e = m (pd + 4 * of_nat i); pt = table_of e in
      pde_get_pt e = Some pt \<and> pg_ofs pt = 0 \<and> unat pt + 4096 < 2 ^ 32 \<and>
      (\<forall>j < 1024. m (pt + 4 * of_nat j) AND PTE_P \<noteq> 0 \<longrightarrow>
         pte_get_page (m (pt + 4 * of_nat j)) = Some (table_of (m (pt + 4 * of_nat j))))))"

lemma pages_of_Cons:
  "k < 768 \<Longrightarrow> pages_of m pd k = (if m (pd + 4 * of_nat k) AND PTE_P \<noteq> 0
     then frames m (table_of (m (pd + 4 * of_nat k))) 0 @ table_of (m (pd + 4 * of_nat k)) # pages_of m pd (Suc k)
     else pages_of m pd (Suc k))"
  by (simp add: pages_of_def dir_block_def upt_conv_Cons Let_def)

lemma table_in_pages:
  "k \<le> i \<Longrightarrow> i < 768 \<Longrightarrow> m (pd + 4 * of_nat i) AND PTE_P \<noteq> 0 \<Longrightarrow>
   table_of (m (pd + 4 * of_nat i)) \<in> set (pages_of m pd k)"
  by (force simp: pages_of_def dir_block_def Let_def)

lemma unchanged_dir:
  assumes pd: "pg_ofs pd = 0" and val: "dir_valid m pd k"
    and same: "\<And>a. pg_round_down a = pd \<or> pg_round_down a \<in> set (pages_of m pd k) \<Longrightarrow> m' a = m a"
  shows "pages_of m' pd k = pages_of m pd k" "dir_valid m' pd k"
proof -
  have e: "m' (pd + 4 * of_nat i) = m (pd + 4 * of_nat i)" if "i < 768" for i
    using entry_page(1) [OF pd, of "of_nat i"] same that by (simp add: unat_of_nat_1024)
  have t: "m' a = m a" if "k \<le> i" "i < 768" "m (pd + 4 * of_nat i) AND PTE_P \<noteq> 0"
    "pg_round_down a = table_of (m (pd + 4 * of_nat i))" for i a
    using same table_in_pages [of k i m pd] that by simp
  have al: "pg_ofs (table_of (m (pd + 4 * of_nat i))) = 0"
    if "k \<le> i" "i < 768" "m (pd + 4 * of_nat i) AND PTE_P \<noteq> 0" for i
    using val that by (auto simp: dir_valid_def Let_def)
  have "frames m' (table_of (m (pd + 4 * of_nat i))) 0 = frames m (table_of (m (pd + 4 * of_nat i))) 0"
    if "k \<le> i" "i < 768" "m (pd + 4 * of_nat i) AND PTE_P \<noteq> 0" for i
    using frames_cong [OF al [OF that]] t [OF that] by blast
  then show "pages_of m' pd k = pages_of m pd k"
    unfolding pages_of_def by (intro arg_cong [of _ _ concat] map_cong) (auto simp: dir_block_def e Let_def)
  have "m' (table_of (m (pd + 4 * of_nat i)) + 4 * of_nat j) = m (table_of (m (pd + 4 * of_nat i)) + 4 * of_nat j)"
    if "k \<le> i" "i < 768" "m (pd + 4 * of_nat i) AND PTE_P \<noteq> 0" "j < 1024" for i j
    using t [OF that(1-3)] entry_page(1) [OF al [OF that(1-3)], of "of_nat j"] that(4) by (simp add: unat_of_nat_1024)
  then show "dir_valid m' pd k" using val by (simp add: dir_valid_def Let_def e)
qed

lemma dir_valid_Suc: "dir_valid m pd k \<Longrightarrow> dir_valid m pd (Suc k)"
  by (simp add: dir_valid_def)

lemma pde_loop_frees:
  assumes pd: "pg_ofs pd = 0" "unat pd + 4096 < 2 ^ 32"
  shows "k \<le> 768 \<Longrightarrow> palloc_ok st \<Longrightarrow> dir_valid (mem st) pd k \<Longrightarrow>
    set (pages_of (mem st) pd k) \<subseteq> palloc_used st - {pd} \<Longrightarrow> distinct (pages_of (mem st) pd k) \<Longrightarrow>
    pde_loop (pd + 4 * of_nat k) (pd + 3072) st = fold_opt palloc_free_page (pages_of (mem st) pd k) st"
proof (induction "768 - k" arbitrary: k st)
  case 0
  then have "\<not> pd + 4 * of_nat k < pd + 3072" using entry_less [OF pd, of k 768] by simp
  with 0 show ?case by (subst pde_loop.simps) (simp add: pages_of_def)
next
  case (Suc d)
  let ?e = "mem st (pd + 4 * of_nat k)"
  let ?t = "table_of ?e" and ?rest = "pages_of (mem st) pd (Suc k)"
  from Suc.hyps(2) have k: "k < 768" and d: "d = 768 - Suc k" by auto
  have lt: "pd + 4 * of_nat k < pd + 3072" using entry_less [OF pd, of k 768] k by simp
  have nxt: "pd + 4 * of_nat k + 4 = pd + 4 * of_nat (Suc k)" by simp
  note val = dir_valid_Suc [OF Suc.prems(3)]
  show ?case
  proof (cases "?e AND PTE_P = 0")
    case True
    then have "pages_of (mem st) pd k = ?rest" using pages_of_Cons [OF k] by simp
    with True show ?thesis
      using Suc.hyps(1) [OF d, of st] Suc.prems val k by (subst pde_loop.simps) (simp add: lt nxt del: of_nat_Suc)
  next
    case False
    let ?B = "frames (mem st) ?t 0 @ [?t]"
    have pg: "pages_of (mem st) pd k = ?B @ ?rest" using pages_of_Cons [OF k] False by simp
    have B: "set ?B \<subseteq> palloc_used st" "distinct ?B" "pd \<notin> set ?B" "set ?B \<inter> set ?rest = {}"
      using Suc.prems(4,5) pg by auto
    have pt: "pde_get_pt ?e = Some ?t" "pg_ofs ?t = 0" "unat ?t + 4096 < 2 ^ 32"
      "\<And>j. j < 1024 \<Longrightarrow> mem st (?t + 4 * of_nat j) AND PTE_P \<noteq> 0 \<Longrightarrow>
         pte_get_page (mem st (?t + 4 * of_nat j)) = Some (table_of (mem st (?t + 4 * of_nat j)))"
      using Suc.prems(3) False k by (auto simp: dir_valid_def Let_def)
    obtain st1 where st1: "fold_opt palloc_free_page ?B st = Some st1" "palloc_ok st1"
        "palloc_used st1 = palloc_used st - set ?B" "\<And>a. pg_round_down a \<notin> set ?B \<Longrightarrow> mem st1 a = mem st a"
      using pal.free_list [OF Suc.prems(2) B(1,2)] by blast
    have "pte_loop ?t (?t + 4096) st = fold_opt palloc_free_page (frames (mem st) ?t 0) st"
      using pte_loop_frees [OF pt(2,3), of 0 st] Suc.prems(2) B pt(4) by auto
    then have step: "do { s \<leftarrow> pte_loop ?t (?t + 4096) st; palloc_free_page ?t s } = Some st1"
      using st1(1) by (simp add: fold_opt_append)
    have same: "mem st1 a = mem st a" if "pg_round_down a = pd \<or> pg_round_down a \<in> set ?rest" for a
      using that st1(4) B(3,4) by blast
    note u = unchanged_dir [OF pd(1) val same]
    have "pde_loop (pd + 4 * of_nat (Suc k)) (pd + 3072) st1 = fold_opt palloc_free_page ?rest st1"
      using Suc.hyps(1) [OF d, of st1] u k st1(2,3) Suc.prems(4,5) B(4) unfolding pg by auto
    then show ?thesis
      using False pt(1) step st1(1) unfolding pg fold_opt_append
      by (subst pde_loop.simps) (simp add: lt nxt del: of_nat_Suc)
  qed
qed

text \<open>The page tables and the frames of the user part of a directory.\<close>

definition user_frames :: "mmu \<Rightarrow> addr \<Rightarrow> addr set" where
  "user_frames st pd = {table_of (pte_of st pd va) |va. is_user_vaddr va \<and> pte_of st pd va AND PTE_P \<noteq> 0}"

definition owns_frames :: "mmu \<Rightarrow> addr \<Rightarrow> bool" where
  "owns_frames st pd \<longleftrightarrow> user_frames st pd \<subseteq> palloc_used (pal st) - {pd} - user_tables st pd \<and>
     (\<forall>va vb. is_user_vaddr va \<longrightarrow> is_user_vaddr vb \<longrightarrow>
        pte_of st pd va AND PTE_P \<noteq> 0 \<longrightarrow> pte_of st pd vb AND PTE_P \<noteq> 0 \<longrightarrow>
        table_of (pte_of st pd va) = table_of (pte_of st pd vb) \<longrightarrow> pg_no va = pg_no vb)"

definition user_page :: "nat \<Rightarrow> nat \<Rightarrow> addr" where
  "user_page i j = of_nat (2 ^ 22 * i + 4096 * j)"

lemma user_page_index:
  assumes "i < 768" "j < 1024"
  shows "pd_no (user_page i j) = of_nat i" "pt_no (user_page i j) = of_nat j" "is_user_vaddr (user_page i j)"
proof -
  have u: "unat (user_page i j) = 2 ^ 22 * i + 4096 * j"
    using assms unat_of_nat [where 'a = 32, of "2 ^ 22 * i + 4096 * j"] unfolding user_page_def
    by (simp add: take_bit_eq_mod del: of_nat_add of_nat_mult)
  have q: "(2 ^ 22 * i + 4096 * j) div 2 ^ 22 = i" "(2 ^ 22 * i + 4096 * j) div 4096 mod 1024 = j"
    using assms by (auto intro!: div_nat_eqI)
  then show pd: "pd_no (user_page i j) = of_nat i" and "pt_no (user_page i j) = of_nat j"
    using assms by (auto simp: word_unat_eq_iff unat_pd_no unat_pt_no u unat_of_nat take_bit_eq_mod)
  show "is_user_vaddr (user_page i j)" using pd assms by (simp add: user_pd_no unat_of_nat_1024)
qed

lemma user_page_cases:
  assumes "is_user_vaddr va"
  obtains i j where "i < 768" "j < 1024" "pd_no va = of_nat i" "pt_no va = of_nat j"
  using assms table_index(2) [of va] that [of "unat (pd_no va)" "unat (pt_no va)"] by (simp add: user_pd_no)

lemma user_entries:
  assumes wf: "pd_wf st pd" and ij: "i < 768" "j < 1024"
  shows "pde_of st pd (user_page i j) = load st (pd + 4 * of_nat i)"
    "load st (pd + 4 * of_nat i) AND PTE_P \<noteq> 0 \<longleftrightarrow> load st (pd + 4 * of_nat i) \<noteq> 0"
    "load st (pd + 4 * of_nat i) \<noteq> 0 \<Longrightarrow>
       pte_of st pd (user_page i j) = load st (table_of (load st (pd + 4 * of_nat i)) + 4 * of_nat j)"
proof -
  show e: "pde_of st pd (user_page i j) = load st (pd + 4 * of_nat i)" using user_page_index [OF ij] by (simp add: pde_of_def)
  have "load st (pd + 4 * of_nat i) AND PTE_P \<noteq> 0" if "load st (pd + 4 * of_nat i) \<noteq> 0"
    using pd_wfD(7) [OF wf user_page_index(3) [OF ij]] that
    by (auto simp: e pde_get_pt_def bind_eq_Some_conv ASSERT_def split: if_splits)
  then show "load st (pd + 4 * of_nat i) AND PTE_P \<noteq> 0 \<longleftrightarrow> load st (pd + 4 * of_nat i) \<noteq> 0" by auto
  show "pte_of st pd (user_page i j) = load st (table_of (load st (pd + 4 * of_nat i)) + 4 * of_nat j)"
    if "load st (pd + 4 * of_nat i) \<noteq> 0"
    using that user_page_index [OF ij] by (simp add: pte_of_def pte_addr_def e)
qed

lemma dir_valid_wf:
  assumes wf: "pd_wf st pd"
  shows "dir_valid (mem (pal st)) pd 0"
  unfolding dir_valid_def Let_def
proof (intro allI impI)
  fix i assume i: "i < 768" and P: "load st (pd + 4 * of_nat i) AND PTE_P \<noteq> 0"
  let ?e = "load st (pd + 4 * of_nat i)"
  have ne: "?e \<noteq> 0" using P by auto
  have 0: "(0::nat) < 1024" by simp
  note u = user_page_index(3) [OF i 0] and e = user_entries [OF wf i]
  have pde: "pde_of st pd (user_page i 0) = ?e" by (rule e(1) [OF 0])
  have "table_of ?e \<in> palloc_used (pal st)" using pd_wfD(8) [OF wf u] pde ne by simp
  then have pg: "pg_ofs (table_of ?e) = 0" "unat (table_of ?e) + 4096 < 2 ^ 32"
    using pal.used_page [OF pd_wfD(1) [OF wf]] by auto
  have "pte_get_page (load st (table_of ?e + 4 * of_nat j)) = Some (table_of (load st (table_of ?e + 4 * of_nat j)))"
    if j: "j < 1024" and "load st (table_of ?e + 4 * of_nat j) AND PTE_P \<noteq> 0" for j
    using pd_wfD(10) [OF wf user_page_index(3) [OF i j]] e(3) [OF j ne] that(2) by simp
  with pg pd_wfD(7) [OF wf u] pde ne show "pde_get_pt ?e = Some (table_of ?e) \<and> pg_ofs (table_of ?e) = 0 \<and>
      unat (table_of ?e) + 4096 < 2 ^ 32 \<and>
      (\<forall>j<1024. load st (table_of ?e + 4 * of_nat j) AND PTE_P \<noteq> 0 \<longrightarrow>
        pte_get_page (load st (table_of ?e + 4 * of_nat j)) = Some (table_of (load st (table_of ?e + 4 * of_nat j))))"
    by simp
qed

lemma set_dir_block:
  assumes wf: "pd_wf st pd" and i: "i < 768"
  shows "x \<in> set (dir_block (mem (pal st)) pd i) \<longleftrightarrow> pde_of st pd (user_page i 0) \<noteq> 0 \<and>
    (x = table_of (pde_of st pd (user_page i 0)) \<or>
     (\<exists>j < 1024. pte_of st pd (user_page i j) AND PTE_P \<noteq> 0 \<and> x = table_of (pte_of st pd (user_page i j))))"
  using user_entries(1,3) [OF wf i] user_entries(2) [OF wf i, of 0] by (auto simp: dir_block_def frames_def Let_def)

lemma pte_present_pde: "pte_of st pd va AND PTE_P \<noteq> 0 \<Longrightarrow> pde_of st pd va \<noteq> 0"
  by (auto simp: pte_of_def split: if_splits)

lemma entries_user_page:
  assumes "pd_no va = of_nat i" "pt_no va = of_nat j" "i < 768" "j < 1024"
  shows "k < 1024 \<Longrightarrow> pde_of st pd va = pde_of st pd (user_page i k)"
    "pte_of st pd va = pte_of st pd (user_page i j)"
  using assms user_page_index(1) [OF assms(3)] user_page_index(2) [OF assms(3,4)]
  by (simp_all add: pde_of_def pte_of_def pte_addr_def)

lemma set_pages_of:
  assumes wf: "pd_wf st pd"
  shows "set (pages_of (mem (pal st)) pd 0) = user_tables st pd \<union> user_frames st pd"
proof (intro equalityI subsetI)
  fix x assume "x \<in> set (pages_of (mem (pal st)) pd 0)"
  then obtain i where i: "i < 768" and x: "x \<in> set (dir_block (mem (pal st)) pd i)"
    by (auto simp: pages_of_def)
  from x [unfolded set_dir_block [OF wf i]] show "x \<in> user_tables st pd \<union> user_frames st pd"
    using user_page_index(3) [OF i] by (auto simp: user_tables_def user_frames_def)
next
  fix x assume "x \<in> user_tables st pd \<union> user_frames st pd"
  then obtain va where va: "is_user_vaddr va" "pde_of st pd va \<noteq> 0" "x = table_of (pde_of st pd va) \<or>
      pte_of st pd va AND PTE_P \<noteq> 0 \<and> x = table_of (pte_of st pd va)"
    by (auto simp: user_tables_def user_frames_def dest: pte_present_pde)
  obtain i j where ij: "i < 768" "j < 1024" "pd_no va = of_nat i" "pt_no va = of_nat j"
    using user_page_cases [OF va(1)] by blast
  have "x \<in> set (dir_block (mem (pal st)) pd i)"
    unfolding set_dir_block [OF wf ij(1)]
    using va(2,3) entries_user_page(1) [OF ij(3,4,1,2), of 0 st pd] entries_user_page(2) [OF ij(3,4,1,2), of st pd] ij(2)
    by auto
  with ij(1) show "x \<in> set (pages_of (mem (pal st)) pd 0)" by (auto simp: pages_of_def)
qed

lemma of_nat_index:
  assumes "(of_nat i :: u32) = of_nat i'" "i < 1024" "i' < 1024"
  shows "i = i'"
  using arg_cong [OF assms(1), of unat] assms(2,3) by (simp add: unat_of_nat_1024)

lemma user_page_eq:
  assumes "i < 768" "j < 1024" "i' < 768" "j' < 1024" "pg_no (user_page i j) = pg_no (user_page i' j')"
  shows "i = i'" "j = j'"
proof -
  have "pd_no (user_page i j) = pd_no (user_page i' j')" "pt_no (user_page i j) = pt_no (user_page i' j')"
    using assms(5) unfolding pg_no_eq_iff by (rule conjunct1, rule conjunct2)
  then have "(of_nat i :: u32) = of_nat i'" "(of_nat j :: u32) = of_nat j'"
    unfolding user_page_index [OF assms(1,2)] user_page_index [OF assms(3,4)] .
  then show "i = i'" "j = j'" using assms by (auto intro: of_nat_index)
qed

lemma owns_framesD:
  assumes own: "owns_frames st pd" and i: "i < 768" "j < 1024" "pte_of st pd (user_page i j) AND PTE_P \<noteq> 0"
  shows "table_of (pte_of st pd (user_page i j)) \<notin> user_tables st pd"
    "i' < 768 \<Longrightarrow> j' < 1024 \<Longrightarrow> pte_of st pd (user_page i' j') AND PTE_P \<noteq> 0 \<Longrightarrow>
       table_of (pte_of st pd (user_page i j)) = table_of (pte_of st pd (user_page i' j')) \<Longrightarrow> i = i' \<and> j = j'"
proof -
  note u = user_page_index(3) [OF i(1,2)]
  then have "table_of (pte_of st pd (user_page i j)) \<in> user_frames st pd" using i(3) by (auto simp: user_frames_def)
  then show "table_of (pte_of st pd (user_page i j)) \<notin> user_tables st pd" using own by (auto simp: owns_frames_def)
  assume i': "i' < 768" "j' < 1024" "pte_of st pd (user_page i' j') AND PTE_P \<noteq> 0"
    and eq: "table_of (pte_of st pd (user_page i j)) = table_of (pte_of st pd (user_page i' j'))"
  have "pg_no (user_page i j) = pg_no (user_page i' j')"
    using own [unfolded owns_frames_def] u user_page_index(3) [OF i'(1,2)] i(3) i'(3) eq by blast
  then show "i = i' \<and> j = j'" using user_page_eq [OF i(1,2) i'(1,2)] by blast
qed

lemma distinct_pages_of:
  assumes wf: "pd_wf st pd" and own: "owns_frames st pd"
  shows "distinct (pages_of (mem (pal st)) pd 0)"
  unfolding pages_of_def
proof (rule distinct_concat_map)
  fix i assume "i \<in> set [0..<768::nat]"
  then have i: "i < 768" by simp
  let ?t = "table_of (load st (pd + 4 * of_nat i))"
  note e = user_entries [OF wf i]
  have "distinct (frames (mem (pal st)) ?t 0) \<and> ?t \<notin> set (frames (mem (pal st)) ?t 0)"
    if ne: "load st (pd + 4 * of_nat i) \<noteq> 0"
  proof -
    have t: "?t \<in> user_tables st pd"
      using user_page_index(3) [OF i, of 0] e(1) [of 0] ne by (force simp: user_tables_def)
    have "inj_on (\<lambda>j. table_of (load st (?t + 4 * of_nat j)))
        {j. j < 1024 \<and> load st (?t + 4 * of_nat j) AND PTE_P \<noteq> 0}"
      using owns_framesD(2) [OF own i _ _ i] e(3) [OF _ ne] by (auto intro!: inj_onI)
    then have "distinct (frames (mem (pal st)) ?t 0)" by (simp add: frames_def distinct_map)
    moreover have "set (frames (mem (pal st)) ?t 0) \<inter> user_tables st pd = {}"
      using owns_framesD(1) [OF own i] e(3) [OF _ ne] by (auto simp: frames_def)
    ultimately show ?thesis using t by blast
  qed
  then show "distinct (dir_block (mem (pal st)) pd i)"
    using e(2) [of 0] by (auto simp: dir_block_def Let_def)
next
  fix i i' assume "i \<in> set [0..<768::nat]" "i' \<in> set [0..<768::nat]"
    and ne: "set (dir_block (mem (pal st)) pd i) \<inter> set (dir_block (mem (pal st)) pd i') \<noteq> {}"
  then have i: "i < 768" and i': "i' < 768" by simp_all
  have tab: "table_of (pde_of st pd (user_page k 0)) \<in> user_tables st pd"
    if "k < 768" "pde_of st pd (user_page k 0) \<noteq> 0" for k
    using user_page_index(3) [OF that(1), of 0] that(2) by (force simp: user_tables_def)
  have tt: "i = i'" if "pde_of st pd (user_page i 0) \<noteq> 0" "pde_of st pd (user_page i' 0) \<noteq> 0"
    "table_of (pde_of st pd (user_page i 0)) = table_of (pde_of st pd (user_page i' 0))"
  proof -
    have z: "(0::nat) < 1024" by simp
    have "pd_no (user_page i 0) = pd_no (user_page i' 0)"
      by (rule pd_wfD(9) [OF wf user_page_index(3) [OF i z] user_page_index(3) [OF i' z] that])
    then have "(of_nat i :: u32) = of_nat i'"
      unfolding user_page_index(1) [OF i z] user_page_index(1) [OF i' z] .
    then show ?thesis using i i' by (intro of_nat_index) simp_all
  qed
  from ne obtain x where "x \<in> set (dir_block (mem (pal st)) pd i)" "x \<in> set (dir_block (mem (pal st)) pd i')" by blast
  then show "i = i'"
    unfolding set_dir_block [OF wf i] set_dir_block [OF wf i']
    using tt tab [OF i] tab [OF i'] owns_framesD(1) [OF own i] owns_framesD(1) [OF own i']
      owns_framesD(2) [OF own i _ _ i'] by metis
qed simp

section \<open>Properties\<close>

text \<open>
  A machine whose only page in use, the first of the kernel pool, holds an empty page directory
  that is active.
\<close>

definition demo_mmu :: mmu where
  "demo_mmu = \<lparr>pal = demo_palloc\<lparr>mem := \<lambda>_. 0\<rparr>, base_page_dir = 0xc0000000, ram_pages = 64,
     cr3 = 0x00010000, tlb = Map.empty\<rparr>"

lemma demo_pd_wf: "pd_wf demo_mmu 0xc0010000" "cpu_ok demo_mmu" "pde_of demo_mmu pd va = 0" "pte_of demo_mmu pd va = 0"
proof -
  show pde: "pde_of demo_mmu pd va = 0" and pte: "pte_of demo_mmu pd va = 0" for pd va
    by (simp_all add: demo_mmu_def pde_of_def pte_of_def)
  have "palloc_ok demo_palloc" using demo_palloc_rep by (simp add: palloc_rep_bits)
  moreover have "0xc0010000 \<in> palloc_used demo_palloc"
    by (auto simp: palloc_used_def used_pages_def page_at_def demo_palloc_def bits_of_def bit_at_def intro!: image_eqI [of _ _ 0])
  ultimately show "pd_wf demo_mmu 0xc0010000"
    using pde pte pal.wr(2,3) [of "\<lambda>_. 0" demo_palloc]
    by (simp add: pd_wf_def tables_wf_def) (simp add: demo_mmu_def)
  show "cpu_ok demo_mmu" by (simp add: cpu_ok_def demo_mmu_def is_kernel_vaddr_def PHYS_BASE_def)
qed

text \<open>Installing a mapping: what the directory and the memory are afterwards.\<close>

lemma set_page_cases:
  assumes wf: "pd_wf st pd" and up: "is_user_vaddr upage" "pg_ofs upage = 0"
    and kp: "is_kernel_vaddr kpage" "pg_ofs kpage = 0" "drop_bit 12 (kpage - PHYS_BASE) < ram_pages st"
    and free: "pte_of st pd upage AND PTE_P = 0"
  obtains (full) "pagedir_set_page pd upage kpage w st = Some (False, st)" "pde_of st pd upage = 0"
      "palloc_get_page PAL_ZERO (pal st) = Some (0, pal st)"
  | (mapped) st' e where "pagedir_set_page pd upage kpage w st = Some (True, st')" "pd_wf st' pd"
      "table_of e = kpage" "e AND PTE_P \<noteq> 0" "e AND PTE_W \<noteq> 0 \<longleftrightarrow> w"
      "\<And>va. is_user_vaddr va \<Longrightarrow> pte_of st' pd va = (if pg_no va = pg_no upage then e else pte_of st pd va)"
      "palloc_used (pal st) \<subseteq> palloc_used (pal st')" "cr3 st' = cr3 st"
      "\<And>a. pg_round_down a \<in> palloc_used (pal st) - {pd} - user_tables st pd \<Longrightarrow> load st' a = load st a"
proof -
  have pre: "pagedir_set_page pd upage kpage w st = do {
      (pte, st) \<leftarrow> lookup_page pd upage True st;
      if pte \<noteq> 0 then do {
        ASSERT (load st pte AND PTE_P = 0);
        e \<leftarrow> pte_create_user kpage w;
        Some (True, store pte e st) }
      else Some (False, st) }"
    using up kp vtop_ptov(1) [OF kp(1)] pd_wfD(6) [OF wf] by (simp add: pagedir_set_page_def PGBITS_def)
  obtain e where e: "pte_create_user kpage w = Some e" "e AND PTE_ADDR = kpage - PHYS_BASE"
      "pte_get_page e = Some kpage" "e AND PTE_P \<noteq> 0" "e AND PTE_W \<noteq> 0 \<longleftrightarrow> w"
    using pte_create_user_spec [OF kp(1,2)] by blast
  have te: "table_of e = kpage" using e(2) by (simp add: table_of_def)
  show thesis
  proof (cases rule: lookup_create [OF wf up(1)])
    case 1
    then show thesis by (intro full) (simp_all add: pre)
  next
    case (2 st1)
    let ?st = "store (pte_addr st1 pd upage) e st1"
    have n: "pte_addr st1 pd upage \<noteq> 0" by (rule pd_wf_table(4) [OF 2(2) up(1) 2(3)])
    have "load st1 (pte_addr st1 pd upage) = pte_of st pd upage"
      using 2(4) [OF up(1)] 2(3) by (simp add: pte_of_def)
    then have run: "pagedir_set_page pd upage kpage w st = Some (True, ?st)"
      using 2(1) n free e(1) by (simp add: pre)
    have wf': "pd_wf ?st pd" using pd_wf_store_pte [OF 2(2) up(1) 2(3)] e(3) te by simp
    have pte: "pte_of ?st pd va = (if pg_no va = pg_no upage then e else pte_of st pd va)"
      if "is_user_vaddr va" for va
      using pte_of_store_pte [OF 2(2) up(1) 2(3) that, of e] 2(4) [OF that] by simp
    have page: "pg_round_down (pte_addr st1 pd upage) = table_of (pde_of st1 pd upage)"
      unfolding pte_addr_def by (rule entry_page(1)) (simp_all add: pd_wf_table(1) [OF 2(2) up(1) 2(3)])
    have mem: "load ?st a = load st a" if "pg_round_down a \<in> palloc_used (pal st) - {pd} - user_tables st pd" for a
      using that page 2(9) [of a] 2(10) by auto
    show thesis by (rule mapped [OF run wf' te e(4,5) pte _ _ mem]) (use 2(5,8) in simp_all)
  qed
qed

text \<open>
  C12. \<open>pagedir_set_page\<close> on an unmapped user page installs the mapping, unless a page table is needed
  for it and the allocation of one fails because every page of the kernel pool is in use: only then
  it returns false, with the state unchanged.  After success
  \<open>pagedir_get_page\<close> translates every address of the page to the same offset of the given frame, the
  page is writable exactly as asked, every other user page has the entry it had before, and the
  directory is still well formed.
\<close>

theorem pagedir_set_page_maps:
  assumes wf: "pd_wf st pd" and up: "is_user_vaddr upage" "pg_ofs upage = 0"
    and kp: "is_kernel_vaddr kpage" "pg_ofs kpage = 0" "drop_bit 12 (kpage - PHYS_BASE) < ram_pages st"
    and free: "pte_of st pd upage AND PTE_P = 0"
  shows "(\<exists>st'. pagedir_set_page pd upage kpage w st = Some (True, st') \<and> pd_wf st' pd \<and>
      pagedir_is_writable pd upage st' = Some w \<and>
      (\<forall>va. pg_no va = pg_no upage \<longrightarrow>
         (\<exists>st''. pagedir_get_page pd va st' = Some (kpage + pg_ofs va, st''))) \<and>
      (\<forall>va. is_user_vaddr va \<longrightarrow> pg_no va \<noteq> pg_no upage \<longrightarrow> pte_of st' pd va = pte_of st pd va)) \<or>
    pagedir_set_page pd upage kpage w st = Some (False, st) \<and> pde_of st pd upage = 0 \<and>
      palloc_get_page PAL_ZERO (pal st) = Some (0, pal st) \<and>
      False \<notin> set (bits_of (used_map (kernel_pool (pal st))))"
proof (cases rule: set_page_cases [OF wf up kp free, of w])
  case 1
  then show ?thesis using no_kernel_page [OF pd_wfD(1) [OF wf] 1(3)] by simp
next
  case (2 st' e)
  have "\<exists>st''. pagedir_get_page pd va st' = Some (kpage + pg_ofs va, st'')" if "pg_no va = pg_no upage" for va
  proof -
    have "is_user_vaddr va" using up(1) that by (simp add: user_pd_no pg_no_eq_iff)
    with that show ?thesis using get_page_spec [OF 2(2), of va] 2(3,4,6) by simp
  qed
  with 2(1,2,5,6) get_flags(4) [OF 2(2) up(1)] up(1) show ?thesis by auto
qed

theorem pagedir_set_page_maps_witness:
  "\<exists>st'. pagedir_set_page 0xc0010000 0x08048000 0xc0014000 True demo_mmu = Some (True, st') \<and>
    (\<exists>st''. pagedir_get_page 0xc0010000 0x08048123 st' = Some (0xc0014123, st''))"
proof -
  have "map_option fst (pagedir_set_page 0xc0010000 0x08048000 0xc0014000 True demo_mmu) = Some True"
    by code_simp
  then have ne: "pagedir_set_page 0xc0010000 0x08048000 0xc0014000 True demo_mmu \<noteq> Some (False, demo_mmu)" by auto
  have "is_user_vaddr 0x08048000" "pg_ofs 0x08048000 = 0" "is_kernel_vaddr 0xc0014000" "pg_ofs 0xc0014000 = 0"
    "drop_bit 12 (0xc0014000 - PHYS_BASE) < ram_pages demo_mmu" "pg_no 0x08048123 = pg_no 0x08048000"
    "pg_ofs 0x08048123 = 0x123"
    by (simp_all add: is_user_vaddr_def is_kernel_vaddr_def PHYS_BASE_def pg_ofs_def PGMASK_def BITMASK_def
        PGBITS_def pg_no_def demo_mmu_def)
  then show ?thesis
    using pagedir_set_page_maps [OF demo_pd_wf(1), of "0x08048000" "0xc0014000" True] ne demo_pd_wf(4)
    by (auto dest!: spec [of _ "0x08048123"])
qed

text \<open>A directory that maps the page 0x08048000 to the only frame of the user pool.\<close>

definition demo_mapped :: mmu where
  "demo_mapped = demo_mmu\<lparr>pal :=
     \<lparr>kernel_pool = \<lparr>used_map = \<lparr>bit_cnt = 4, bits = [3]\<rparr>, used_map_at = 0xc000e000, base = 0xc0010000\<rparr>,
      user_pool = \<lparr>used_map = \<lparr>bit_cnt = 1, bits = [1]\<rparr>, used_map_at = 0xc000f000, base = 0xc0014000\<rparr>,
      mem = (\<lambda>_. 0)(0xc0010080 := 0x00011007, 0xc0011120 := 0x00014007)\<rparr>\<rparr>"

lemma demo_mapped_entries:
  "pde_of demo_mapped 0xc0010000 va = (if pd_no va = 32 then 0x00011007 else 0)"
  "pte_of demo_mapped 0xc0010000 va = (if pd_no va = 32 \<and> pt_no va = 72 then 0x00014007 else 0)"
proof -
  have al: "pg_ofs 0xc0010000 = 0" "pg_ofs 0xc0011000 = 0" by (simp_all add: pg_ofs_0)
  have ld: "load demo_mapped a = (if a = 0xc0011120 then 0x00014007 else if a = 0xc0010080 then 0x00011007 else 0)" for a
    by (simp add: demo_mapped_def)
  have "0xc0010000 + 4 * pd_no va = 0xc0010080 \<longleftrightarrow> pd_no va = 32" "0xc0010000 + 4 * pd_no va \<noteq> 0xc0011120"
    using entry_eq [OF al(1,1), of "pd_no va" 32] entry_eq [OF al(1,2), of "pd_no va" 72] by simp_all
  then show e: "pde_of demo_mapped 0xc0010000 va = (if pd_no va = 32 then 0x00011007 else 0)"
    by (simp add: pde_of_def ld)
  have "0xc0011000 + 4 * pt_no va = 0xc0011120 \<longleftrightarrow> pt_no va = 72" "0xc0011000 + 4 * pt_no va \<noteq> 0xc0010080"
    using entry_eq [OF al(2,2), of "pt_no va" 72] entry_eq [OF al(2,1), of "pt_no va" 32] by simp_all
  then show "pte_of demo_mapped 0xc0010000 va = (if pd_no va = 32 \<and> pt_no va = 72 then 0x00014007 else 0)"
    by (simp add: pte_of_def e pte_addr_def ld table_of_def PTE_ADDR_def PHYS_BASE_def)
qed

lemma demo_mapped_used: "palloc_ok (pal demo_mapped)" "palloc_used (pal demo_mapped) = {0xc0010000, 0xc0011000, 0xc0014000}"
proof -
  have bits: "bits_of \<lparr>bit_cnt = 4, bits = [3]\<rparr> = [True, True, False, False]"
    "bits_of \<lparr>bit_cnt = 1, bits = [1]\<rparr> = [True]"
    by (simp_all add: bits_of_def bit_at_def upt_rec)
  show "palloc_ok (pal demo_mapped)"
    by (simp add: palloc_ok_def palloc_rep_def pool_rep_def demo_mapped_def bitmap_rep_def bits
      used_map_end_def bitmap_buf_size_def byte_cnt_def elem_cnt_def DIV_ROUND_UP_def
      is_kernel_vaddr_def PHYS_BASE_def pg_ofs_0)
  have "used_pages p [True, True, False, False] = {page_at p 0, page_at p 1}"
    "used_pages p [True] = {page_at p 0}" for p
    unfolding used_pages_def by (auto simp: nth_Cons' le_Suc_eq split: if_splits)
  then show "palloc_used (pal demo_mapped) = {0xc0010000, 0xc0011000, 0xc0014000}"
    by (simp add: palloc_used_def demo_mapped_def bits page_at_def insert_commute)
qed

lemma demo_mapped_wf: "pd_wf demo_mapped 0xc0010000" "cpu_ok demo_mapped" "owns_frames demo_mapped 0xc0010000"
  "user_tables demo_mapped 0xc0010000 = {0xc0011000}" "user_frames demo_mapped 0xc0010000 = {0xc0014000}"
proof -
  have t: "table_of 0x00011007 = 0xc0011000" "table_of 0x00014007 = 0xc0014000"
    by (simp_all add: table_of_def PTE_ADDR_def PHYS_BASE_def)
  have d: "pde_get_pt 0x00011007 = Some 0xc0011000" "pte_get_page 0x00014007 = Some 0xc0014000" "0x00014007 AND PTE_P \<noteq> 0"
    by (simp_all add: pde_get_pt_def pte_get_page_def ptov_def PTE_P_def PTE_ADDR_def PHYS_BASE_def)
  have u: "is_user_vaddr 0x08048000" "pd_no 0x08048000 = 32" "pt_no 0x08048000 = 72"
    by (simp_all add: is_user_vaddr_def PHYS_BASE_def pd_no_def pt_no_def PGBITS_def PTBITS_def PTMASK_def BITMASK_def)
  show "pd_wf demo_mapped 0xc0010000"
    by (simp add: pd_wf_def tables_wf_def demo_mapped_entries demo_mapped_used t d) (simp add: demo_mapped_def demo_mmu_def)
  show "cpu_ok demo_mapped" using demo_pd_wf(2) by (simp add: cpu_ok_def demo_mapped_def)
  show tab: "user_tables demo_mapped 0xc0010000 = {0xc0011000}"
    using u t(1) by (auto simp: user_tables_def demo_mapped_entries split: if_splits intro!: exI [of _ "0x08048000"])
  show fr: "user_frames demo_mapped 0xc0010000 = {0xc0014000}"
    using u t(2) d(3) by (auto simp: user_frames_def demo_mapped_entries split: if_splits intro!: exI [of _ "0x08048000"])
  show "owns_frames demo_mapped 0xc0010000"
    by (auto simp: owns_frames_def tab fr demo_mapped_used demo_mapped_entries pg_no_eq_iff split: if_splits)
qed

text \<open>
  Each of \<open>pagedir_set_accessed\<close>, \<open>pagedir_set_dirty\<close> and \<open>pagedir_set_stack\<close> on a page with a page
  table sets its own bit to the given value, as the matching test function then reports, and changes
  nothing else: no other bit of the entry, no other entry, no other memory.  The translation
  buffer stays coherent when the directory is the active one.
\<close>

theorem pagedir_flag_updates:
  assumes "pd_wf st pd" "cpu_ok st" "is_user_vaddr va" "pde_of st pd va \<noteq> 0"
  shows "(\<exists>st'. pagedir_set_accessed pd va b st = Some st' \<and> pagedir_is_accessed pd va st' = Some b \<and>
      entry_updated st st' pd va (with_flag PTE_A b (pte_of st pd va))) \<and>
    (\<exists>st'. pagedir_set_dirty pd va b st = Some st' \<and> pagedir_is_dirty pd va st' = Some b \<and>
      entry_updated st st' pd va (with_flag PTE_D b (pte_of st pd va))) \<and>
    (\<exists>st'. pagedir_set_stack pd va b st = Some st' \<and> pagedir_is_stack pd va st' = Some b \<and>
      entry_updated st st' pd va (with_flag PTE_S b (pte_of st pd va)))"
  using entry_updated_flag [OF assms(1,3,4,2) flag_bits(5) _ _ rights_with_flag(1) set_flags(1) [OF assms(1,3), of b]]
    entry_updated_flag [OF assms(1,3,4,2) flag_bits(6) _ _ rights_with_flag(2) set_flags(2) [OF assms(1,3), of b]]
    entry_updated_flag [OF assms(1,3,4,2) flag_bits(4) _ _ rights_with_flag(3) set_flags(3) [OF assms(1,3), of b]]
    get_flags [OF _ assms(3)] assms(2) by auto

theorem pagedir_flag_updates_witness:
  "\<exists>st'. pagedir_set_dirty 0xc0010000 0x08048000 True demo_mapped = Some st' \<and>
    pagedir_is_dirty 0xc0010000 0x08048000 st' = Some True \<and>
    pte_of st' 0xc0010000 0x08048000 = 0x00014047"
proof -
  have u: "is_user_vaddr 0x08048000" "pd_no 0x08048000 = 32" "pt_no 0x08048000 = 72"
    by (simp_all add: is_user_vaddr_def PHYS_BASE_def pd_no_def pt_no_def PGBITS_def PTBITS_def PTMASK_def BITMASK_def)
  then show ?thesis
    using pagedir_flag_updates [OF demo_mapped_wf(1,2) u(1), of True]
    by (auto simp: demo_mapped_entries entry_updated_def with_flag_def PTE_D_def)
qed

text \<open>
  C14. \<open>pagedir_clear_page\<close> makes the page absent: \<open>pagedir_get_page\<close> then returns the null pointer, the
  other bits of the entry, all other entries and all other memory are as before, and when the
  directory is active the translation buffer, if coherent before, is coherent and holds no
  translation for the page.
\<close>

theorem pagedir_clear_page_unmaps:
  assumes wf: "pd_wf st pd" and cpu: "cpu_ok st" and va: "is_user_vaddr upage" "pg_ofs upage = 0"
  shows "\<exists>st'. pagedir_clear_page pd upage st = Some st' \<and>
    entry_updated st st' pd upage (with_flag PTE_P False (pte_of st pd upage)) \<and>
    (\<exists>st''. pagedir_get_page pd upage st' = Some (0, st'')) \<and>
    (cr3 st + PHYS_BASE = pd \<longrightarrow> tlb_coherent st \<longrightarrow> tlb st' (pg_no upage) = None)"
proof (cases "pte_of st pd upage AND PTE_P = 0")
  case True
  have same: "pte_of st pd vb = pte_of st pd upage" if "pg_no vb = pg_no upage" for vb
    using that by (simp add: pg_no_eq_iff pte_of_def pte_addr_def pde_of_def)
  have "with_flag PTE_P False (pte_of st pd upage) = pte_of st pd upage"
    using True and_exp_eq_0_iff_not_bit [of "pte_of st pd upage" 0]
    by (intro bit_word_eqI) (auto simp: with_flag_def flag_bits bit_simps intro!: gr0I)
  then have "entry_updated st st pd upage (with_flag PTE_P False (pte_of st pd upage))"
    unfolding entry_updated_def using wf by (simp add: wf) (use same in blast)
  moreover have "tlb st (pg_no upage) = None" if "cr3 st + PHYS_BASE = pd" "tlb_coherent st"
  proof (rule ccontr)
    assume "tlb st (pg_no upage) \<noteq> None"
    then obtain q where "tlb st (pg_no upage) = Some q" by blast
    then have q: "q AND PTE_P \<noteq> 0" "rights q = rights (pte_of st pd upage)"
      using that(2) [unfolded tlb_coherent_def that(1)] va(1) by blast+
    have "rights r AND PTE_P = r AND PTE_P" for r by (simp add: rights_def PTE_ADDR_def PTE_P_def PTE_W_def PTE_U_def and.assoc)
    with q True show False by metis
  qed
  ultimately show ?thesis
    using True clear_page_spec [OF wf va cpu] get_page_spec [OF wf va(1)] by auto
next
  case False
  let ?q = "with_flag PTE_P False (pte_of st pd upage)"
  let ?st = "flush pd (store (pte_addr st pd upage) ?q st)"
  have ne: "pde_of st pd upage \<noteq> 0" by (rule pte_present_pde [OF False])
  have q: "?q AND PTE_P = 0" using with_flag_bit [of 0 0 False "pte_of st pd upage"] by (simp add: flag_bits)
  have wf': "pd_wf ?st pd" using pd_wf_store_pte [OF wf va(1) ne] q by simp
  have "entry_updated st ?st pd upage ?q"
    using wf' pte_of_store_pte [OF wf va(1) ne] tlb_coherent_flush [of "store (pte_addr st pd upage) ?q st" pd]
    by (auto simp: entry_updated_def)
  moreover have "cr3 st + PHYS_BASE = pd \<Longrightarrow> tlb ?st (pg_no upage) = None" by (simp add: flush_def)
  ultimately show ?thesis
    using False clear_page_spec [OF wf va cpu] get_page_spec [OF wf' va(1)] q pte_of_store_pte [OF wf va(1) ne va(1)]
    by auto
qed

theorem pagedir_clear_page_unmaps_witness:
  "\<exists>st'. pagedir_clear_page 0xc0010000 0x08048000 demo_mapped = Some st' \<and> pte_of st' 0xc0010000 0x08048000 = 0x00014006"
proof -
  have u: "is_user_vaddr 0x08048000" "pg_ofs 0x08048000 = 0" "pd_no 0x08048000 = 32" "pt_no 0x08048000 = 72"
    by (simp_all add: is_user_vaddr_def PHYS_BASE_def pg_ofs_0 pd_no_def pt_no_def PGBITS_def PTBITS_def PTMASK_def BITMASK_def)
  then show ?thesis
    using pagedir_clear_page_unmaps [OF demo_mapped_wf(1,2) u(1,2)]
    by (auto simp: demo_mapped_entries entry_updated_def with_flag_def PTE_P_def)
qed

text \<open>
  C13. \<open>pagedir_destroy\<close> never panics on a directory whose frames are pages in use, distinct from each
  other, from the page tables and from the directory: afterwards exactly the directory, its page
  tables and the mapped frames have been released, and the contents of all other pages are
  untouched.
\<close>

theorem pagedir_destroy_releases:
  assumes wf: "pd_wf st pd" and own: "owns_frames st pd"
  shows "\<exists>st'. pagedir_destroy pd st = Some st' \<and> palloc_ok (pal st') \<and>
    palloc_used (pal st') = palloc_used (pal st) - {pd} - user_tables st pd - user_frames st pd \<and>
    (\<forall>a. pg_round_down a \<notin> insert pd (user_tables st pd \<union> user_frames st pd) \<longrightarrow> load st' a = load st a)"
proof -
  let ?ps = "pages_of (mem (pal st)) pd 0"
  note ok = pd_wfD(1) [OF wf]
  have pd: "pg_ofs pd = 0" "unat pd + 4096 < 2 ^ 32" using pal.used_page [OF ok pd_wfD(2) [OF wf]] by auto
  have sub: "set ?ps \<subseteq> palloc_used (pal st) - {pd}"
    using own pd_wfD(8) [OF wf] unfolding set_pages_of [OF wf]
    by (auto simp: owns_frames_def user_tables_def)
  note dist = distinct_pages_of [OF wf own]
  have "pd + 4 * pd_no PHYS_BASE = pd + 3072" by (simp add: pd_no_def PGBITS_def PTBITS_def PHYS_BASE_def)
  moreover have "pde_loop pd (pd + 3072) (pal st) = fold_opt palloc_free_page ?ps (pal st)"
    using pde_loop_frees [OF pd, of 0] ok dir_valid_wf [OF wf] sub dist by simp
  ultimately have run: "pagedir_destroy pd st =
      map_option (\<lambda>p. st\<lparr>pal := p\<rparr>) (fold_opt palloc_free_page (?ps @ [pd]) (pal st))"
    using pd_wfD(5,6) [OF wf]
    by (simp add: pagedir_destroy_def fold_opt_append bind_map_option map_conv_bind_option comp_def)
  obtain p where "fold_opt palloc_free_page (?ps @ [pd]) (pal st) = Some p" "palloc_ok p"
      "palloc_used p = palloc_used (pal st) - set (?ps @ [pd])"
      "\<forall>a. pg_round_down a \<notin> set (?ps @ [pd]) \<longrightarrow> mem p a = load st a"
    using pal.free_list [OF ok, of "?ps @ [pd]"] sub dist pd_wfD(2) [OF wf] by auto
  then show ?thesis using run set_pages_of [OF wf] by auto
qed

theorem pagedir_destroy_releases_witness:
  "\<exists>st'. pagedir_destroy 0xc0010000 demo_mapped = Some st' \<and> palloc_used (pal st') = {}"
  using pagedir_destroy_releases [OF demo_mapped_wf(1,3)] by (auto simp: demo_mapped_wf demo_mapped_used)

text \<open>
  \<open>pagedir_create\<close> returns the null pointer with the state unchanged, or a fresh page holding a copy
  of the kernel's directory: a well-formed directory in which no user address is mapped.
\<close>

theorem pagedir_create_empty:
  assumes ok: "palloc_ok (pal st)" and bpd: "base_page_dir st \<in> palloc_used (pal st)"
    and empty: "\<And>i. i < 768 \<Longrightarrow> load st (base_page_dir st + 4 * of_nat i) = 0"
  shows "pagedir_create st = Some (0, st) \<or>
    (\<exists>pd st'. pagedir_create st = Some (pd, st') \<and> pd_wf st' pd \<and> pd \<notin> palloc_used (pal st) \<and>
       palloc_used (pal st') = insert pd (palloc_used (pal st)) \<and>
       (\<forall>va. is_user_vaddr va \<longrightarrow> pte_of st' pd va = 0) \<and>
       (\<forall>i < 1024. load st' (pd + 4 * of_nat i) = load st (base_page_dir st + 4 * of_nat i)))"
proof -
  consider "palloc_get_page 0 (pal st) = Some (0, pal st)"
    | pd p where "palloc_get_page 0 (pal st) = Some (pd, p)" "pd \<noteq> 0" "palloc_ok p"
      "pd \<notin> palloc_used (pal st)" "palloc_used p = insert pd (palloc_used (pal st))" "\<And>a. mem p a = load st a"
    using pal.get_page [OF ok, of 0] by auto
  then show ?thesis
  proof cases
    case 1
    then show ?thesis by (simp add: pagedir_create_def)
  next
    case (2 pd p)
    define st' where "st' = st\<lparr>pal := p\<lparr>mem := \<lambda>a. if a - pd < 4096 then mem p (base_page_dir st + (a - pd)) else mem p a\<rparr>\<rparr>"
    have run: "pagedir_create st = Some (pd, st')" using 2(1,2) by (simp add: pagedir_create_def st'_def Let_def)
    have cp: "load st' (pd + 4 * of_nat i) = load st (base_page_dir st + 4 * of_nat i)" if "i < 1024" for i
    proof -
      have "(4 * of_nat i :: u32) < 4096" using that by (simp add: word_less_nat_alt unat_word_ariths unat_of_nat take_bit_eq_mod)
      then show ?thesis by (simp add: st'_def 2(6))
    qed
    have pde: "pde_of st' pd va = 0" if "is_user_vaddr va" for va
      using cp [of "unat (pd_no va)"] empty [of "unat (pd_no va)"] that by (simp add: pde_of_def user_pd_no)
    then have pte: "pte_of st' pd va = 0" if "is_user_vaddr va" for va using that by (simp add: pte_of_def)
    have used: "palloc_used (pal st') = insert pd (palloc_used (pal st))" "palloc_ok (pal st')"
      using 2(3,5) pal.wr(2,3) [of _ p] by (simp_all add: st'_def)
    have "pd_wf st' pd"
      using used pde pte bpd 2(4) by (auto simp: pd_wf_def tables_wf_def st'_def)
    then show ?thesis using run pte used(1) cp 2(4) by blast
  qed
qed

theorem pagedir_create_empty_witness:
  "\<exists>pd st'. pagedir_create (demo_mmu\<lparr>base_page_dir := 0xc0010000\<rparr>) = Some (pd, st') \<and>
    (pd = 0 \<or> pte_of st' pd 0x08048000 = 0)"
proof -
  have "is_user_vaddr 0x08048000" by (simp add: is_user_vaddr_def PHYS_BASE_def)
  moreover have "load demo_mmu a = 0" for a by (simp add: demo_mmu_def)
  ultimately show ?thesis
    using pagedir_create_empty [of "demo_mmu\<lparr>base_page_dir := 0xc0010000\<rparr>"] pd_wfD(1,2) [OF demo_pd_wf(1)] by auto
qed

end
