(* ===== verification/Strings.thy ===== *)
theory Strings
  imports Vaddr
begin

text \<open>
  \<open>lib/string.c\<close>: blocks and null-terminated strings in byte memory.  A pointer is an address, and
  the address 0 is the null pointer.  The counted loops are recursive on the remaining size; the
  loops that run until a null byte are partial functions, which have no result when there is
  none.  \<open>cstr m p xs\<close> says that memory holds the string \<open>xs\<close> at \<open>p\<close>; with it every function is
  characterised by its effect on lists.
\<close>

section \<open>Definitions\<close>

type_synonym bmem = "addr \<Rightarrow> byte"

function copy_up :: "addr \<Rightarrow> addr \<Rightarrow> size_t \<Rightarrow> bmem \<Rightarrow> bmem" where
  "copy_up dst src n m = (if n > 0 then copy_up (dst + 1) (src + 1) (n - 1) (m(dst := m src)) else m)"
  by pat_completeness auto
termination by (relation "measure (\<lambda>(_, _, n, _). unat n)") (auto simp: count_down_measure)

function copy_down :: "addr \<Rightarrow> addr \<Rightarrow> size_t \<Rightarrow> bmem \<Rightarrow> bmem" where
  "copy_down dst src n m =
     (if n > 0 then copy_down (dst - 1) (src - 1) (n - 1) (m(dst - 1 := m (src - 1))) else m)"
  by pat_completeness auto
termination by (relation "measure (\<lambda>(_, _, n, _). unat n)") (auto simp: count_down_measure)

definition memcpy :: "addr \<Rightarrow> addr \<Rightarrow> size_t \<Rightarrow> bmem \<Rightarrow> (addr \<times> bmem) option" where
  "memcpy dst src n m = do {
     ASSERT (dst \<noteq> 0 \<or> n = 0);
     ASSERT (src \<noteq> 0 \<or> n = 0);
     Some (dst, copy_up dst src n m) }"

text \<open>The value returned by \<open>memmove\<close> is the pointer that its loops have moved.\<close>

definition memmove :: "addr \<Rightarrow> addr \<Rightarrow> size_t \<Rightarrow> bmem \<Rightarrow> (addr \<times> bmem) option" where
  "memmove dst src n m = do {
     ASSERT (dst \<noteq> 0 \<or> n = 0);
     ASSERT (src \<noteq> 0 \<or> n = 0);
     if dst < src then Some (dst + n, copy_up dst src n m)
     else Some (dst + n - n, copy_down (dst + n) (src + n) n m) }"

function memcmp_loop :: "addr \<Rightarrow> addr \<Rightarrow> size_t \<Rightarrow> bmem \<Rightarrow> int" where
  "memcmp_loop a b n m =
     (if n > 0 then
        if m a \<noteq> m b then (if m a > m b then 1 else - 1)
        else memcmp_loop (a + 1) (b + 1) (n - 1) m
      else 0)"
  by pat_completeness auto
termination by (relation "measure (\<lambda>(_, _, n, _). unat n)") (auto simp: count_down_measure)

definition memcmp :: "addr \<Rightarrow> addr \<Rightarrow> size_t \<Rightarrow> bmem \<Rightarrow> int option" where
  "memcmp a b n m = do {
     ASSERT (a \<noteq> 0 \<or> n = 0);
     ASSERT (b \<noteq> 0 \<or> n = 0);
     Some (memcmp_loop a b n m) }"

partial_function (option) strcmp_loop :: "addr \<Rightarrow> addr \<Rightarrow> bmem \<Rightarrow> int option" where
  "strcmp_loop a b m =
     (if m a \<noteq> 0 \<and> m a = m b then strcmp_loop (a + 1) (b + 1) m
      else Some (if m a < m b then - 1 else if m a > m b then 1 else 0))"

definition strcmp :: "addr \<Rightarrow> addr \<Rightarrow> bmem \<Rightarrow> int option" where
  "strcmp a b m = do { ASSERT (a \<noteq> 0); ASSERT (b \<noteq> 0); strcmp_loop a b m }"

function memchr_loop :: "addr \<Rightarrow> byte \<Rightarrow> size_t \<Rightarrow> bmem \<Rightarrow> addr" where
  "memchr_loop block ch n m =
     (if n > 0 then if m block = ch then block else memchr_loop (block + 1) ch (n - 1) m else 0)"
  by pat_completeness auto
termination by (relation "measure (\<lambda>(_, _, n, _). unat n)") (auto simp: count_down_measure)

definition memchr :: "addr \<Rightarrow> u32 \<Rightarrow> size_t \<Rightarrow> bmem \<Rightarrow> addr option" where
  "memchr block ch n m = do {
     ASSERT (block \<noteq> 0 \<or> n = 0);
     Some (memchr_loop block (ucast ch) n m) }"

partial_function (option) strchr_loop :: "addr \<Rightarrow> byte \<Rightarrow> bmem \<Rightarrow> addr option" where
  "strchr_loop string c m =
     (if m string = c then Some string
      else if m string = 0 then Some 0
      else strchr_loop (string + 1) c m)"

definition strchr :: "addr \<Rightarrow> byte \<Rightarrow> bmem \<Rightarrow> addr option" where
  "strchr string c m = do { ASSERT (string \<noteq> 0); strchr_loop string c m }"

partial_function (option) strcspn_loop :: "addr \<Rightarrow> addr \<Rightarrow> size_t \<Rightarrow> bmem \<Rightarrow> size_t option" where
  "strcspn_loop string stop n m =
     (if m (string + n) \<noteq> 0 then do {
        p \<leftarrow> strchr stop (m (string + n)) m;
        if p \<noteq> 0 then Some n else strcspn_loop string stop (n + 1) m }
      else Some n)"

definition strcspn :: "addr \<Rightarrow> addr \<Rightarrow> bmem \<Rightarrow> size_t option" where
  "strcspn string stop m = strcspn_loop string stop 0 m"

partial_function (option) strpbrk :: "addr \<Rightarrow> addr \<Rightarrow> bmem \<Rightarrow> addr option" where
  "strpbrk string stop m =
     (if m string \<noteq> 0 then do {
        p \<leftarrow> strchr stop (m string) m;
        if p \<noteq> 0 then Some string else strpbrk (string + 1) stop m }
      else Some 0)"

partial_function (option) strrchr_loop :: "addr \<Rightarrow> byte \<Rightarrow> addr \<Rightarrow> bmem \<Rightarrow> addr option" where
  "strrchr_loop string c p m =
     (if m string \<noteq> 0 then strrchr_loop (string + 1) c (if m string = c then string else p) m
      else Some p)"

definition strrchr :: "addr \<Rightarrow> byte \<Rightarrow> bmem \<Rightarrow> addr option" where
  "strrchr string c m = strrchr_loop string c 0 m"

partial_function (option) strspn_loop :: "addr \<Rightarrow> addr \<Rightarrow> size_t \<Rightarrow> bmem \<Rightarrow> size_t option" where
  "strspn_loop string skip n m =
     (if m (string + n) \<noteq> 0 then do {
        p \<leftarrow> strchr skip (m (string + n)) m;
        if p = 0 then Some n else strspn_loop string skip (n + 1) m }
      else Some n)"

definition strspn :: "addr \<Rightarrow> addr \<Rightarrow> bmem \<Rightarrow> size_t option" where
  "strspn string skip m = strspn_loop string skip 0 m"

partial_function (option) strlen_loop :: "addr \<Rightarrow> bmem \<Rightarrow> addr option" where
  "strlen_loop p m = (if m p \<noteq> 0 then strlen_loop (p + 1) m else Some p)"

definition strlen :: "addr \<Rightarrow> bmem \<Rightarrow> size_t option" where
  "strlen string m = do {
     ASSERT (string \<noteq> 0);
     p \<leftarrow> strlen_loop string m;
     Some (p - string) }"

partial_function (option) strstr_loop :: "addr \<Rightarrow> addr \<Rightarrow> size_t \<Rightarrow> size_t \<Rightarrow> size_t \<Rightarrow> bmem \<Rightarrow> addr option" where
  "strstr_loop haystack needle haystack_len needle_len i m =
     (if i \<le> haystack_len - needle_len then do {
        c \<leftarrow> memcmp (haystack + i) needle needle_len m;
        if c = 0 then Some (haystack + i)
        else strstr_loop haystack needle haystack_len needle_len (i + 1) m }
      else Some 0)"

definition strstr :: "addr \<Rightarrow> addr \<Rightarrow> bmem \<Rightarrow> addr option" where
  "strstr haystack needle m = do {
     haystack_len \<leftarrow> strlen haystack m;
     needle_len \<leftarrow> strlen needle m;
     if haystack_len \<ge> needle_len then strstr_loop haystack needle haystack_len needle_len 0 m
     else Some 0 }"

text \<open>
  The two loops of \<open>strtok_r\<close>: \<open>Inl\<close> is the early return at the end of the string.  The saved
  position is passed and returned as a value; a null \<open>save_ptr\<close> is not modelled.
\<close>

partial_function (option) tok_skip :: "addr \<Rightarrow> addr \<Rightarrow> bmem \<Rightarrow> (addr + addr) option" where
  "tok_skip s delimiters m = do {
     p \<leftarrow> strchr delimiters (m s) m;
     if p \<noteq> 0 then if m s = 0 then Some (Inl s) else tok_skip (s + 1) delimiters m
     else Some (Inr s) }"

partial_function (option) tok_end :: "addr \<Rightarrow> addr \<Rightarrow> bmem \<Rightarrow> addr option" where
  "tok_end s delimiters m = do {
     p \<leftarrow> strchr delimiters (m s) m;
     if p = 0 then tok_end (s + 1) delimiters m else Some s }"

definition strtok_r :: "addr \<Rightarrow> addr \<Rightarrow> addr \<Rightarrow> bmem \<Rightarrow> (addr \<times> addr \<times> bmem) option" where
  "strtok_r s delimiters save m = do {
     ASSERT (delimiters \<noteq> 0);
     let s = (if s = 0 then save else s);
     ASSERT (s \<noteq> 0);
     r \<leftarrow> tok_skip s delimiters m;
     case r of
       Inl s \<Rightarrow> Some (0, s, m)
     | Inr token \<Rightarrow> do {
         s \<leftarrow> tok_end token delimiters m;
         if m s \<noteq> 0 then Some (token, s + 1, m(s := 0)) else Some (token, s, m) } }"

function set_loop :: "addr \<Rightarrow> byte \<Rightarrow> size_t \<Rightarrow> bmem \<Rightarrow> bmem" where
  "set_loop dst v n m = (if n > 0 then set_loop (dst + 1) v (n - 1) (m(dst := v)) else m)"
  by pat_completeness auto
termination by (relation "measure (\<lambda>(_, _, n, _). unat n)") (auto simp: count_down_measure)

definition memset :: "addr \<Rightarrow> u32 \<Rightarrow> size_t \<Rightarrow> bmem \<Rightarrow> (addr \<times> bmem) option" where
  "memset dst v n m = do {
     ASSERT (dst \<noteq> 0 \<or> n = 0);
     Some (dst, set_loop dst (ucast v) n m) }"

function strnlen_loop :: "addr \<Rightarrow> size_t \<Rightarrow> size_t \<Rightarrow> bmem \<Rightarrow> size_t" where
  "strnlen_loop string maxlen n m =
     (if m (string + n) \<noteq> 0 \<and> n < maxlen then strnlen_loop string maxlen (n + 1) m else n)"
  by pat_completeness auto
termination by (relation "measure (\<lambda>(_, maxlen, n, _). unat maxlen - unat n)") (auto intro: count_up_measure)

definition strnlen :: "addr \<Rightarrow> size_t \<Rightarrow> bmem \<Rightarrow> size_t" where
  "strnlen string maxlen m = strnlen_loop string maxlen 0 m"

definition strlcpy :: "addr \<Rightarrow> addr \<Rightarrow> size_t \<Rightarrow> bmem \<Rightarrow> (size_t \<times> bmem) option" where
  "strlcpy dst src n m = do {
     ASSERT (dst \<noteq> 0);
     ASSERT (src \<noteq> 0);
     src_len \<leftarrow> strlen src m;
     if n > 0 then do {
       let dst_len = n - 1;
       let dst_len = (if src_len < dst_len then src_len else dst_len);
       (_, m) \<leftarrow> memcpy dst src dst_len m;
       Some (src_len, m(dst + dst_len := 0)) }
     else Some (src_len, m) }"

definition strlcat :: "addr \<Rightarrow> addr \<Rightarrow> size_t \<Rightarrow> bmem \<Rightarrow> (size_t \<times> bmem) option" where
  "strlcat dst src n m = do {
     ASSERT (dst \<noteq> 0);
     ASSERT (src \<noteq> 0);
     src_len \<leftarrow> strlen src m;
     dst_len \<leftarrow> strlen dst m;
     if n > 0 \<and> dst_len < n then do {
       let copy_cnt = n - dst_len - 1;
       let copy_cnt = (if src_len < copy_cnt then src_len else copy_cnt);
       (_, m) \<leftarrow> memcpy (dst + dst_len) src copy_cnt m;
       Some (src_len + dst_len, m(dst + (dst_len + copy_cnt) := 0)) }
     else Some (src_len + dst_len, m) }"

declare copy_up.simps [simp del] copy_down.simps [simp del] memcmp_loop.simps [simp del]
  memchr_loop.simps [simp del] set_loop.simps [simp del] strnlen_loop.simps [simp del]

section \<open>Blocks and strings\<close>

primrec bytes :: "bmem \<Rightarrow> addr \<Rightarrow> nat \<Rightarrow> byte list" where
  "bytes m p 0 = []"
| "bytes m p (Suc n) = m p # bytes m (p + 1) n"

fun cstr :: "bmem \<Rightarrow> addr \<Rightarrow> byte list \<Rightarrow> bool" where
  "cstr m p [] \<longleftrightarrow> p \<noteq> 0 \<and> m p = 0"
| "cstr m p (x # xs) \<longleftrightarrow> p \<noteq> 0 \<and> m p = x \<and> x \<noteq> 0 \<and> cstr m (p + 1) xs"

lemma length_bytes [simp]: "length (bytes m p n) = n"
  by (induction n arbitrary: p) auto

lemma nth_bytes [simp]: "i < n \<Longrightarrow> bytes m p n ! i = m (p + of_nat i)"
proof (induction n arbitrary: p i)
  case (Suc n)
  then show ?case by (cases i) (auto simp: algebra_simps)
qed simp

lemma bytes_append: "bytes m p (i + j) = bytes m p i @ bytes m (p + of_nat i) j"
  by (induction i arbitrary: p) (auto simp: algebra_simps)

lemma bytes_cong: "(\<And>i. i < n \<Longrightarrow> m' (q + of_nat i) = m (p + of_nat i)) \<Longrightarrow> bytes m' q n = bytes m p n"
  by (rule nth_equalityI) auto

lemma unat_Suc: "p + 1 \<noteq> 0 \<Longrightarrow> unat (p + 1) = Suc (unat p)"
  for p :: u32
proof -
  assume "p + 1 \<noteq> 0"
  then have "unat (p + 1) \<noteq> 0" by (simp add: unsigned_eq_0_iff)
  moreover have "unat (p + 1) = (unat p + 1) mod 2 ^ 32" by (simp add: unat_word_ariths)
  ultimately show ?thesis using unat_u32_bound [of p] by (cases "unat p + 1 = 2 ^ 32") auto
qed

lemma cstr_nonzero: "cstr m p xs \<Longrightarrow> p \<noteq> 0"
  by (cases xs) auto

lemma cstr_no_wrap: "cstr m p xs \<Longrightarrow> unat p + length xs < 2 ^ 32"
proof (induction xs arbitrary: p)
  case Nil
  show ?case using unat_u32_bound [of p] by simp
next
  case (Cons x xs)
  then have "cstr m (p + 1) xs" by simp
  from Cons.IH [OF this] unat_Suc [OF cstr_nonzero [OF this]] show ?case by simp
qed

lemma cstr_iff: "cstr m p xs \<longleftrightarrow> p \<noteq> 0 \<and> unat p + length xs < 2 ^ 32 \<and>
    bytes m p (length xs) = xs \<and> 0 \<notin> set xs \<and> m (p + of_nat (length xs)) = 0"
  (is "_ \<longleftrightarrow> ?rhs p xs")
proof
  assume c: "cstr m p xs"
  then have "bytes m p (length xs) = xs \<and> 0 \<notin> set xs \<and> m (p + of_nat (length xs)) = 0"
  proof (induction xs arbitrary: p)
    case (Cons x xs)
    then show ?case using Cons.IH [of "p + 1"] by (simp add: add.assoc)
  qed simp
  then show "?rhs p xs" using c cstr_nonzero cstr_no_wrap by blast
next
  show "?rhs p xs \<Longrightarrow> cstr m p xs"
  proof (induction xs arbitrary: p)
    case (Cons x xs)
    then have "unat (p + 1) = Suc (unat p)" by (simp add: unat_word_ariths)
    moreover from this have "p + 1 \<noteq> 0" by (metis nat.simps(3) unat_0)
    ultimately show ?case using Cons by (auto simp: algebra_simps)
  qed simp
qed

text \<open>The addresses of a block, as a word comparison.\<close>

lemma pred_less: "n \<noteq> 0 \<Longrightarrow> x - 1 < n - 1 \<longleftrightarrow> x \<noteq> 0 \<and> x < n"
  for x n :: "'a::len word"
proof (cases "x = 0")
  case True
  then show ?thesis by (simp add: not_less)
next
  case False
  moreover from this have "0 < unat x" by (simp add: unat_gt_0)
  ultimately show "n \<noteq> 0 \<Longrightarrow> ?thesis" by (auto simp: word_less_nat_alt unat_pred)
qed

lemma less_pred: "n \<noteq> 0 \<Longrightarrow> x < n - 1 \<longleftrightarrow> x < n \<and> x \<noteq> n - 1"
  for x n :: "'a::len word"
proof -
  assume n: "n \<noteq> 0"
  then have "0 < unat n" by (simp add: unat_gt_0)
  then have "unat x < unat n - 1 \<longleftrightarrow> unat x < unat n \<and> unat x \<noteq> unat n - 1" by linarith
  then show ?thesis by (simp only: word_less_nat_alt word_unat_eq_iff unat_pred [OF n])
qed

lemma block_bytes:
  assumes "\<And>a. m' a = (if a - dst < n then m (src + (a - dst)) else m a)"
  shows "bytes m' dst (unat n) = bytes m src (unat n)"
proof (rule bytes_cong)
  fix i assume "i < unat n"
  then have "(of_nat i :: addr) < n" using unat_u32_bound [of n] by (simp add: word_less_nat_alt unat_of_nat take_bit_eq_mod)
  then show "m' (dst + of_nat i) = m (src + of_nat i)" by (simp add: assms)
qed

lemma copy_up_block:
  "dst - src = 0 \<or> n \<le> dst - src \<Longrightarrow>
   copy_up dst src n m a = (if a - dst < n then m (src + (a - dst)) else m a)"
proof (induction "unat n" arbitrary: dst src n m)
  case 0
  then have "n = 0" by (simp add: unsigned_eq_0_iff)
  then show ?case by (subst copy_up.simps) simp
next
  case (Suc k)
  then have False: "n \<noteq> 0" by auto
  then have n: "0 < n" by (simp add: word_gt_0)
  define m1 where "m1 = m(dst := m src)"
  have k: "k = unat (n - 1)" using Suc(2) False by (simp add: unat_pred)
  have "n - 1 \<le> dst - src" if "n \<le> dst - src" using that word_pred_less [OF False] by simp
  then have "dst + 1 - (src + 1) = 0 \<or> n - 1 \<le> dst + 1 - (src + 1)" using Suc(3) by auto
  then have "copy_up (dst + 1) (src + 1) (n - 1) m1 a =
      (if a - (dst + 1) < n - 1 then m1 (src + 1 + (a - (dst + 1))) else m1 a)"
    by (rule Suc(1) [OF k])
  moreover have "copy_up dst src n m = copy_up (dst + 1) (src + 1) (n - 1) m1"
    using n by (subst copy_up.simps) (simp add: m1_def)
  moreover have "a - (dst + 1) < n - 1 \<longleftrightarrow> a \<noteq> dst \<and> a - dst < n"
    using pred_less [OF False, of "a - dst"] by (simp add: diff_diff_eq)
  moreover have "src + 1 + (a - (dst + 1)) = src + (a - dst)" by simp
  moreover have "src + (a - dst) \<noteq> dst" if "a \<noteq> dst" "a - dst < n"
  proof
    assume "src + (a - dst) = dst"
    then have "a - dst = dst - src" by (simp add: algebra_simps)
    with that Suc(3) show False by auto
  qed
  ultimately show ?case using n by (auto simp: m1_def)
qed

lemma copy_down_block:
  "src - dst = 0 \<or> n \<le> src - dst \<Longrightarrow>
   copy_down (dst + n) (src + n) n m a = (if a - dst < n then m (src + (a - dst)) else m a)"
proof (induction "unat n" arbitrary: n m)
  case 0
  then have "n = 0" by (simp add: unsigned_eq_0_iff)
  then show ?case by (subst copy_down.simps) simp
next
  case (Suc k)
  then have False: "n \<noteq> 0" by auto
  then have n: "0 < n" by (simp add: word_gt_0)
  define m1 where "m1 = m(dst + (n - 1) := m (src + (n - 1)))"
  have k: "k = unat (n - 1)" using Suc(2) False by (simp add: unat_pred)
  have "n - 1 \<le> src - dst" if "n \<le> src - dst" using that word_pred_less [OF False] by simp
  then have "copy_down (dst + (n - 1)) (src + (n - 1)) (n - 1) m1 a =
      (if a - dst < n - 1 then m1 (src + (a - dst)) else m1 a)"
    using Suc(1) [OF k, of m1] Suc(3) by blast
  moreover have "copy_down (dst + n) (src + n) n m = copy_down (dst + (n - 1)) (src + (n - 1)) (n - 1) m1"
    using n by (subst copy_down.simps) (simp add: m1_def add_diff_eq)
  moreover have "a - dst < n - 1 \<longleftrightarrow> a - dst < n \<and> a \<noteq> dst + (n - 1)"
  proof -
    have "a - dst = n - 1 \<longleftrightarrow> a = dst + (n - 1)" by (auto simp: algebra_simps)
    then show ?thesis using less_pred [OF False, of "a - dst"] by simp
  qed
  moreover have "src + (a - dst) \<noteq> dst + (n - 1)" if "a - dst < n - 1"
  proof
    assume "src + (a - dst) = dst + (n - 1)"
    then have e: "src - dst = n - 1 - (a - dst)" by (simp add: algebra_simps)
    moreover have "n - 1 - (a - dst) \<noteq> 0" using that by auto
    moreover have "n - 1 - (a - dst) < n"
      by (rule le_less_trans [OF word_sub_le [OF less_imp_le [OF that]] word_pred_less [OF False]])
    ultimately show False using Suc(3) by (metis not_le)
  qed
  ultimately show ?case using n word_pred_less [OF False] by (auto simp: m1_def)
qed

section \<open>Scanning\<close>

text \<open>The position of the first byte satisfying a predicate.\<close>

abbreviation first_at :: "(byte \<Rightarrow> bool) \<Rightarrow> byte list \<Rightarrow> nat" where
  "first_at P xs \<equiv> length (takeWhile (\<lambda>x. \<not> P x) xs)"

lemma cstr_nonzero_at: "cstr m p xs \<Longrightarrow> i \<le> length xs \<Longrightarrow> p + of_nat i \<noteq> 0"
proof (induction xs arbitrary: p i)
  case (Cons x xs)
  then show ?case using Cons.IH [of "p + 1" "i - 1"] by (cases i) (simp_all add: add.assoc)
qed simp

lemma cstr_drop: "cstr m p xs \<Longrightarrow> i \<le> length xs \<Longrightarrow> cstr m (p + of_nat i) (drop i xs)"
proof (induction xs arbitrary: p i)
  case (Cons x xs)
  then show ?case using Cons.IH [of "p + 1" "i - 1"] by (cases i) (simp_all add: add.assoc)
qed simp

lemma strchr_cstr:
  assumes "cstr m p xs"
  shows "strchr p c m = Some (if c \<in> set xs \<or> c = 0 then p + of_nat (first_at (\<lambda>x. x = c) xs) else 0)"
proof -
  have "cstr m p xs \<Longrightarrow>
    strchr_loop p c m = Some (if c \<in> set xs \<or> c = 0 then p + of_nat (first_at (\<lambda>x. x = c) xs) else 0)" for p
  proof (induction xs arbitrary: p)
    case Nil
    then show ?case by (subst strchr_loop.simps) auto
  next
    case (Cons x xs)
    then show ?case using Cons.IH [of "p + 1"] by (subst strchr_loop.simps) (auto simp: add.assoc)
  qed
  with assms cstr_nonzero [OF assms] show ?thesis by (simp add: strchr_def)
qed

lemma strchr_null:
  assumes "cstr m p xs"
  obtains q where "strchr p c m = Some q" "q = 0 \<longleftrightarrow> c \<notin> insert 0 (set xs)"
proof -
  have "first_at (\<lambda>x. x = c) xs \<le> length xs" by (rule length_takeWhile_le)
  then show thesis using that strchr_cstr [OF assms, of c] cstr_nonzero_at [OF assms] by (auto split: if_splits)
qed

lemma strlen_cstr:
  assumes "cstr m p xs"
  shows "strlen p m = Some (of_nat (length xs))"
proof -
  have "cstr m p xs \<Longrightarrow> strlen_loop p m = Some (p + of_nat (length xs))" for p
  proof (induction xs arbitrary: p)
    case (Cons x xs)
    then show ?case using Cons.IH [of "p + 1"] by (subst strlen_loop.simps) (auto simp: add.assoc)
  qed (subst strlen_loop.simps, auto)
  with assms cstr_nonzero [OF assms] show ?thesis by (simp add: strlen_def)
qed

lemma cstr_at:
  assumes "cstr m p xs"
  shows "i < length xs \<Longrightarrow> m (p + of_nat i) = xs ! i" "m (p + of_nat (length xs)) = 0" "0 \<notin> set xs"
    "unat p + length xs < 2 ^ 32" "i < length xs \<Longrightarrow> xs ! i \<noteq> 0"
proof -
  note c = assms [unfolded cstr_iff]
  then show "i < length xs \<Longrightarrow> m (p + of_nat i) = xs ! i" using nth_bytes [of i "length xs" m p] by simp
  show "m (p + of_nat (length xs)) = 0" "0 \<notin> set xs" "unat p + length xs < 2 ^ 32" using c by simp_all
  then show "i < length xs \<Longrightarrow> xs ! i \<noteq> 0" by (metis nth_mem)
qed

lemma unat_of_nat_len: "cstr m p xs \<Longrightarrow> i \<le> length xs \<Longrightarrow> unat (of_nat i :: addr) = i"
  using cstr_no_wrap [of m p xs] by (simp add: unat_of_nat take_bit_eq_mod)

lemma strnlen_cstr:
  assumes "cstr m p xs"
  shows "unat (strnlen p n m) = min (length xs) (unat n)"
proof -
  have "i \<le> min (length xs) (unat n) \<Longrightarrow> unat (strnlen_loop p n (of_nat i) m) = min (length xs) (unat n)" for i
  proof (induction "min (length xs) (unat n) - i" arbitrary: i)
    case 0
    then have i: "i = min (length xs) (unat n)" by simp
    then have "m (p + of_nat i) = 0 \<or> \<not> (of_nat i :: addr) < n"
      using cstr_at(2) [OF assms] by (auto simp: min_def word_less_nat_alt)
    then show ?case using i unat_of_nat_len [OF assms, of i] by (subst strnlen_loop.simps) auto
  next
    case (Suc k)
    then have "i < length xs" "i < unat n" by auto
    then have "m (p + of_nat i) \<noteq> 0" "(of_nat i :: addr) < n"
      using cstr_at(1,5) [OF assms, of i] unat_of_nat_len [OF assms, of i] by (auto simp: word_less_nat_alt)
    moreover have "(of_nat i + 1 :: addr) = of_nat (Suc i)" by simp
    moreover have "unat (strnlen_loop p n (of_nat (Suc i)) m) = min (length xs) (unat n)"
      using Suc by (intro Suc.hyps(1)) auto
    ultimately show ?case by (subst strnlen_loop.simps) (simp del: of_nat_Suc)
  qed
  from this [of 0] show ?thesis by (simp add: strnlen_def)
qed

lemma span_loops:
  assumes s: "cstr m s xs" and d: "cstr m d ds"
  shows "strcspn s d m = Some (of_nat (first_at (\<lambda>x. x \<in> set ds) xs))"
    "strspn s d m = Some (of_nat (first_at (\<lambda>x. x \<notin> set ds) xs))"
proof -
  have step: "\<exists>q. strchr d (m (s + of_nat i)) m = Some q \<and> (q = 0 \<longleftrightarrow> xs ! i \<notin> set ds)" "m (s + of_nat i) \<noteq> 0"
    if "i < length xs" for i
    using strchr_null [OF d, of "m (s + of_nat i)"] cstr_at(1,5) [OF s that] by auto
  have nxt: "(of_nat i + 1 :: addr) = of_nat (Suc i)" for i by simp
  have "i \<le> length xs \<Longrightarrow> strcspn_loop s d (of_nat i) m = Some (of_nat (i + first_at (\<lambda>x. x \<in> set ds) (drop i xs)))"
    "i \<le> length xs \<Longrightarrow> strspn_loop s d (of_nat i) m = Some (of_nat (i + first_at (\<lambda>x. x \<notin> set ds) (drop i xs)))" for i
  proof (induction "length xs - i" arbitrary: i)
    case 0
    { case 1 then show ?case using 0 cstr_at(2) [OF s] by (subst strcspn_loop.simps) simp }
    { case 2 then show ?case using 0 cstr_at(2) [OF s] by (subst strspn_loop.simps) simp }
  next
    case (Suc k)
    then have i: "i < length xs" and k: "k = length xs - Suc i" by auto
    obtain q where q: "strchr d (m (s + of_nat i)) m = Some q" "q = 0 \<longleftrightarrow> xs ! i \<notin> set ds" using step(1) [OF i] by blast
    have dr: "drop i xs = xs ! i # drop (Suc i) xs" using i by (simp add: Cons_nth_drop_Suc)
    { case 1 then show ?case using q step(2) [OF i] Suc(1) [OF k] i
        by (subst strcspn_loop.simps) (auto simp: dr nxt simp del: of_nat_Suc of_nat_add) }
    { case 2 then show ?case using q step(2) [OF i] Suc(2) [OF k] i
        by (subst strspn_loop.simps) (auto simp: dr nxt simp del: of_nat_Suc of_nat_add) }
  qed
  from this [of 0] show "strcspn s d m = Some (of_nat (first_at (\<lambda>x. x \<in> set ds) xs))"
    "strspn s d m = Some (of_nat (first_at (\<lambda>x. x \<notin> set ds) xs))"
    by (simp_all add: strcspn_def strspn_def)
qed

lemma strpbrk_cstr:
  assumes d: "cstr m d ds"
  shows "cstr m s xs \<Longrightarrow> strpbrk s d m =
    Some (if set xs \<inter> set ds = {} then 0 else s + of_nat (first_at (\<lambda>x. x \<in> set ds) xs))"
proof (induction xs arbitrary: s)
  case Nil
  then show ?case by (subst strpbrk.simps) simp
next
  case (Cons x xs)
  obtain q where q: "strchr d x m = Some q" "q = 0 \<longleftrightarrow> x \<notin> insert 0 (set ds)" using strchr_null [OF d] by blast
  show ?case using Cons.prems Cons.IH [of "s + 1"] q by (subst strpbrk.simps) (auto simp: add.assoc)
qed

lemma tok_skip_cstr:
  assumes "cstr m d ds"
  shows "cstr m s xs \<Longrightarrow> tok_skip s d m = Some (let k = first_at (\<lambda>x. x \<notin> set ds) xs in
    if k = length xs then Inl (s + of_nat k) else Inr (s + of_nat k))"
proof (induction xs arbitrary: s)
  case Nil
  obtain q where "strchr d 0 m = Some q" "q \<noteq> 0" using strchr_null [OF assms, of 0] by auto
  with Nil show ?case by (subst tok_skip.simps) simp
next
  case (Cons x xs)
  obtain q where q: "strchr d x m = Some q" "q = 0 \<longleftrightarrow> x \<notin> insert 0 (set ds)" using strchr_null [OF assms] by blast
  show ?case
    using Cons.prems Cons.IH [of "s + 1"] q
    by (subst tok_skip.simps) (auto simp: Let_def add.assoc)
qed

lemma tok_end_cstr:
  assumes "cstr m d ds"
  shows "cstr m s xs \<Longrightarrow> tok_end s d m = Some (s + of_nat (first_at (\<lambda>x. x \<in> set ds) xs))"
proof (induction xs arbitrary: s)
  case Nil
  obtain q where "strchr d 0 m = Some q" "q \<noteq> 0" using strchr_null [OF assms, of 0] by auto
  with Nil show ?case by (subst tok_end.simps) simp
next
  case (Cons x xs)
  obtain q where q: "strchr d x m = Some q" "q = 0 \<longleftrightarrow> x \<notin> insert 0 (set ds)" using strchr_null [OF assms] by blast
  show ?case
    using Cons.prems Cons.IH [of "s + 1"] q by (subst tok_end.simps) (auto simp: add.assoc)
qed

section \<open>Comparison\<close>

fun cmp_bytes :: "byte list \<Rightarrow> byte list \<Rightarrow> int" where
  "cmp_bytes (x # xs) (y # ys) = (if x \<noteq> y then if x > y then 1 else - 1 else cmp_bytes xs ys)"
| "cmp_bytes _ _ = 0"

lemma cmp_bytes_0: "length xs = length ys \<Longrightarrow> cmp_bytes xs ys = 0 \<longleftrightarrow> xs = ys"
  by (induction xs ys rule: cmp_bytes.induct) auto

lemma memcmp_loop_bytes: "memcmp_loop a b n m = cmp_bytes (bytes m a (unat n)) (bytes m b (unat n))"
proof (induction "unat n" arbitrary: a b n)
  case 0
  then have "n = 0" by (simp add: unsigned_eq_0_iff)
  then show ?case by (subst memcmp_loop.simps) simp
next
  case (Suc k)
  then have n: "n \<noteq> 0" by auto
  then have k: "k = unat (n - 1)" using Suc(2) by (simp add: unat_pred)
  show ?case using Suc(1) [OF k] n unfolding Suc(2) [symmetric] k
    by (subst memcmp_loop.simps) (auto simp: word_gt_0)
qed

lemma strcmp_cstr:
  "cstr m a xs \<Longrightarrow> cstr m b ys \<Longrightarrow> strcmp_loop a b m = Some (cmp_bytes (xs @ [0]) (ys @ [0]))"
proof (induction xs arbitrary: a b ys)
  case Nil
  then show ?case by (subst strcmp_loop.simps, cases ys) (auto simp: word_gt_0)
next
  case (Cons x xs)
  then show ?case by (subst strcmp_loop.simps, cases ys) (auto simp: word_gt_0)
qed

lemma cmp_strings_lex:
  assumes "0 \<notin> set xs" "0 \<notin> set ys"
  shows "cmp_bytes (xs @ [0]) (ys @ [0]) = 0 \<longleftrightarrow> xs = ys"
    "cmp_bytes (xs @ [0]) (ys @ [0]) < 0 \<longleftrightarrow> (xs, ys) \<in> lexord {(x, y). x < y}"
    "cmp_bytes (xs @ [0]) (ys @ [0]) > 0 \<longleftrightarrow> (ys, xs) \<in> lexord {(x, y). x < y}"
  using assms by (induction xs ys rule: list_induct2') (auto simp: word_gt_0)

lemma memcmp_strings:
  assumes h: "cstr m h hs" and n: "cstr m n ns" and i: "i + length ns \<le> length hs"
  shows "\<exists>c. memcmp (h + of_nat i) n (of_nat (length ns)) m = Some c \<and> (c = 0 \<longleftrightarrow> take (length ns) (drop i hs) = ns)"
proof -
  have len: "unat (of_nat (length ns) :: addr) = length ns" using unat_of_nat_len [OF n] by simp
  have "bytes m (h + of_nat i) (length ns) = take (length ns) (drop i hs)"
    using i cstr_at(1) [OF h, of "i + j" for j] by (intro nth_equalityI) (auto simp: add.assoc)
  moreover have "bytes m n (length ns) = ns" using n by (simp add: cstr_iff)
  ultimately have "memcmp_loop (h + of_nat i) n (of_nat (length ns)) m = 0 \<longleftrightarrow> take (length ns) (drop i hs) = ns"
    unfolding memcmp_loop_bytes len using i by (simp add: cmp_bytes_0)
  then show ?thesis using cstr_nonzero_at [OF h, of i] cstr_nonzero [OF n] i by (simp add: memcmp_def)
qed

text \<open>The needle's first occurrence at or after position \<open>i\<close>, and nothing before.\<close>

definition occurs_at :: "byte list \<Rightarrow> byte list \<Rightarrow> nat \<Rightarrow> bool" where
  "occurs_at ns hs k \<longleftrightarrow> k + length ns \<le> length hs \<and> take (length ns) (drop k hs) = ns"

lemma last_start:
  assumes "cstr m h hs" "n \<le> length hs" "i \<le> Suc (length hs - n)"
  shows "(of_nat i :: addr) \<le> of_nat (length hs) - of_nat n \<longleftrightarrow> i \<le> length hs - n"
proof -
  have "0 < unat h" using cstr_nonzero [OF assms(1)] by (simp add: unat_gt_0)
  then have "length hs + 1 < 2 ^ 32" using cstr_no_wrap [OF assms(1)] by simp
  then have "unat (of_nat i :: addr) = i" "unat (of_nat (length hs - n) :: addr) = length hs - n"
    using assms(3) by (auto simp: unat_of_nat take_bit_eq_mod)
  moreover have "(of_nat (length hs) - of_nat n :: addr) = of_nat (length hs - n)" using assms(2) by (simp add: of_nat_diff)
  ultimately show ?thesis by (simp add: word_le_nat_alt)
qed

lemma strstr_search:
  assumes h: "cstr m h hs" and n: "cstr m n ns" and le: "length ns \<le> length hs"
  shows "i \<le> Suc (length hs - length ns) \<Longrightarrow> (\<And>j. j < i \<Longrightarrow> \<not> occurs_at ns hs j) \<Longrightarrow>
    \<exists>r. strstr_loop h n (of_nat (length hs)) (of_nat (length ns)) (of_nat i) m = Some r \<and>
      ((\<exists>k. r = h + of_nat k \<and> occurs_at ns hs k \<and> (\<forall>j < k. \<not> occurs_at ns hs j)) \<or>
       r = 0 \<and> (\<forall>j. \<not> occurs_at ns hs j))"
proof (induction "Suc (length hs - length ns) - i" arbitrary: i)
  case 0
  then have "\<not> (of_nat i :: addr) \<le> of_nat (length hs) - of_nat (length ns)"
    using last_start [OF h le, of i] by simp
  moreover have "\<not> occurs_at ns hs j" for j
    using 0 by (cases "j < i") (auto simp: occurs_at_def)
  ultimately show ?case by (subst strstr_loop.simps) simp
next
  case (Suc d)
  then have i: "i + length ns \<le> length hs" using le by linarith
  have "(of_nat i :: addr) \<le> of_nat (length hs) - of_nat (length ns)"
    using last_start [OF h le, of i] i by simp
  moreover obtain c where c: "memcmp (h + of_nat i) n (of_nat (length ns)) m = Some c" "c = 0 \<longleftrightarrow> occurs_at ns hs i"
    using memcmp_strings [OF h n i] i by (auto simp: occurs_at_def)
  moreover have nxt: "(of_nat i + 1 :: addr) = of_nat (Suc i)" by simp
  moreover have "\<not> occurs_at ns hs i \<Longrightarrow> \<not> occurs_at ns hs j" if "j < Suc i" for j
    using that Suc.prems(2) by (cases "j = i") auto
  ultimately show ?case
    using Suc.hyps(1) [of "Suc i"] Suc.hyps(2) Suc.prems(2)
    by (subst strstr_loop.simps) (auto simp del: of_nat_Suc)
qed

section \<open>Splitting strings\<close>

lemma cstr_cong:
  "(\<And>i. i \<le> length xs \<Longrightarrow> m' (p + of_nat i) = m (p + of_nat i)) \<Longrightarrow> cstr m p xs \<Longrightarrow> cstr m' p xs"
  using bytes_cong [of "length xs" m' p m p] by (simp add: cstr_iff)

lemma addr_inj:
  assumes "cstr m p xs" "i \<le> length xs" "j \<le> length xs"
  shows "p + of_nat i = p + of_nat j \<longleftrightarrow> i = j"
proof
  assume "p + of_nat i = p + of_nat j"
  then have "(of_nat i :: addr) = of_nat j" by (rule add_left_imp_eq)
  then have "unat (of_nat i :: addr) = unat (of_nat j :: addr)" by (simp only:)
  then show "i = j" unfolding unat_of_nat_len [OF assms(1,2)] unat_of_nat_len [OF assms(1,3)] .
qed simp

lemma cstr_cut:
  assumes "cstr m p ys" "t < length ys"
  shows "cstr (m(p + of_nat t := 0)) p (take t ys)" "cstr (m(p + of_nat t := 0)) (p + of_nat t + 1) (drop (Suc t) ys)"
proof -
  let ?m = "m(p + of_nat t := 0)"
  have "bytes ?m p t = bytes m p t"
    using addr_inj [OF assms(1)] assms(2) by (intro bytes_cong) auto
  also have "\<dots> = take t ys" using assms(2) cstr_at(1) [OF assms(1)] by (intro nth_equalityI) auto
  finally show "cstr ?m p (take t ys)"
    using assms cstr_at(3,4) [OF assms(1)] cstr_nonzero [OF assms(1)] set_take_subset [of t ys]
    by (auto simp: cstr_iff)
  have "cstr m (p + of_nat (Suc t)) (drop (Suc t) ys)" by (rule cstr_drop [OF assms(1)]) (use assms(2) in simp)
  moreover have "?m (p + of_nat (Suc t) + of_nat i) = m (p + of_nat (Suc t) + of_nat i)"
    if "i \<le> length (drop (Suc t) ys)" for i
  proof -
    have "p + of_nat (Suc t) + of_nat i = p + of_nat (Suc t + i)" by (simp add: add.assoc)
    moreover have "p + of_nat (Suc t + i) \<noteq> p + of_nat t"
      using addr_inj [OF assms(1), of "Suc t + i" t] that assms(2) by auto
    ultimately show ?thesis by simp
  qed
  ultimately have "cstr ?m (p + of_nat (Suc t)) (drop (Suc t) ys)" by (rule cstr_cong [rotated])
  moreover have "p + of_nat (Suc t) = p + of_nat t + 1" by (simp add: add.assoc)
  ultimately show "cstr ?m (p + of_nat t + 1) (drop (Suc t) ys)" by (simp only:)
qed

section \<open>Copying strings\<close>

definition apart :: "addr \<Rightarrow> nat \<Rightarrow> addr \<Rightarrow> nat \<Rightarrow> bool" where
  "apart p i q j \<longleftrightarrow> unat p + i \<le> unat q \<or> unat q + j \<le> unat p"

text \<open>Copying \<open>k\<close> bytes of a string to a place apart from it and terminating them.\<close>

lemma copy_terminate:
  assumes src: "cstr m src xs" and k: "k \<le> length xs" and d: "unat d + k < 2 ^ 32"
    and apart: "apart d (Suc k) src (Suc (length xs))"
  defines "m' \<equiv> (copy_up d src (of_nat k) m)(d + of_nat k := 0)"
  shows "bytes m' d k = take k xs" "m' (d + of_nat k) = 0"
    "\<not> (unat d \<le> unat a \<and> unat a \<le> unat d + k) \<Longrightarrow> m' a = m a"
proof -
  have uk: "unat (of_nat k :: addr) = k" by (rule unat_of_nat_len [OF src k])
  have dk: "unat (d + of_nat k) = unat d + k" using d uk by (simp add: unat_word_ariths)
  have "of_nat k \<le> d - src"
    using apart uk unat_sub_if' [of d src] d cstr_no_wrap [OF src] k
    by (auto simp: apart_def word_le_nat_alt split: if_splits)
  then have blk: "copy_up d src (of_nat k) m a = (if a - d < of_nat k then m (src + (a - d)) else m a)" for a
    by (intro copy_up_block) simp
  have inside: "a - d < of_nat k \<longleftrightarrow> unat d \<le> unat a \<and> unat a < unat d + k" for a
    using uk unat_sub_if' [of a d] d unat_u32_bound [of a] by (auto simp: word_less_nat_alt split: if_splits)
  have "bytes (copy_up d src (of_nat k) m) d k = bytes m src k"
    using block_bytes [OF blk] uk by simp
  also have "\<dots> = take k xs" using k cstr_at(1) [OF src] by (intro nth_equalityI) auto
  finally have b: "bytes (copy_up d src (of_nat k) m) d k = take k xs" .
  have "d + of_nat i \<noteq> d + of_nat k" if "i < k" for i
    using that k unat_of_nat_len [OF src, of i] uk by auto
  then have "bytes m' d k = bytes (copy_up d src (of_nat k) m) d k" unfolding m'_def by (intro bytes_cong) auto
  with b show "bytes m' d k = take k xs" by simp
  show "m' (d + of_nat k) = 0" by (simp add: m'_def)
  assume a: "\<not> (unat d \<le> unat a \<and> unat a \<le> unat d + k)"
  then have "a \<noteq> d + of_nat k" using dk by auto
  moreover have "\<not> a - d < of_nat k" using a inside by auto
  ultimately show "m' a = m a" by (simp add: m'_def blk)
qed

section \<open>Properties\<close>

definition demo_mem :: bmem where
  "demo_mem = (\<lambda>a. if 0x1000 \<le> a \<and> a < 0x100a then [32, 108, 115, 32, 32, 45, 108, 0, 32, 0] ! unat (a - 0x1000) else 0)"

text \<open>
  C16. \<open>memmove\<close> copies correctly whether or not the blocks overlap: afterwards the destination holds the
  bytes that the source held before, and no byte outside the destination has changed.  It returns
  the end of the destination, not its start as documented, when it copies upwards.
\<close>

theorem memmove_overlap:
  assumes "dst \<noteq> 0" "src \<noteq> 0" "unat dst + unat n \<le> 2 ^ 32" "unat src + unat n \<le> 2 ^ 32"
  shows "\<exists>m'. memmove dst src n m = Some (if dst < src then dst + n else dst, m') \<and>
    bytes m' dst (unat n) = bytes m src (unat n) \<and>
    (\<forall>a. \<not> (unat dst \<le> unat a \<and> unat a < unat dst + unat n) \<longrightarrow> m' a = m a)"
proof -
  define m' where "m' = (if dst < src then copy_up dst src n m else copy_down (dst + n) (src + n) n m)"
  have upto: "n \<le> p - q" if "p < q" "unat q + unat n \<le> 2 ^ 32" for p q :: addr
    using that unat_sub_if' [of p q] by (simp add: word_le_nat_alt word_less_nat_alt)
  have blk: "m' a = (if a - dst < n then m (src + (a - dst)) else m a)" for a
    using copy_up_block [of dst src n m a] copy_down_block [of src dst n m a] upto [of dst src] upto [of src dst] assms
    by (auto simp: m'_def not_less le_less)
  have "memmove dst src n m = Some (if dst < src then dst + n else dst, m')"
    using assms(1,2) by (simp add: memmove_def m'_def)
  moreover have "m' a = m a" if "\<not> (unat dst \<le> unat a \<and> unat a < unat dst + unat n)" for a
  proof -
    have "\<not> a - dst < n" using that assms(3) unat_sub_if' [of a dst] by (auto simp: word_less_nat_alt split: if_splits)
    then show ?thesis by (simp add: blk)
  qed
  ultimately show ?thesis using block_bytes [of m' dst n m src] blk by auto
qed

theorem memmove_overlap_witness:
  "\<exists>m'. memmove 0x1002 0x1001 4 demo_mem = Some (0x1002, m') \<and> bytes m' 0x1002 4 = [108, 115, 32, 32]"
proof -
  have "bytes demo_mem 0x1001 4 = [108, 115, 32, 32]" by code_simp
  then show ?thesis using memmove_overlap [of "0x1002" "0x1001" 4 demo_mem] by auto
qed

text \<open>
  C17. \<open>strlcpy\<close> with room for at least one byte, to a buffer apart from the source, leaves the longest
  prefix of the source that fits with its terminator in the buffer, changes nothing beyond it,
  and returns the length of the whole source.
\<close>

theorem strlcpy_truncates:
  assumes src: "cstr m src xs" and dst: "dst \<noteq> 0" "0 < n" "unat dst + unat n \<le> 2 ^ 32"
    and apart: "apart dst (unat n) src (Suc (length xs))"
  shows "\<exists>m'. strlcpy dst src n m = Some (of_nat (length xs), m') \<and> cstr m' dst (take (unat n - 1) xs) \<and>
    (\<forall>a. \<not> (unat dst \<le> unat a \<and> unat a < unat dst + unat n) \<longrightarrow> m' a = m a)"
proof -
  define k where "k = min (length xs) (unat n - 1)"
  have n: "n \<noteq> 0" "0 < unat n" using dst(2) by (auto simp: word_less_nat_alt)
  have kn: "k \<le> length xs" "Suc k \<le> unat n" using n by (auto simp: k_def)
  have kw: "(if of_nat (length xs) < n - 1 then of_nat (length xs) else n - 1) = (of_nat k :: addr)"
    using unat_of_nat_len [OF src, of "length xs"] unat_pred [OF n(1)] unat_of_nat_len [OF src kn(1)] k_def
    by (simp add: word_less_nat_alt word_unat_eq_iff)
  define m' where "m' = (copy_up dst src (of_nat k) m)(dst + of_nat k := 0)"
  have run: "strlcpy dst src n m = Some (of_nat (length xs), m')"
    using dst cstr_nonzero [OF src] strlen_cstr [OF src] kw
    by (simp add: strlcpy_def Let_def memcpy_def m'_def word_gt_0)
  have "unat dst + k < 2 ^ 32" "apart dst (Suc k) src (Suc (length xs))"
    using kn dst(3) apart by (auto simp: apart_def)
  note c = copy_terminate [OF src kn(1) this, folded m'_def]
  have tk: "take (unat n - 1) xs = take k xs" by (simp add: k_def min_def)
  have "cstr m' dst (take k xs)"
    using c(1,2) dst kn cstr_at(3) [OF src] set_take_subset [of k xs] by (auto simp: cstr_iff min_absorb2)
  moreover have "m' a = m a" if "\<not> (unat dst \<le> unat a \<and> unat a < unat dst + unat n)" for a
    using c(3) [of a] that kn(2) by linarith
  ultimately show ?thesis using run tk by auto
qed

theorem strlcpy_truncates_witness:
  "\<exists>m'. strlcpy 0x2000 0x1000 4 demo_mem = Some (7, m') \<and> cstr m' 0x2000 [32, 108, 115]"
proof -
  have "cstr demo_mem 0x1000 [32, 108, 115, 32, 32, 45, 108]" by code_simp
  from strlcpy_truncates [OF this, of "0x2000" 4] show ?thesis by (auto simp: apart_def)
qed

text \<open>
  \<open>strlcat\<close> to a buffer that holds a terminated string, apart from the source, leaves there the
  longest prefix of the concatenation that fits with its terminator, changes nothing outside the
  buffer, and returns the length of the whole concatenation.
\<close>

theorem strlcat_truncates:
  assumes src: "cstr m src xs" and dst: "cstr m dst ys" and n: "length ys < unat n" "unat dst + unat n \<le> 2 ^ 32"
    and apart: "apart dst (unat n) src (Suc (length xs))"
  shows "\<exists>m'. strlcat dst src n m = Some (of_nat (length xs) + of_nat (length ys), m') \<and>
    cstr m' dst (take (unat n - 1) (ys @ xs)) \<and>
    (\<forall>a. \<not> (unat dst \<le> unat a \<and> unat a < unat dst + unat n) \<longrightarrow> m' a = m a)"
proof -
  define l k where "l = length ys" and "k = min (length xs) (unat n - l - 1)"
  let ?d = "dst + of_nat l"
  have n0: "n > 0" using n(1) by (simp add: word_less_nat_alt)
  have kn: "k \<le> length xs" "l + Suc k \<le> unat n" using n(1) by (auto simp: k_def l_def)
  have ul: "unat (of_nat l :: addr) = l" using unat_of_nat_len [OF dst] by (simp add: l_def)
  have ln: "(of_nat l :: addr) < n" using n(1) ul by (simp add: word_less_nat_alt l_def)
  have ud: "unat ?d = unat dst + l" using ul n kn by (simp add: unat_word_ariths)
  have "unat (n - of_nat l - 1) = unat n - l - 1"
    using ln ul unat_pred [of "n - of_nat l"] by (simp add: unat_sub word_le_nat_alt word_less_nat_alt)
  then have kw: "(if of_nat (length xs) < n - of_nat l - 1 then of_nat (length xs) else n - of_nat l - 1) = (of_nat k :: addr)"
    using unat_of_nat_len [OF src, of "length xs"] unat_of_nat_len [OF src kn(1)] k_def
    by (simp add: word_less_nat_alt word_unat_eq_iff)
  define m' where "m' = (copy_up ?d src (of_nat k) m)(?d + of_nat k := 0)"
  have d0: "?d \<noteq> 0" using cstr_nonzero_at [OF dst, of l] by (simp add: l_def)
  have run: "strlcat dst src n m = Some (of_nat (length xs) + of_nat (length ys), m')"
    using n0 ln d0 cstr_nonzero [OF src] cstr_nonzero [OF dst] strlen_cstr [OF src] strlen_cstr [OF dst] kw
    by (simp add: strlcat_def Let_def memcpy_def m'_def word_gt_0 add.assoc flip: l_def)
  have "unat ?d + k < 2 ^ 32" "apart ?d (Suc k) src (Suc (length xs))"
    using kn n(2) apart ud by (auto simp: apart_def)
  note c = copy_terminate [OF src kn(1) this, folded m'_def]
  have keep: "m' (dst + of_nat i) = m (dst + of_nat i)" if "i < l" for i
  proof -
    have "unat (dst + of_nat i) = unat dst + i"
      using that unat_of_nat_len [OF dst, of i] ud n kn by (simp add: l_def unat_word_ariths)
    then show ?thesis using c(3) [of "dst + of_nat i"] ud that by simp
  qed
  have "bytes m' dst (l + k) = ys @ take k xs"
    unfolding bytes_append using c(1) bytes_cong [of l m' dst m dst] keep dst by (simp add: cstr_iff l_def)
  moreover have "take (unat n - 1) (ys @ xs) = ys @ take k xs"
    using n(1) by (simp add: k_def l_def min_def)
  moreover have "length (ys @ take k xs) = l + k" using kn by (simp add: l_def)
  ultimately have "cstr m' dst (take (unat n - 1) (ys @ xs))"
    using c(2) cstr_nonzero [OF dst] kn n(2) cstr_at(3) [OF src] cstr_at(3) [OF dst] set_take_subset [of k xs]
    by (auto simp: cstr_iff add.assoc)
  moreover have "m' a = m a" if "\<not> (unat dst \<le> unat a \<and> unat a < unat dst + unat n)" for a
    using c(3) [of a] that kn(2) ud by linarith
  ultimately show ?thesis using run by blast
qed

theorem strlcat_truncates_witness:
  "\<exists>m'. strlcat 0x1008 0x1005 4 demo_mem = Some (3, m') \<and> cstr m' 0x1008 [32, 45, 108]"
proof -
  have "cstr demo_mem 0x1005 [45, 108]" "cstr demo_mem 0x1008 [32]" by code_simp+
  from strlcat_truncates [OF this, of 4] show ?thesis by (auto simp: apart_def)
qed

text \<open>
  C15. One call of \<open>strtok_r\<close> on a string and a delimiter string, both terminated: when only delimiters
  are left it returns null and saves the end; otherwise it returns the start of the first maximal
  run free of delimiters, now terminated there, and saves a position that holds the rest of the
  string after that run and one delimiter.  At most that delimiter's byte is overwritten.
\<close>

theorem strtok_r_token:
  assumes s: "cstr m s xs" and d: "cstr m d ds"
  defines "ys \<equiv> dropWhile (\<lambda>x. x \<in> set ds) xs"
  defines "tok \<equiv> takeWhile (\<lambda>x. x \<notin> set ds) ys"
  shows "\<exists>p save m'. strtok_r s d 0 m = Some (p, save, m') \<and> strtok_r 0 d s m = Some (p, save, m') \<and>
    (if ys = [] then p = 0 \<and> m' = m \<and> cstr m save []
     else p = s + of_nat (length xs - length ys) \<and> tok \<noteq> [] \<and> cstr m' p tok \<and>
       cstr m' save (drop (Suc (length tok)) ys) \<and> (\<forall>a. a \<noteq> p + of_nat (length tok) \<longrightarrow> m' a = m a))"
proof -
  define k where "k = first_at (\<lambda>x. x \<notin> set ds) xs"
  have k: "ys = drop k xs" "length xs - length ys = k" "k \<le> length xs"
    using length_takeWhile_le [of "\<lambda>x. x \<in> set ds" xs] unfolding ys_def dropWhile_eq_drop by (auto simp: k_def)
  have nz: "s \<noteq> 0" "d \<noteq> 0" using cstr_nonzero s d by blast+
  have skip: "tok_skip s d m = Some (if ys = [] then Inl (s + of_nat k) else Inr (s + of_nat k))"
    using tok_skip_cstr [OF d s] k by (auto simp: k_def Let_def)
  define p t where "p = s + of_nat k" and "t = length tok"
  have p: "cstr m p ys" using cstr_drop [OF s k(3)] k(1) by (simp add: p_def)
  show ?thesis
  proof (cases "ys = []")
    case True
    then show ?thesis using skip nz p by (simp add: strtok_r_def p_def)
  next
    case False
    then have ne: "tok \<noteq> []" unfolding tok_def ys_def using hd_dropWhile [of "\<lambda>x. x \<in> set ds" xs]
      by (cases "dropWhile (\<lambda>x. x \<in> set ds) xs") auto
    have t: "tok = take t ys" "t \<le> length ys"
      unfolding t_def tok_def by (rule takeWhile_eq_take, rule length_takeWhile_le)
    have fin: "tok_end p d m = Some (p + of_nat t)" using tok_end_cstr [OF d p] by (simp add: t_def tok_def)
    show ?thesis
    proof (cases "t < length ys")
      case True
      have "m (p + of_nat t) \<noteq> 0" using cstr_at(1,5) [OF p True] by simp
      then have "strtok_r s d 0 m = Some (p, p + of_nat t + 1, m(p + of_nat t := 0))"
        "strtok_r 0 d s m = Some (p, p + of_nat t + 1, m(p + of_nat t := 0))"
        using False skip nz fin by (simp_all add: strtok_r_def p_def)
      moreover have "cstr (m(p + of_nat t := 0)) p tok" using cstr_cut(1) [OF p True] unfolding t(1) [symmetric] .
      ultimately show ?thesis using False ne cstr_cut(2) [OF p True] k(2) unfolding t_def [symmetric]
        by (intro exI [of _ p] exI [of _ "p + of_nat t + 1"] exI [of _ "m(p + of_nat t := 0)"]) (simp add: p_def)
    next
      case nt: False
      then have e: "t = length ys" using t(2) by simp
      have z: "m (p + of_nat t) = 0" "cstr m (p + of_nat t) []"
        using e cstr_at(2) [OF p] cstr_nonzero_at [OF p, of t] by simp_all
      then have "strtok_r s d 0 m = Some (p, p + of_nat t, m)" "strtok_r 0 d s m = Some (p, p + of_nat t, m)"
        using False skip nz fin by (simp_all add: strtok_r_def p_def)
      moreover have "cstr m p tok" unfolding t(1) using p e by simp
      ultimately show ?thesis using False ne z(2) e k(2) unfolding t_def [symmetric]
        by (intro exI [of _ p] exI [of _ "p + of_nat t"] exI [of _ m]) (simp add: p_def)
    qed
  qed
qed

theorem strtok_r_token_witness:
  "\<exists>save m'. strtok_r 0x1000 0x1008 0 demo_mem = Some (0x1001, save, m') \<and> cstr m' 0x1001 [108, 115] \<and>
    cstr m' save [32, 45, 108]"
proof -
  have "cstr demo_mem 0x1000 [32, 108, 115, 32, 32, 45, 108]" "cstr demo_mem 0x1008 [32]" by code_simp+
  from strtok_r_token [OF this] show ?thesis by auto
qed

text \<open>
  C18. \<open>strcmp\<close> is the lexicographic comparison of the two strings as unsigned bytes, and \<open>strstr\<close> returns
  the needle's first occurrence, or null exactly when it does not occur.
\<close>

theorem strcmp_strstr_correct:
  assumes a: "cstr m a xs" and b: "cstr m b ys"
  shows "(\<exists>r. strcmp a b m = Some r \<and> (r = 0 \<longleftrightarrow> xs = ys) \<and>
      (r < 0 \<longleftrightarrow> (xs, ys) \<in> lexord {(x, y). x < y}) \<and> (r > 0 \<longleftrightarrow> (ys, xs) \<in> lexord {(x, y). x < y})) \<and>
    (\<exists>r. strstr a b m = Some r \<and>
      (if \<exists>k. occurs_at ys xs k then r = a + of_nat (LEAST k. occurs_at ys xs k) else r = 0))"
proof -
  have "strcmp a b m = Some (cmp_bytes (xs @ [0]) (ys @ [0]))"
    using strcmp_cstr [OF a b] cstr_nonzero a b by (simp add: strcmp_def)
  moreover have "\<exists>r. strstr a b m = Some r \<and>
      (if \<exists>k. occurs_at ys xs k then r = a + of_nat (LEAST k. occurs_at ys xs k) else r = 0)"
  proof (cases "length ys \<le> length xs")
    case True
    have "(of_nat (length ys) :: addr) \<le> of_nat (length xs)"
      using True unat_of_nat_len [OF a] unat_of_nat_len [OF b] by (simp add: word_le_nat_alt)
    then have "strstr a b m = strstr_loop a b (of_nat (length xs)) (of_nat (length ys)) (of_nat 0) m"
      using strlen_cstr a b by (simp add: strstr_def)
    moreover have "k = (LEAST k. occurs_at ys xs k)" if "occurs_at ys xs k" "\<forall>j < k. \<not> occurs_at ys xs j" for k
      using that by (intro Least_equality [symmetric]) (auto simp: not_less [symmetric])
    ultimately show ?thesis using strstr_search [OF a b True, of 0] by auto
  next
    case False
    then have "\<not> (of_nat (length ys) :: addr) \<le> of_nat (length xs)"
      using unat_of_nat_len [OF a] unat_of_nat_len [OF b] by (simp add: word_le_nat_alt)
    then show ?thesis using False strlen_cstr a b by (auto simp: strstr_def occurs_at_def)
  qed
  ultimately show ?thesis using cmp_strings_lex [OF cstr_at(3) [OF a] cstr_at(3) [OF b]] by auto
qed

theorem strcmp_strstr_correct_witness:
  "\<exists>r. strcmp 0x1000 0x1008 demo_mem = Some r \<and> r > 0"
proof -
  have "cstr demo_mem 0x1000 [32, 108, 115, 32, 32, 45, 108]" "cstr demo_mem 0x1008 [32]" by code_simp+
  from strcmp_strstr_correct [OF this] show ?thesis by auto
qed

end
