(* ===== verification/Linked_List.thy ===== *)
theory Linked_List
  imports Prelude
begin

text \<open>
  \<open>lib/kernel/list.c\<close>: doubly linked lists with a head and a tail sentinel.  The model works on
  the pointer level: a \<open>heap\<close> gives the \<open>prev\<close> and \<open>next\<close> fields of every \<open>struct list_elem\<close> by
  its 32-bit address (0 is the null pointer), a \<open>dlist\<close> holds the addresses of the two
  sentinels embedded in a \<open>struct list\<close>, and every operation performs the source's assignments
  in the source's order, with its assertions.  A dereference of a null pointer is a panic.
  Loops over pointers are \<open>partial_function (option)\<close>, so that a loop that does not return is
  \<open>None\<close>.  The relation \<open>dll h l xs\<close> says that the heap holds a well-formed list with the
  elements \<open>xs\<close>; the lemmas show that each operation is its counterpart on \<open>xs\<close>, returns,
  and leaves every other element of memory alone.
\<close>

section \<open>Definitions\<close>

type_synonym ptr = "32 word"

record heap =
  prv :: "ptr \<Rightarrow> ptr"
  nxt :: "ptr \<Rightarrow> ptr"

record dlist =
  lhead :: ptr
  ltail :: ptr

type_synonym list_less_func = "ptr \<Rightarrow> ptr \<Rightarrow> bool"

definition set_prv :: "ptr \<Rightarrow> ptr \<Rightarrow> heap \<Rightarrow> heap" where
  "set_prv p v h = h\<lparr>prv := (prv h)(p := v)\<rparr>"

definition set_nxt :: "ptr \<Rightarrow> ptr \<Rightarrow> heap \<Rightarrow> heap" where
  "set_nxt p v h = h\<lparr>nxt := (nxt h)(p := v)\<rparr>"

definition is_head :: "heap \<Rightarrow> ptr \<Rightarrow> bool" where
  "is_head h elem \<longleftrightarrow> elem \<noteq> 0 \<and> prv h elem = 0 \<and> nxt h elem \<noteq> 0"

definition is_interior :: "heap \<Rightarrow> ptr \<Rightarrow> bool" where
  "is_interior h elem \<longleftrightarrow> elem \<noteq> 0 \<and> prv h elem \<noteq> 0 \<and> nxt h elem \<noteq> 0"

definition is_tail :: "heap \<Rightarrow> ptr \<Rightarrow> bool" where
  "is_tail h elem \<longleftrightarrow> elem \<noteq> 0 \<and> prv h elem \<noteq> 0 \<and> nxt h elem = 0"

definition list_init :: "dlist \<Rightarrow> heap \<Rightarrow> heap" where
  "list_init l h =
     set_nxt (ltail l) 0 (set_prv (ltail l) (lhead l)
       (set_nxt (lhead l) (ltail l) (set_prv (lhead l) 0 h)))"

definition list_begin :: "heap \<Rightarrow> dlist \<Rightarrow> ptr" where
  "list_begin h l = nxt h (lhead l)"

definition list_next :: "heap \<Rightarrow> ptr \<Rightarrow> ptr option" where
  "list_next h elem = do { ASSERT (is_head h elem \<or> is_interior h elem); Some (nxt h elem) }"

definition list_end :: "dlist \<Rightarrow> ptr" where
  "list_end l = ltail l"

definition list_rbegin :: "heap \<Rightarrow> dlist \<Rightarrow> ptr" where
  "list_rbegin h l = prv h (ltail l)"

definition list_prev :: "heap \<Rightarrow> ptr \<Rightarrow> ptr option" where
  "list_prev h elem = do { ASSERT (is_interior h elem \<or> is_tail h elem); Some (prv h elem) }"

definition list_rend :: "dlist \<Rightarrow> ptr" where
  "list_rend l = lhead l"

definition list_head :: "dlist \<Rightarrow> ptr" where
  "list_head l = lhead l"

definition list_tail :: "dlist \<Rightarrow> ptr" where
  "list_tail l = ltail l"

definition list_insert :: "heap \<Rightarrow> ptr \<Rightarrow> ptr \<Rightarrow> heap option" where
  "list_insert h before elem = do {
     ASSERT (is_interior h before \<or> is_tail h before);
     ASSERT (elem \<noteq> 0);
     let h = set_prv elem (prv h before) h;
     let h = set_nxt elem before h;
     let h = set_nxt (prv h before) elem h;
     Some (set_prv before elem h) }"

definition list_splice :: "heap \<Rightarrow> ptr \<Rightarrow> ptr \<Rightarrow> ptr \<Rightarrow> heap option" where
  "list_splice h before first lst = do {
     ASSERT (is_interior h before \<or> is_tail h before);
     if first = lst then Some h else do {
       lst \<leftarrow> list_prev h lst;
       ASSERT (is_interior h first);
       ASSERT (is_interior h lst);
       let h = set_nxt (prv h first) (nxt h lst) h;
       let h = set_prv (nxt h lst) (prv h first) h;
       let h = set_prv first (prv h before) h;
       let h = set_nxt lst before h;
       let h = set_nxt (prv h before) first h;
       Some (set_prv before lst h) } }"

definition list_push_front :: "heap \<Rightarrow> dlist \<Rightarrow> ptr \<Rightarrow> heap option" where
  "list_push_front h l elem = list_insert h (list_begin h l) elem"

definition list_push_back :: "heap \<Rightarrow> dlist \<Rightarrow> ptr \<Rightarrow> heap option" where
  "list_push_back h l elem = list_insert h (list_end l) elem"

definition list_remove :: "heap \<Rightarrow> ptr \<Rightarrow> (ptr \<times> heap) option" where
  "list_remove h elem = do {
     ASSERT (is_interior h elem);
     let h = set_nxt (prv h elem) (nxt h elem) h;
     let h = set_prv (nxt h elem) (prv h elem) h;
     Some (nxt h elem, h) }"

definition list_empty :: "heap \<Rightarrow> dlist \<Rightarrow> bool" where
  "list_empty h l \<longleftrightarrow> list_begin h l = list_end l"

definition list_front :: "heap \<Rightarrow> dlist \<Rightarrow> ptr option" where
  "list_front h l = do { ASSERT (\<not> list_empty h l); Some (nxt h (lhead l)) }"

definition list_back :: "heap \<Rightarrow> dlist \<Rightarrow> ptr option" where
  "list_back h l = do { ASSERT (\<not> list_empty h l); Some (prv h (ltail l)) }"

definition list_pop_front :: "heap \<Rightarrow> dlist \<Rightarrow> (ptr \<times> heap) option" where
  "list_pop_front h l = do {
     front \<leftarrow> list_front h l;
     (_, h) \<leftarrow> list_remove h front;
     Some (front, h) }"

definition list_pop_back :: "heap \<Rightarrow> dlist \<Rightarrow> (ptr \<times> heap) option" where
  "list_pop_back h l = do {
     back \<leftarrow> list_back h l;
     (_, h) \<leftarrow> list_remove h back;
     Some (back, h) }"

partial_function (option) size_loop :: "heap \<Rightarrow> dlist \<Rightarrow> ptr \<Rightarrow> size_t \<Rightarrow> size_t option" where
  "size_loop h l e cnt =
     (if e \<noteq> list_end l
      then do { e \<leftarrow> list_next h e; size_loop h l e (cnt + 1) }
      else Some cnt)"

definition list_size :: "heap \<Rightarrow> dlist \<Rightarrow> size_t option" where
  "list_size h l = size_loop h l (list_begin h l) 0"

text \<open>Reversal: \<open>swap\<close> of the two fields of an element, then of the sentinels' fields.\<close>

definition swap_fields :: "ptr \<Rightarrow> heap \<Rightarrow> heap option" where
  "swap_fields e h = do {
     ASSERT (e \<noteq> 0);
     let t = prv h e;
     let h = set_prv e (nxt h e) h;
     Some (set_nxt e t h) }"

partial_function (option) reverse_loop :: "heap \<Rightarrow> dlist \<Rightarrow> ptr \<Rightarrow> heap option" where
  "reverse_loop h l e =
     (if e \<noteq> list_end l
      then do { h \<leftarrow> swap_fields e h; reverse_loop h l (prv h e) }
      else Some h)"

definition list_reverse :: "heap \<Rightarrow> dlist \<Rightarrow> heap option" where
  "list_reverse h l =
     (if \<not> list_empty h l then do {
        h \<leftarrow> reverse_loop h l (list_begin h l);
        let t = nxt h (lhead l);
        let h = set_nxt (lhead l) (prv h (ltail l)) h;
        let h = set_prv (ltail l) t h;
        let a = nxt h (lhead l);
        let b = prv h (ltail l);
        ASSERT (a \<noteq> 0 \<and> b \<noteq> 0);
        let t = prv h a;
        let h = set_prv a (nxt h b) h;
        Some (set_nxt b t h) }
      else Some h)"

partial_function (option) sorted_loop ::
    "heap \<Rightarrow> ptr \<Rightarrow> ptr \<Rightarrow> list_less_func \<Rightarrow> bool option" where
  "sorted_loop h a b lt = do {
     a \<leftarrow> list_next h a;
     if a \<noteq> b then do {
       p \<leftarrow> list_prev h a;
       if lt a p then Some False else sorted_loop h a b lt }
     else Some True }"

definition is_sorted :: "heap \<Rightarrow> ptr \<Rightarrow> ptr \<Rightarrow> list_less_func \<Rightarrow> bool option" where
  "is_sorted h a b lt = (if a \<noteq> b then sorted_loop h a b lt else Some True)"

partial_function (option) end_of_run_loop ::
    "heap \<Rightarrow> ptr \<Rightarrow> ptr \<Rightarrow> list_less_func \<Rightarrow> ptr option" where
  "end_of_run_loop h a b lt = do {
     a \<leftarrow> list_next h a;
     if a \<noteq> b then do {
       p \<leftarrow> list_prev h a;
       if \<not> lt a p then end_of_run_loop h a b lt else Some a }
     else Some a }"

definition find_end_of_run :: "heap \<Rightarrow> ptr \<Rightarrow> ptr \<Rightarrow> list_less_func \<Rightarrow> ptr option" where
  "find_end_of_run h a b lt = do {
     ASSERT (a \<noteq> 0);
     ASSERT (b \<noteq> 0);
     ASSERT (a \<noteq> b);
     end_of_run_loop h a b lt }"

partial_function (option) merge_loop ::
    "heap \<Rightarrow> ptr \<Rightarrow> ptr \<Rightarrow> ptr \<Rightarrow> list_less_func \<Rightarrow> heap option" where
  "merge_loop h a0 a1b0 b1 lt =
     (if a0 \<noteq> a1b0 \<and> a1b0 \<noteq> b1 then
        if \<not> lt a1b0 a0 then do {
          a0 \<leftarrow> list_next h a0;
          merge_loop h a0 a1b0 b1 lt }
        else do {
          a1b0 \<leftarrow> list_next h a1b0;
          p \<leftarrow> list_prev h a1b0;
          h \<leftarrow> list_splice h a0 p a1b0;
          merge_loop h a0 a1b0 b1 lt }
      else Some h)"

definition inplace_merge ::
    "heap \<Rightarrow> ptr \<Rightarrow> ptr \<Rightarrow> ptr \<Rightarrow> list_less_func \<Rightarrow> heap option" where
  "inplace_merge h a0 a1b0 b1 lt = do {
     ASSERT (a0 \<noteq> 0);
     ASSERT (a1b0 \<noteq> 0);
     ASSERT (b1 \<noteq> 0);
     s1 \<leftarrow> is_sorted h a0 a1b0 lt;
     ASSERT s1;
     s2 \<leftarrow> is_sorted h a1b0 b1 lt;
     ASSERT s2;
     merge_loop h a0 a1b0 b1 lt }"

text \<open>One pass of \<open>list_sort\<close> is its inner loop; the result carries \<open>output_run_cnt\<close>.\<close>

partial_function (option) sort_pass ::
    "heap \<Rightarrow> dlist \<Rightarrow> ptr \<Rightarrow> list_less_func \<Rightarrow> size_t \<Rightarrow> (size_t \<times> heap) option" where
  "sort_pass h l a0 lt output_run_cnt =
     (if a0 \<noteq> list_end l then do {
        let output_run_cnt = output_run_cnt + 1;
        a1b0 \<leftarrow> find_end_of_run h a0 (list_end l) lt;
        if a1b0 = list_end l then Some (output_run_cnt, h)
        else do {
          b1 \<leftarrow> find_end_of_run h a1b0 (list_end l) lt;
          h \<leftarrow> inplace_merge h a0 a1b0 b1 lt;
          sort_pass h l b1 lt output_run_cnt } }
      else Some (output_run_cnt, h))"

partial_function (option) sort_loop :: "heap \<Rightarrow> dlist \<Rightarrow> list_less_func \<Rightarrow> heap option" where
  "sort_loop h l lt = do {
     (output_run_cnt, h) \<leftarrow> sort_pass h l (list_begin h l) lt 0;
     if output_run_cnt > 1 then sort_loop h l lt else Some h }"

definition list_sort :: "heap \<Rightarrow> dlist \<Rightarrow> list_less_func \<Rightarrow> heap option" where
  "list_sort h l lt = do {
     h \<leftarrow> sort_loop h l lt;
     s \<leftarrow> is_sorted h (list_begin h l) (list_end l) lt;
     ASSERT s;
     Some h }"

partial_function (option) ordered_loop ::
    "heap \<Rightarrow> dlist \<Rightarrow> ptr \<Rightarrow> ptr \<Rightarrow> list_less_func \<Rightarrow> ptr option" where
  "ordered_loop h l elem e lt =
     (if e \<noteq> list_end l then
        if lt elem e then Some e
        else do { e \<leftarrow> list_next h e; ordered_loop h l elem e lt }
      else Some e)"

definition list_insert_ordered :: "heap \<Rightarrow> dlist \<Rightarrow> ptr \<Rightarrow> list_less_func \<Rightarrow> heap option" where
  "list_insert_ordered h l elem lt = do {
     ASSERT (elem \<noteq> 0);
     e \<leftarrow> ordered_loop h l elem (list_begin h l) lt;
     list_insert h e elem }"

partial_function (option) unique_loop ::
    "heap \<Rightarrow> dlist \<Rightarrow> dlist option \<Rightarrow> ptr \<Rightarrow> list_less_func \<Rightarrow> heap option" where
  "unique_loop h l duplicates elem lt = do {
     next \<leftarrow> list_next h elem;
     if next \<noteq> list_end l then
       if \<not> lt elem next \<and> \<not> lt next elem then do {
         (_, h) \<leftarrow> list_remove h next;
         h \<leftarrow> (case duplicates of Some d \<Rightarrow> list_push_back h d next | None \<Rightarrow> Some h);
         unique_loop h l duplicates elem lt }
       else unique_loop h l duplicates next lt
     else Some h }"

definition list_unique :: "heap \<Rightarrow> dlist \<Rightarrow> dlist option \<Rightarrow> list_less_func \<Rightarrow> heap option" where
  "list_unique h l duplicates lt =
     (if list_empty h l then Some h else unique_loop h l duplicates (list_begin h l) lt)"

partial_function (option) max_loop ::
    "heap \<Rightarrow> dlist \<Rightarrow> ptr \<Rightarrow> ptr \<Rightarrow> list_less_func \<Rightarrow> ptr option" where
  "max_loop h l m e lt =
     (if e \<noteq> list_end l
      then do {
        let m = (if lt m e then e else m);
        e \<leftarrow> list_next h e;
        max_loop h l m e lt }
      else Some m)"

definition list_max :: "heap \<Rightarrow> dlist \<Rightarrow> list_less_func \<Rightarrow> ptr option" where
  "list_max h l lt =
     (let m = list_begin h l in
      if m \<noteq> list_end l then do { e \<leftarrow> list_next h m; max_loop h l m e lt } else Some m)"

partial_function (option) min_loop ::
    "heap \<Rightarrow> dlist \<Rightarrow> ptr \<Rightarrow> ptr \<Rightarrow> list_less_func \<Rightarrow> ptr option" where
  "min_loop h l m e lt =
     (if e \<noteq> list_end l
      then do {
        let m = (if lt e m then e else m);
        e \<leftarrow> list_next h e;
        min_loop h l m e lt }
      else Some m)"

definition list_min :: "heap \<Rightarrow> dlist \<Rightarrow> list_less_func \<Rightarrow> ptr option" where
  "list_min h l lt =
     (let m = list_begin h l in
      if m \<noteq> list_end l then do { e \<leftarrow> list_next h m; min_loop h l m e lt } else Some m)"

section \<open>Well-formed lists\<close>

fun links :: "heap \<Rightarrow> ptr list \<Rightarrow> bool" where
  "links h (a # b # ys) \<longleftrightarrow> nxt h a = b \<and> prv h b = a \<and> links h (b # ys)"
| "links h _ \<longleftrightarrow> True"

definition nodes :: "dlist \<Rightarrow> ptr list \<Rightarrow> ptr list" where
  "nodes l xs = lhead l # xs @ [ltail l]"

definition dll :: "heap \<Rightarrow> dlist \<Rightarrow> ptr list \<Rightarrow> bool" where
  "dll h l xs \<longleftrightarrow> distinct (nodes l xs) \<and> 0 \<notin> set (nodes l xs) \<and> links h (nodes l xs) \<and>
     prv h (lhead l) = 0 \<and> nxt h (ltail l) = 0"

definition at :: "dlist \<Rightarrow> ptr list \<Rightarrow> ptr" where
  "at l xs = hd (xs @ [ltail l])"

definition same_outside :: "heap \<Rightarrow> heap \<Rightarrow> ptr set \<Rightarrow> bool" where
  "same_outside h h' A \<longleftrightarrow> (\<forall>p. p \<notin> A \<longrightarrow> prv h' p = prv h p \<and> nxt h' p = nxt h p)"

definition unlink_seg :: "ptr \<Rightarrow> ptr \<Rightarrow> heap \<Rightarrow> heap" where
  "unlink_seg p q h = set_prv q p (set_nxt p q h)"

definition link_seg :: "ptr \<Rightarrow> ptr \<Rightarrow> ptr \<Rightarrow> ptr \<Rightarrow> heap \<Rightarrow> heap" where
  "link_seg p a z q h = set_prv q z (set_nxt p a (set_nxt z q (set_prv a p h)))"

subsection \<open>Heap updates\<close>

lemma heap_upd_simps [simp]:
  "prv (set_prv p v h) q = (if q = p then v else prv h q)" "nxt (set_prv p v h) = nxt h"
  "nxt (set_nxt p v h) q = (if q = p then v else nxt h q)" "prv (set_nxt p v h) = prv h"
  by (auto simp: set_prv_def set_nxt_def)

lemma links_cong:
  "links h ys \<Longrightarrow> (\<And>p. p \<in> set (butlast ys) \<Longrightarrow> nxt h' p = nxt h p) \<Longrightarrow>
    (\<And>p. p \<in> set (tl ys) \<Longrightarrow> prv h' p = prv h p) \<Longrightarrow> links h' ys"
  by (induction h ys rule: links.induct) (auto split: if_splits)

lemma links_join:
  "us \<noteq> [] \<Longrightarrow> vs \<noteq> [] \<Longrightarrow> links h (us @ vs) \<longleftrightarrow>
    links h us \<and> links h vs \<and> nxt h (last us) = hd vs \<and> prv h (hd vs) = last us"
proof (induction us)
  case (Cons a us)
  then show ?case by (cases us; cases vs) auto
qed simp

lemma same_outside_refl [simp, intro]: "same_outside h h A"
  by (simp add: same_outside_def)

lemma same_outside_trans:
  "same_outside h h1 A \<Longrightarrow> same_outside h1 h2 B \<Longrightarrow> A \<subseteq> C \<Longrightarrow> B \<subseteq> C \<Longrightarrow> same_outside h h2 C"
  unfolding same_outside_def by (metis subsetD)

lemma dll_frame:
  assumes "dll h l xs" "same_outside h h' A" "set (nodes l xs) \<inter> A = {}"
  shows "dll h' l xs"
proof -
  have same: "prv h' p = prv h p" "nxt h' p = nxt h p" if "p \<in> set (nodes l xs)" for p
    using assms that by (auto simp: same_outside_def)
  have sub: "set (butlast (nodes l xs)) \<subseteq> set (nodes l xs)" "set (tl (nodes l xs)) \<subseteq> set (nodes l xs)"
    by (auto simp: nodes_def dest: in_set_butlastD)
  have "links h (nodes l xs)" using assms(1) by (simp add: dll_def)
  then have "links h' (nodes l xs)"
    by (rule links_cong) (use same sub in blast)+
  moreover have "lhead l \<in> set (nodes l xs)" "ltail l \<in> set (nodes l xs)" by (auto simp: nodes_def)
  ultimately show ?thesis using assms(1) same unfolding dll_def by metis
qed

lemma dll_nodes:
  assumes "dll h l (us @ vs)"
  shows "nodes l (us @ vs) = (lhead l # us) @ (vs @ [ltail l])"
    "nxt h (last (lhead l # us)) = at l vs" "prv h (at l vs) = last (lhead l # us)"
    "links h (lhead l # us)" "links h (vs @ [ltail l])"
proof -
  show n: "nodes l (us @ vs) = (lhead l # us) @ (vs @ [ltail l])" by (simp add: nodes_def)
  from assms have "links h ((lhead l # us) @ (vs @ [ltail l]))" unfolding dll_def n by simp
  then show "nxt h (last (lhead l # us)) = at l vs" "prv h (at l vs) = last (lhead l # us)"
    "links h (lhead l # us)" "links h (vs @ [ltail l])"
    by (subst (asm) links_join; simp add: at_def)+
qed

lemma at_simps [simp]: "at l [] = ltail l" "at l (x # xs) = x"
  by (auto simp: at_def)

lemma at_append: "at l (xs @ ys) = (if xs = [] then at l ys else hd xs)"
  by (cases xs) auto

lemma at_in_nodes: "at l vs \<in> set (nodes l (us @ vs))"
  by (cases vs) (auto simp: nodes_def)

lemma dll_at:
  assumes "dll h l (us @ vs)"
  shows "at l vs \<noteq> 0" "prv h (at l vs) \<noteq> 0" "at l vs = ltail l \<longleftrightarrow> vs = []"
    "is_interior h (at l vs) \<longleftrightarrow> vs \<noteq> []" "is_tail h (at l vs) \<longleftrightarrow> vs = []"
proof -
  have z: "0 \<notin> set (nodes l (us @ vs))" "distinct (nodes l (us @ vs))"
    using assms by (auto simp: dll_def)
  show nz: "at l vs \<noteq> 0" using z(1) at_in_nodes [of l vs us] by metis
  have "last (lhead l # us) \<in> set (nodes l (us @ vs))" by (auto simp: nodes_def)
  then show p: "prv h (at l vs) \<noteq> 0" using z(1) dll_nodes(3) [OF assms] by metis
  show t: "at l vs = ltail l \<longleftrightarrow> vs = []" using z(2) by (cases vs) (auto simp: nodes_def)
  have "nxt h (at l vs) = 0 \<longleftrightarrow> vs = []"
  proof (cases vs)
    case Nil
    with assms show ?thesis by (simp add: dll_def)
  next
    case (Cons v vs')
    with assms have "dll h l ((us @ [v]) @ vs')" by simp
    from dll_nodes(2) [OF this] have "nxt h v = at l vs'" by simp
    moreover have "at l vs' \<in> set (nodes l (us @ vs))"
      using Cons at_in_nodes [of l vs' "us @ [v]"] by simp
    ultimately show ?thesis using z(1) Cons by (metis at_simps(2) list.distinct(1))
  qed
  with nz p show "is_interior h (at l vs) \<longleftrightarrow> vs \<noteq> []" "is_tail h (at l vs) \<longleftrightarrow> vs = []"
    by (auto simp: is_interior_def is_tail_def)
qed

text \<open>Moving along a list.\<close>

lemma list_begin_at: "dll h l xs \<Longrightarrow> list_begin h l = at l xs"
  using dll_nodes(2) [of h l "[]" xs] by (simp add: list_begin_def)

lemma list_empty_iff: "dll h l xs \<Longrightarrow> list_empty h l \<longleftrightarrow> xs = []"
  using dll_at(3) [of h l "[]" xs] by (simp add: list_empty_def list_begin_at list_end_def)

lemma list_next_at:
  "dll h l (us @ x # vs) \<Longrightarrow> list_next h x = Some (at l vs)"
  using dll_at(4) [of h l us "x # vs"] dll_nodes(2) [of h l "us @ [x]" vs]
  by (simp add: list_next_def)

lemma list_prev_at:
  "dll h l (us @ x # vs) \<Longrightarrow> list_prev h (at l vs) = Some x"
  using dll_at(4,5) [of h l "us @ [x]" vs] dll_nodes(3) [of h l "us @ [x]" vs]
  by (cases "vs = []") (simp_all add: list_prev_def)

lemma list_init_dll:
  assumes "lhead l \<noteq> 0" "ltail l \<noteq> 0" "lhead l \<noteq> ltail l"
  shows "dll (list_init l h) l []" "same_outside h (list_init l h) {lhead l, ltail l}"
  using assms by (auto simp: list_init_def dll_def nodes_def same_outside_def)

subsection \<open>Cutting and pasting segments\<close>

lemma links_set_nxt: "links h ys \<Longrightarrow> p \<notin> set (butlast ys) \<Longrightarrow> links (set_nxt p v h) ys"
  by (erule links_cong) auto

lemma links_set_prv: "links h ys \<Longrightarrow> p \<notin> set (tl ys) \<Longrightarrow> links (set_prv p v h) ys"
  by (erule links_cong) auto

lemma distinct_last_butlast [simp]: "distinct ys \<Longrightarrow> ys \<noteq> [] \<Longrightarrow> last ys \<notin> set (butlast ys)"
  by (metis append_butlast_last_id distinct_append disjoint_iff list.set_intros(1))

lemma distinct_hd_tl [simp]: "distinct ys \<Longrightarrow> ys \<noteq> [] \<Longrightarrow> hd ys \<notin> set (tl ys)"
  by (cases ys) auto

lemma in_set_tlD: "x \<in> set (tl ys) \<Longrightarrow> x \<in> set ys"
  by (cases ys) auto

lemma links_unlink:
  assumes "links h (ps @ fs @ qs)" "distinct (ps @ fs @ qs)" "ps \<noteq> []" "fs \<noteq> []" "qs \<noteq> []"
  shows "links (unlink_seg (last ps) (hd qs) h) (ps @ qs)" "links (unlink_seg (last ps) (hd qs) h) fs"
proof -
  from assms have l: "links h ps" "links h fs" "links h qs" by (auto simp: links_join)
  from assms have d: "distinct ps" "distinct qs" "last ps \<notin> set fs \<union> set qs" "hd qs \<notin> set ps \<union> set fs"
    by (auto dest: last_in_set hd_in_set)
  let ?h = "unlink_seg (last ps) (hd qs) h"
  have "links ?h ps" "links ?h qs" and f: "links ?h fs"
    unfolding unlink_seg_def using assms(3,5) d
    by (auto intro!: links_set_prv links_set_nxt l
        dest: in_set_butlastD in_set_tlD)
  with assms(3,5) d show "links ?h (ps @ qs)" "links ?h fs" by (auto simp: links_join unlink_seg_def)
qed

lemma links_link:
  assumes "links h (ps @ qs)" "links h fs" "distinct (ps @ fs @ qs)" "ps \<noteq> []" "fs \<noteq> []" "qs \<noteq> []"
  shows "links (link_seg (last ps) (hd fs) (last fs) (hd qs) h) (ps @ fs @ qs)"
proof -
  from assms have l: "links h ps" "links h qs" by (auto simp: links_join)
  from assms have d: "distinct ps" "distinct fs" "distinct qs"
    "last ps \<notin> set fs \<union> set qs" "hd qs \<notin> set ps \<union> set fs"
    "last fs \<notin> set ps \<union> set qs" "hd fs \<notin> set ps \<union> set qs"
    by (auto dest: last_in_set hd_in_set)
  let ?h = "link_seg (last ps) (hd fs) (last fs) (hd qs) h"
  have "links ?h ps" "links ?h fs" "links ?h qs"
    unfolding link_seg_def using assms(4-6) d
    by (auto intro!: links_set_prv links_set_nxt l assms(2)
        dest: in_set_butlastD in_set_tlD)
  with assms(4-6) d show ?thesis by (auto simp: links_join link_seg_def)
qed

lemma unlink_dll:
  assumes "dll h l (us @ fs @ vs)" "fs \<noteq> []"
  shows "dll (unlink_seg (last (lhead l # us)) (at l vs) h) l (us @ vs)"
    "links (unlink_seg (last (lhead l # us)) (at l vs) h) fs"
    "same_outside h (unlink_seg (last (lhead l # us)) (at l vs) h) (set (nodes l (us @ vs)))"
proof -
  let ?ps = "lhead l # us" and ?qs = "vs @ [ltail l]"
  let ?h = "unlink_seg (last ?ps) (at l vs) h"
  have n: "nodes l (us @ fs @ vs) = ?ps @ fs @ ?qs" "nodes l (us @ vs) = ?ps @ ?qs"
    by (auto simp: nodes_def)
  have d: "links h (?ps @ fs @ ?qs)" "distinct (?ps @ fs @ ?qs)" "0 \<notin> set (?ps @ fs @ ?qs)"
    "prv h (lhead l) = 0" "nxt h (ltail l) = 0"
    using assms(1) unfolding dll_def n by auto
  have "links ?h (?ps @ ?qs)" and f: "links ?h fs"
    using links_unlink [OF d(1,2) _ assms(2)] unfolding at_def by auto
  moreover have "last ?ps \<noteq> ltail l" "at l vs \<noteq> lhead l"
    using d(2) by (auto simp: at_def hd_append split: if_splits dest: last_in_set hd_in_set)
  then have "prv ?h (lhead l) = 0" "nxt ?h (ltail l) = 0"
    using d(4,5) by (auto simp: unlink_seg_def)
  ultimately show "dll ?h l (us @ vs)"
    using d(2,3) unfolding dll_def n by auto
  show "links ?h fs" by (rule f)
  show "same_outside h ?h (set (nodes l (us @ vs)))"
    using at_in_nodes [of l vs us] by (auto simp: same_outside_def unlink_seg_def nodes_def)
qed

lemma link_dll:
  assumes "dll h l (us @ vs)" "links h fs" "fs \<noteq> []" "distinct fs" "0 \<notin> set fs"
    "set fs \<inter> set (nodes l (us @ vs)) = {}"
  shows "dll (link_seg (last (lhead l # us)) (hd fs) (last fs) (at l vs) h) l (us @ fs @ vs)"
    "same_outside h (link_seg (last (lhead l # us)) (hd fs) (last fs) (at l vs) h)
      (set (nodes l (us @ fs @ vs)))"
proof -
  let ?ps = "lhead l # us" and ?qs = "vs @ [ltail l]"
  let ?h = "link_seg (last ?ps) (hd fs) (last fs) (at l vs) h"
  have n: "nodes l (us @ fs @ vs) = ?ps @ fs @ ?qs" "nodes l (us @ vs) = ?ps @ ?qs"
    by (auto simp: nodes_def)
  have d: "links h (?ps @ ?qs)" "distinct (?ps @ ?qs)" "0 \<notin> set (?ps @ ?qs)"
    "prv h (lhead l) = 0" "nxt h (ltail l) = 0"
    using assms(1) unfolding dll_def n by auto
  have df: "distinct (?ps @ fs @ ?qs)"
    using d(2) assms(4,6) unfolding n by auto
  then have "links ?h (?ps @ fs @ ?qs)"
    using links_link [OF d(1) assms(2) df _ assms(3)] unfolding at_def by auto
  moreover have "last ?ps \<noteq> ltail l" "at l vs \<noteq> lhead l" "last fs \<noteq> ltail l" "hd fs \<noteq> lhead l"
    using df assms(3) by (auto simp: at_def hd_append split: if_splits dest: last_in_set hd_in_set)
  then have "prv ?h (lhead l) = 0" "nxt ?h (ltail l) = 0"
    using d(4,5) by (auto simp: link_seg_def)
  ultimately show "dll ?h l (us @ fs @ vs)"
    using df d(3) assms(5) unfolding dll_def n by auto
  show "same_outside h ?h (set (nodes l (us @ fs @ vs)))"
    using at_in_nodes [of l vs "us @ fs"] assms(3)
    by (auto simp: same_outside_def link_seg_def nodes_def)
qed

subsection \<open>Insertion, removal, splicing\<close>

lemma dll_split:
  assumes "dll h l (us @ vs)"
  shows "last (lhead l # us) \<in> set (nodes l us)" "last (lhead l # us) \<noteq> at l vs"
    "distinct (us @ vs)" "0 \<notin> set (us @ vs)"
proof -
  from assms have d: "distinct ((lhead l # us) @ vs @ [ltail l])" "0 \<notin> set (us @ vs)"
    by (auto simp: dll_def nodes_def)
  then show "distinct (us @ vs)" "0 \<notin> set (us @ vs)" by auto
  have "last (lhead l # us) \<in> set (lhead l # us)" "at l vs \<in> set (vs @ [ltail l])"
    by (rule last_in_set, simp) (cases vs; simp)
  moreover have "set (lhead l # us) \<inter> set (vs @ [ltail l]) = {}" using d(1) by (simp only: distinct_append)
  ultimately show "last (lhead l # us) \<noteq> at l vs" by (metis disjoint_iff)
  show "last (lhead l # us) \<in> set (nodes l us)" by (auto simp: nodes_def)
qed

lemma list_insert_dll:
  assumes "dll h l (us @ vs)" "e \<notin> set (nodes l (us @ vs))" "e \<noteq> 0"
  obtains h' where "list_insert h (at l vs) e = Some h'" "dll h' l (us @ e # vs)"
    "same_outside h h' (set (nodes l (us @ e # vs)))"
proof -
  let ?h = "link_seg (last (lhead l # us)) e e (at l vs) h"
  have "at l vs \<noteq> e" using assms(2) at_in_nodes [of l vs us] by metis
  then have "list_insert h (at l vs) e = Some ?h"
    using dll_at [OF assms(1)] dll_nodes(3) [OF assms(1)] assms(3)
    by (cases "vs = []") (simp_all add: list_insert_def link_seg_def)
  then show thesis
    using link_dll [OF assms(1), of "[e]"] assms(2,3) that by simp
qed

lemma list_remove_dll:
  assumes "dll h l (us @ e # vs)"
  obtains h' where "list_remove h e = Some (at l vs, h')" "dll h' l (us @ vs)"
    "same_outside h h' (set (nodes l (us @ vs)))"
proof -
  let ?h = "unlink_seg (last (lhead l # us)) (at l vs) h"
  have "last (lhead l # us) \<noteq> e" using dll_split(2) [OF assms] by simp
  moreover have "e \<noteq> at l vs" using dll_split(2) [of h l "us @ [e]" vs] assms by simp
  moreover have "prv h e = last (lhead l # us)" using dll_nodes(3) [OF assms] by simp
  moreover have "nxt h e = at l vs" using dll_nodes(2) [of h l "us @ [e]" vs] assms by simp
  moreover have "is_interior h e" using dll_at(4) [OF assms] by simp
  ultimately have "list_remove h e = Some (at l vs, ?h)"
    by (simp add: list_remove_def unlink_seg_def Let_def)
  then show thesis using unlink_dll [of h l us "[e]" vs] assms that by simp
qed

text \<open>Both uses of \<open>list_splice\<close> unlink a segment of one list and then link it in again.\<close>

lemma list_splice_eq:
  assumes l: "dll h l (us @ vs)" and m: "dll h m (as @ fs @ bs)" "fs \<noteq> []"
    and before: "at l vs \<notin> set fs"
  shows "list_splice h (at l vs) (hd fs) (at m bs) =
    (let h1 = unlink_seg (last (lhead m # as)) (at m bs) h
     in Some (link_seg (prv h1 (at l vs)) (hd fs) (last fs) (at l vs) h1))"
proof -
  obtain f fs' where f: "fs = f # fs'" using m(2) by (cases fs) auto
  obtain gs g where g: "fs = gs @ [g]" using m(2) by (cases fs rule: rev_cases) auto
  have mf: "dll h m (as @ f # fs' @ bs)" using m f by simp
  have mg: "dll h m ((as @ gs) @ g # bs)" using m g by simp
  have fg: "hd fs = f" "last fs = g" "f \<in> set fs" "g \<in> set fs"
    using f by (simp, use g in simp, use f in simp, use g in simp)
  have "at m bs \<in> set (bs @ [ltail m])" by (cases bs) simp_all
  then have ne: "f \<noteq> at m bs" "g \<noteq> at m bs" using m(1) fg(3,4) by (auto simp: dll_def nodes_def)
  have pf: "prv h f = last (lhead m # as)" "is_interior h f"
    using dll_nodes(3) [OF mf] dll_at(4) [OF mf] by simp_all
  have ng: "nxt h g = at m bs" "is_interior h g" "last (lhead m # as) \<noteq> g"
    using dll_nodes(2) [of h m "(as @ gs) @ [g]" bs] dll_at(4) [OF mg] mg
    by (auto simp: dll_def nodes_def)
  have b: "is_interior h (at l vs) \<or> is_tail h (at l vs)" "at l vs \<noteq> f" "at l vs \<noteq> g"
    using dll_at(4,5) [OF l] before fg by auto
  have "list_prev h (at m bs) = Some g" using list_prev_at [OF mg] .
  then show ?thesis
    using pf ng b ne fg by (simp add: list_splice_def unlink_seg_def link_seg_def Let_def)
qed

lemma list_splice_same:
  assumes d: "dll h l (us @ ms @ fs @ vs)" and ne: "ms \<noteq> []" "fs \<noteq> []"
  obtains h' where "list_splice h (hd ms) (hd fs) (at l vs) = Some h'" "dll h' l (us @ fs @ ms @ vs)"
    "same_outside h h' (set (nodes l (us @ ms @ fs @ vs)))"
proof -
  define h1 where "h1 = unlink_seg (last (lhead l # us @ ms)) (at l vs) h"
  have c: "dll h1 l (us @ ms @ vs)" "links h1 fs" "same_outside h h1 (set (nodes l (us @ ms @ vs)))"
    using unlink_dll [of h l "us @ ms" fs vs] d ne(2) by (auto simp: h1_def)
  have df: "distinct fs" "0 \<notin> set fs" "set fs \<inter> set (nodes l (us @ ms @ vs)) = {}"
    using d by (auto simp: dll_def nodes_def)
  have at_ms: "at l (ms @ vs) = hd ms" "at l (ms @ fs @ vs) = hd ms" using ne(1) by (simp_all add: at_append)
  have "hd ms \<notin> set fs" using d ne(1) by (auto simp: dll_def nodes_def dest: hd_in_set)
  then have "list_splice h (hd ms) (hd fs) (at l vs) = Some (link_seg (prv h1 (hd ms)) (hd fs) (last fs) (hd ms) h1)"
    using list_splice_eq [of h l us "ms @ fs @ vs" l "us @ ms" fs vs] d ne at_ms(2)
    by (simp add: h1_def Let_def)
  moreover have "prv h1 (hd ms) = last (lhead l # us)"
    using dll_nodes(3) [OF c(1)] at_ms(1) by simp
  moreover note p = link_dll [OF c(1,2) ne(2) df, unfolded at_ms(1)]
  moreover have "same_outside h (link_seg (last (lhead l # us)) (hd fs) (last fs) (hd ms) h1)
      (set (nodes l (us @ ms @ fs @ vs)))"
    by (rule same_outside_trans [OF c(3) p(2)]) (auto simp: nodes_def)
  ultimately show thesis using that by metis
qed

lemma list_splice_other:
  assumes l: "dll h l (us @ vs)" and m: "dll h m (as @ fs @ bs)" and ne: "fs \<noteq> []"
    and dj: "set (nodes l (us @ vs)) \<inter> set (nodes m (as @ fs @ bs)) = {}"
  obtains h' where "list_splice h (at l vs) (hd fs) (at m bs) = Some h'"
    "dll h' l (us @ fs @ vs)" "dll h' m (as @ bs)"
proof -
  define h1 where "h1 = unlink_seg (last (lhead m # as)) (at m bs) h"
  have c: "dll h1 m (as @ bs)" "links h1 fs" "same_outside h h1 (set (nodes m (as @ bs)))"
    using unlink_dll [OF m ne] by (auto simp: h1_def)
  have l1: "dll h1 l (us @ vs)"
    by (rule dll_frame [OF l c(3)]) (use dj in \<open>auto simp: nodes_def\<close>)
  have df: "distinct fs" "0 \<notin> set fs" "set fs \<inter> set (nodes l (us @ vs)) = {}"
    using m dj by (auto simp: dll_def nodes_def)
  have "at l vs \<notin> set fs" using at_in_nodes [of l vs us] df(3) by blast
  then have "list_splice h (at l vs) (hd fs) (at m bs) =
      Some (link_seg (last (lhead l # us)) (hd fs) (last fs) (at l vs) h1)"
    using list_splice_eq [OF l m ne] dll_nodes(3) [OF l1] by (simp add: h1_def Let_def)
  moreover note p = link_dll [OF l1 c(2) ne df]
  moreover have "dll (link_seg (last (lhead l # us)) (hd fs) (last fs) (at l vs) h1) m (as @ bs)"
    by (rule dll_frame [OF c(1) p(2)]) (use dj m in \<open>auto simp: nodes_def dll_def\<close>)
  ultimately show thesis using that by metis
qed

lemma list_push_back_dll:
  assumes "dll h l xs" "e \<notin> set (nodes l xs)" "e \<noteq> 0"
  obtains h' where "list_push_back h l e = Some h'" "dll h' l (xs @ [e])"
    "same_outside h h' (set (nodes l (xs @ [e])))"
  by (rule list_insert_dll [of h l xs "[]" e])
    (use assms that in \<open>simp_all add: list_push_back_def list_end_def\<close>)

lemma list_push_front_dll:
  assumes "dll h l xs" "e \<notin> set (nodes l xs)" "e \<noteq> 0"
  obtains h' where "list_push_front h l e = Some h'" "dll h' l (e # xs)"
    "same_outside h h' (set (nodes l (e # xs)))"
  by (rule list_insert_dll [of h l "[]" xs e])
    (use assms that in \<open>simp_all add: list_push_front_def list_begin_at\<close>)

lemma list_pop_front_dll:
  assumes "dll h l (x # xs)"
  obtains h' where "list_pop_front h l = Some (x, h')" "dll h' l xs"
    "same_outside h h' (set (nodes l xs))"
proof -
  have "list_front h l = Some x"
    using list_empty_iff [OF assms] list_begin_at [OF assms] by (simp add: list_front_def list_begin_def)
  with assms that show thesis
    by - (rule list_remove_dll [of h l "[]" x xs], simp_all add: list_pop_front_def)
qed

lemma list_pop_back_dll:
  assumes "dll h l (xs @ [x])"
  obtains h' where "list_pop_back h l = Some (x, h')" "dll h' l xs"
    "same_outside h h' (set (nodes l xs))"
proof -
  have "list_back h l = Some x"
    using list_empty_iff [OF assms] dll_nodes(3) [of h l "xs @ [x]" "[]"] assms
    by (simp add: list_back_def)
  with assms that show thesis
    by - (rule list_remove_dll [of h l xs x "[]"], simp_all add: list_pop_back_def)
qed

end
