(* ===== verification/List_Sort.thy ===== *)
theory List_Sort
  imports Linked_List Natural_Merge
begin

text \<open>
  The loops of \<open>lib/kernel/list.c\<close> on well-formed lists: each returns, and its result is a
  function of the sequence of elements.  \<open>list_sort\<close> returns a sorted stable permutation and its
  internal assertions hold; \<open>list_insert_ordered\<close> keeps a sorted list sorted and is first in,
  first out among equivalent elements; \<open>list_max\<close> and \<open>list_min\<close> return the earliest extremum;
  \<open>list_unique\<close> and \<open>list_reverse\<close> do what they say.
\<close>

section \<open>Reference functions\<close>

fun uniq :: "'a less \<Rightarrow> 'a \<Rightarrow> 'a list \<Rightarrow> 'a list \<times> 'a list" where
  "uniq lt x [] = ([x], [])"
| "uniq lt x (y # ys) =
     (if \<not> lt x y \<and> \<not> lt y x then let (k, d) = uniq lt x ys in (k, y # d)
      else let (k, d) = uniq lt y ys in (x # k, d))"

definition ordered_insert :: "'a less \<Rightarrow> 'a \<Rightarrow> 'a list \<Rightarrow> 'a list" where
  "ordered_insert lt e xs = takeWhile (\<lambda>x. \<not> lt e x) xs @ e # dropWhile (\<lambda>x. \<not> lt e x) xs"

definition first_max :: "'a less \<Rightarrow> 'a \<Rightarrow> 'a list \<Rightarrow> 'a" where
  "first_max lt m xs = foldl (\<lambda>m e. if lt m e then e else m) m xs"

definition dups_ok :: "heap \<Rightarrow> dlist \<Rightarrow> ptr list \<Rightarrow> dlist option \<Rightarrow> ptr list \<Rightarrow> bool" where
  "dups_ok h l xs dup ds \<longleftrightarrow>
     (case dup of None \<Rightarrow> True
      | Some d \<Rightarrow> dll h d ds \<and> set (nodes d ds) \<inter> set (nodes l xs) = {})"

text \<open>A concrete list of three elements, and orders on addresses.\<close>

definition demo_list :: dlist where
  "demo_list = \<lparr>lhead = 1, ltail = 2\<rparr>"

definition demo_heap :: heap where
  "demo_heap =
     \<lparr>prv = (\<lambda>p. if p = 3 then 1 else if p = 4 then 3 else if p = 5 then 4 else if p = 2 then 5 else 0),
      nxt = (\<lambda>p. if p = 1 then 3 else if p = 3 then 4 else if p = 4 then 5 else if p = 5 then 2 else 0)\<rparr>"

section \<open>Iteration\<close>

lemma dll_length: "dll h l xs \<Longrightarrow> length xs < 2 ^ 32 - 2"
proof -
  assume "dll h l xs"
  then have "distinct (0 # nodes l xs)" by (auto simp: dll_def)
  then have "length (0 # nodes l xs) = card (set (0 # nodes l xs))" by (rule distinct_card [symmetric])
  also have "\<dots> \<le> CARD(32 word)" by (rule card_mono) auto
  finally show ?thesis by (simp add: nodes_def card_word)
qed

lemma at_eq_iff:
  assumes "dll h l (us @ as @ vs)"
  shows "at l (as @ vs) = at l vs \<longleftrightarrow> as = []"
proof (cases as)
  case (Cons a as')
  have "at l vs \<in> set (vs @ [ltail l])" by (cases vs) auto
  with assms Cons have "a \<noteq> at l vs" by (auto simp: dll_def nodes_def)
  with Cons show ?thesis by simp
qed simp

lemma size_loop_dll:
  "dll h l (us @ vs) \<Longrightarrow> size_loop h l (at l vs) cnt = Some (cnt + of_nat (length vs))"
proof (induction vs arbitrary: us cnt)
  case Nil
  then show ?case by (subst size_loop.simps) (simp add: list_end_def)
next
  case (Cons v vs)
  have "v \<noteq> ltail l" using dll_at(3) [OF Cons.prems] by simp
  with Cons.IH [of "us @ [v]"] Cons.prems list_next_at [OF Cons.prems] show ?case
    by (subst size_loop.simps) (simp add: list_end_def algebra_simps)
qed

lemma list_size_dll:
  assumes "dll h l xs"
  obtains n where "list_size h l = Some n" "unat n = length xs"
  using size_loop_dll [of h l "[]" xs 0] assms that dll_length [OF assms]
  by (simp add: list_size_def list_begin_at unat_of_nat take_bit_eq_mod)

lemma sorted_loop_dll:
  "dll h l (us @ x # as @ vs) \<Longrightarrow> sorted_loop h x (at l vs) lt = Some (nondec lt (x # as))"
proof (induction as arbitrary: us x)
  case Nil
  then show ?case by (subst sorted_loop.simps) (simp add: list_next_at)
next
  case (Cons a as)
  have "a \<noteq> at l vs" using at_eq_iff [of h l "us @ [x]" "a # as" vs] Cons.prems by simp
  moreover have "list_next h x = Some a" "list_prev h a = Some x"
    using list_next_at [OF Cons.prems] list_prev_at [OF Cons.prems] by simp_all
  ultimately show ?case
    using Cons.IH [of "us @ [x]" a] Cons.prems by (subst sorted_loop.simps) simp
qed

lemma is_sorted_dll:
  assumes "dll h l (us @ as @ vs)"
  shows "is_sorted h (at l (as @ vs)) (at l vs) lt = Some (nondec lt as)"
  using at_eq_iff [OF assms] sorted_loop_dll [of h l us _ _ vs lt] assms
  by (cases as) (auto simp: is_sorted_def)

lemma end_of_run_dll:
  "dll h l (us @ x # xs) \<Longrightarrow> split_run lt x xs = (r, s) \<Longrightarrow>
    end_of_run_loop h x (list_end l) lt = Some (at l s)"
proof (induction xs arbitrary: us x r)
  case Nil
  then show ?case by (subst end_of_run_loop.simps) (auto simp: list_next_at list_end_def)
next
  case (Cons a xs)
  have n: "a \<noteq> list_end l" "list_next h x = Some a" "list_prev h a = Some x"
    using dll_at(3) [of h l "us @ [x]" "a # xs"] Cons.prems(1)
      list_next_at [OF Cons.prems(1)] list_prev_at [OF Cons.prems(1)]
    by (simp_all add: list_end_def)
  show ?case
  proof (cases "lt a x")
    case True
    with n Cons.prems(2) show ?thesis by (subst end_of_run_loop.simps) auto
  next
    case False
    obtain r' s' where "split_run lt a xs = (r', s')" by fastforce
    with False Cons.prems Cons.IH [of "us @ [x]" a r'] n show ?thesis
      by (subst end_of_run_loop.simps) auto
  qed
qed

lemma find_end_of_run_dll:
  assumes "dll h l (us @ x # xs)" "split_run lt x xs = (r, s)"
  shows "find_end_of_run h x (list_end l) lt = Some (at l s)"
  using end_of_run_dll [OF assms] dll_at(1,3) [OF assms(1)] assms(1)
  by (auto simp: find_end_of_run_def bind_ASSERT list_end_def dll_def nodes_def)

section \<open>Sorting\<close>

lemma merge_loop_dll:
  assumes "dll h l (us @ as @ bs @ vs)"
  shows "\<exists>h'. merge_loop h (at l (as @ bs @ vs)) (at l (bs @ vs)) (at l vs) lt = Some h' \<and>
    dll h' l (us @ merge_runs lt as bs @ vs) \<and> same_outside h h' (set (nodes l (us @ as @ bs @ vs)))"
  using assms
proof (induction as bs arbitrary: us h rule: merge_induct)
  case (Nil1 bs)
  then show ?case by (subst merge_loop.simps) auto
next
  case (Nil2 a as)
  then show ?case by (subst merge_loop.simps) auto
next
  case (Cons a as b bs)
  have ne: "a \<noteq> b" "b \<noteq> at l vs"
    using Cons.prems at_eq_iff [of h l "us @ a # as" "b # bs" vs] by (auto simp: dll_def nodes_def)
  show ?case
  proof (cases "lt b a")
    case False
    have "list_next h a = Some (at l (as @ (b # bs) @ vs))"
      using list_next_at [of h l us a "as @ (b # bs) @ vs"] Cons.prems by simp
    with ne False Cons.IH(2) [of h "us @ [a]"] Cons.prems show ?thesis
      by (subst merge_loop.simps) (simp add: nodes_def)
  next
    case True
    have nx: "list_next h b = Some (at l (bs @ vs))" "list_prev h (at l (bs @ vs)) = Some b"
      using list_next_at [of h l "us @ a # as" b "bs @ vs"] list_prev_at [of h l "us @ a # as" b "bs @ vs"]
        Cons.prems by simp_all
    obtain h1 where h1: "list_splice h a b (at l (bs @ vs)) = Some h1"
        "dll h1 l (us @ [b] @ (a # as) @ bs @ vs)"
        "same_outside h h1 (set (nodes l (us @ (a # as) @ [b] @ bs @ vs)))"
      using list_splice_same [of h l us "a # as" "[b]" "bs @ vs"] Cons.prems by auto
    then obtain h' where h': "merge_loop h1 a (at l (bs @ vs)) (at l vs) lt = Some h'"
        "dll h' l ((us @ [b]) @ merge_runs lt (a # as) bs @ vs)"
        "same_outside h1 h' (set (nodes l ((us @ [b]) @ (a # as) @ bs @ vs)))"
      using Cons.IH(1) [of h1 "us @ [b]"] by auto
    from h1(3) h'(3) have "same_outside h h' (set (nodes l (us @ (a # as) @ (b # bs) @ vs)))"
      by (rule same_outside_trans) (auto simp: nodes_def)
    with ne True nx h1(1) h'(1,2) show ?thesis
      by (subst merge_loop.simps) simp
  qed
qed

lemma inplace_merge_dll:
  assumes d: "dll h l (us @ as @ bs @ vs)" and s: "nondec lt as" "nondec lt bs"
  shows "\<exists>h'. inplace_merge h (at l (as @ bs @ vs)) (at l (bs @ vs)) (at l vs) lt = Some h' \<and>
    dll h' l (us @ merge_runs lt as bs @ vs) \<and> same_outside h h' (set (nodes l (us @ as @ bs @ vs)))"
proof -
  have "at l (as @ bs @ vs) \<noteq> 0" "at l (bs @ vs) \<noteq> 0" "at l vs \<noteq> 0"
    using dll_at(1) [of h l us "as @ bs @ vs"] dll_at(1) [of h l "us @ as" "bs @ vs"]
      dll_at(1) [of h l "us @ as @ bs" vs] d by simp_all
  moreover have "is_sorted h (at l (as @ bs @ vs)) (at l (bs @ vs)) lt = Some True"
    "is_sorted h (at l (bs @ vs)) (at l vs) lt = Some True"
    using is_sorted_dll [of h l us as "bs @ vs" lt] is_sorted_dll [of h l "us @ as" bs vs lt] d s
    by simp_all
  ultimately show ?thesis using merge_loop_dll [OF d] by (simp add: inplace_merge_def)
qed

lemma sort_pass_dll:
  "dll h l (us @ xs) \<Longrightarrow> pass lt xs = (ys, n) \<Longrightarrow>
    \<exists>h'. sort_pass h l (at l xs) lt c = Some (c + of_nat n, h') \<and> dll h' l (us @ ys) \<and>
      same_outside h h' (set (nodes l (us @ xs)))"
proof (induction "length xs" arbitrary: xs us ys n c h rule: less_induct)
  case less
  show ?case
  proof (cases xs)
    case Nil
    with less.prems show ?thesis by (subst sort_pass.simps) (auto simp: list_end_def)
  next
    case (Cons x xs')
    obtain r1 s where 1: "split_run lt x xs' = (r1, s)" by fastforce
    note s1 = split_run_spec [OF 1]
    have e1: "find_end_of_run h x (list_end l) lt = Some (at l s)" "x \<noteq> list_end l"
      using find_end_of_run_dll [OF _ 1] less.prems(1) Cons dll_at(3) [of h l us xs]
      by (auto simp: list_end_def)
    show ?thesis
    proof (cases s)
      case Nil
      with 1 s1 Cons less.prems(2) have r: "ys = xs" "n = 1" by auto
      have "at l s = list_end l" "at l xs = x" using Nil Cons by (simp_all add: list_end_def)
      with r e1 less.prems(1) show ?thesis
        by (subst sort_pass.simps) (simp del: at_simps)
    next
      case s: (Cons y s')
      obtain r2 rest where 2: "split_run lt y s' = (r2, rest)" by fastforce
      note s2 = split_run_spec [OF 2]
      obtain zs k where 3: "pass lt rest = (zs, k)" by fastforce
      have xs: "xs = r1 @ r2 @ rest" using Cons s1 s2 s by simp
      have ne: "r1 \<noteq> []" "r2 \<noteq> []" using s1 s2 by blast+
      have len: "length rest < length xs" using ne by (simp add: xs)
      have r: "ys = merge_runs lt r1 r2 @ zs" "n = Suc k" using less.prems(2) 1 2 3 s Cons by auto
      have ats: "at l xs = x" "at l s = y" "at l (r2 @ rest) = y" "at l (r1 @ r2 @ rest) = x"
        using Cons s s1 s2 by (simp_all add: at_append)
      have d: "dll h l (us @ r1 @ r2 @ rest)" using less.prems(1) xs by simp
      have y: "y \<noteq> list_end l" "find_end_of_run h y (list_end l) lt = Some (at l rest)"
        using dll_at(3) [of h l "us @ r1" "y # s'"] find_end_of_run_dll [of h l "us @ r1" y s' lt, OF _ 2]
          d s2 ats(3) by (simp_all add: list_end_def)
      obtain h1 where h1: "inplace_merge h x y (at l rest) lt = Some h1"
          "dll h1 l (us @ merge_runs lt r1 r2 @ rest)" "same_outside h h1 (set (nodes l (us @ r1 @ r2 @ rest)))"
        using inplace_merge_dll [OF d] s1 s2 ats by auto
      obtain h' where h': "sort_pass h1 l (at l rest) lt (c + 1) = Some (c + 1 + of_nat k, h')"
          "dll h' l ((us @ merge_runs lt r1 r2) @ zs)"
          "same_outside h1 h' (set (nodes l ((us @ merge_runs lt r1 r2) @ rest)))"
        using less.hyps [OF len _ 3, of h1 "us @ merge_runs lt r1 r2" "c + 1"] h1(2) by auto
      from h1(3) h'(3) have "same_outside h h' (set (nodes l (us @ xs)))"
        unfolding xs by (rule same_outside_trans) (auto simp: nodes_def)
      with h' h1(1) e1 y ats r show ?thesis
        by (subst sort_pass.simps) (simp add: algebra_simps)
    qed
  qed
qed

lemma nruns_le_length: "nruns lt xs \<le> length xs"
  by (induction lt xs rule: nruns.induct) auto

lemma sort_loop_dll:
  assumes swo: "strict_weak_order lt" and "dll h l xs"
  shows "\<exists>h' ys. sort_loop h l lt = Some h' \<and> dll h' l ys \<and> nondec lt ys \<and> stable_perm lt xs ys \<and>
    same_outside h h' (set (nodes l xs))"
  using assms(2)
proof (induction "nruns lt xs" arbitrary: xs h rule: less_induct)
  case less
  obtain ys n where p: "pass lt xs = (ys, n)" by fastforce
  obtain h1 where h1: "sort_pass h l (at l xs) lt 0 = Some (of_nat n, h1)" "dll h1 l ys"
      "same_outside h h1 (set (nodes l xs))"
    using sort_pass_dll [of h l "[]" xs lt ys n 0] less.prems p by auto
  have n: "n = (nruns lt xs + 1) div 2" using snd_pass [of lt xs] p by simp
  have ys: "stable_perm lt xs ys" "nruns lt ys \<le> n" using strict_weak_order.pass_spec [OF swo p] by auto
  have "n < 2 ^ 32" using n nruns_le_length [of lt xs] dll_length [OF less.prems] by simp
  then have "unat (of_nat n :: size_t) = n" by (simp add: unat_of_nat take_bit_eq_mod)
  then have c: "(1 :: size_t) < of_nat n \<longleftrightarrow> 1 < n" by (simp add: word_less_nat_alt)
  have step: "sort_loop h l lt = (if 1 < n then sort_loop h1 l lt else Some h1)"
    using h1(1) c less.prems by (subst sort_loop.simps) (simp add: list_begin_at)
  have nodes: "set (nodes l ys) = set (nodes l xs)"
    using ys(1) by (auto simp: stable_perm_def nodes_def dest: mset_eq_setD)
  show ?case
  proof (cases "1 < n")
    case True
    then have "nruns lt ys < nruns lt xs" using n ys(2) by linarith
    from less.hyps [OF this h1(2)] obtain h' zs where
      "sort_loop h1 l lt = Some h'" "dll h' l zs" "nondec lt zs" "stable_perm lt ys zs"
      "same_outside h1 h' (set (nodes l xs))" by (auto simp: nodes)
    moreover have "stable_perm lt xs zs"
      by (rule strict_weak_order.stable_perm_trans [OF swo ys(1)]) fact
    moreover have "same_outside h h' (set (nodes l xs))"
      by (rule same_outside_trans [OF h1(3)]) (fact | simp)+
    ultimately show ?thesis using True step by auto
  next
    case False
    then have "nondec lt ys" using ys(2) by (simp add: nondec_iff_nruns)
    with False step h1 ys show ?thesis by auto
  qed
qed

lemma list_sort_dll:
  assumes swo: "strict_weak_order lt" and "dll h l xs"
  shows "\<exists>h' ys. list_sort h l lt = Some h' \<and> dll h' l ys \<and> nondec lt ys \<and> stable_perm lt xs ys \<and>
    same_outside h h' (set (nodes l xs))"
proof -
  obtain h' ys where h': "sort_loop h l lt = Some h'" "dll h' l ys" "nondec lt ys" "stable_perm lt xs ys"
      "same_outside h h' (set (nodes l xs))"
    using sort_loop_dll [OF assms] by blast
  then have "is_sorted h' (list_begin h' l) (list_end l) lt = Some True"
    using is_sorted_dll [of h' l "[]" ys "[]" lt] by (simp add: list_begin_at list_end_def)
  with h' show ?thesis by (auto simp: list_sort_def)
qed

section \<open>Ordered insertion, extrema, duplicates\<close>

lemma ordered_loop_dll:
  "dll h l (us @ vs) \<Longrightarrow>
    ordered_loop h l e (at l vs) lt = Some (at l (dropWhile (\<lambda>x. \<not> lt e x) vs))"
proof (induction vs arbitrary: us)
  case Nil
  then show ?case by (subst ordered_loop.simps) (simp add: list_end_def)
next
  case (Cons v vs)
  have "v \<noteq> list_end l" using dll_at(3) [OF Cons.prems] by (simp add: list_end_def)
  with Cons.IH [of "us @ [v]"] Cons.prems list_next_at [OF Cons.prems] show ?case
    by (subst ordered_loop.simps) simp
qed

lemma list_insert_ordered_dll:
  assumes "dll h l xs" "e \<notin> set (nodes l xs)" "e \<noteq> 0"
  obtains h' where "list_insert_ordered h l e lt = Some h'" "dll h' l (ordered_insert lt e xs)"
    "same_outside h h' (set (nodes l (e # xs)))"
proof -
  let ?us = "takeWhile (\<lambda>x. \<not> lt e x) xs" and ?vs = "dropWhile (\<lambda>x. \<not> lt e x) xs"
  obtain h' where h': "list_insert h (at l ?vs) e = Some h'" "dll h' l (?us @ e # ?vs)"
      "same_outside h h' (set (nodes l (?us @ e # ?vs)))"
    using list_insert_dll [of h l ?us ?vs e] assms by auto
  moreover have "set (nodes l (?us @ e # ?vs)) = set (nodes l (e # xs))"
    using set_append [of ?us ?vs] by (auto simp: nodes_def)
  ultimately show thesis
    using that ordered_loop_dll [of h l "[]" xs e lt] assms
    by (auto simp: list_insert_ordered_def list_begin_at ordered_insert_def)
qed

lemma set_ordered_insert [simp]: "set (ordered_insert lt e xs) = insert e (set xs)"
  using set_append [of "takeWhile (\<lambda>x. \<not> lt e x) xs" "dropWhile (\<lambda>x. \<not> lt e x) xs"]
  by (auto simp: ordered_insert_def)

lemma mset_ordered_insert [simp]: "mset (ordered_insert lt e xs) = add_mset e (mset xs)"
  using mset_append [of "takeWhile (\<lambda>x. \<not> lt e x) xs" "dropWhile (\<lambda>x. \<not> lt e x) xs"]
  by (simp add: ordered_insert_def)

lemma ordered_insert_simps [simp]:
  "ordered_insert lt e [] = [e]"
  "ordered_insert lt e (x # xs) = (if lt e x then e # x # xs else x # ordered_insert lt e xs)"
  by (simp_all add: ordered_insert_def)

lemma sorted_ordered_insert:
  assumes "strict_weak_order lt" "sorted_wrt (\<lambda>x y. \<not> lt y x) xs"
  shows "sorted_wrt (\<lambda>x y. \<not> lt y x) (ordered_insert lt e xs)"
  using assms(2)
proof (induction xs)
  case (Cons x xs)
  have "\<not> lt y e" if "lt e x" "y \<in> set (x # xs)" for y
    using that Cons.prems strict_weak_order.asym [OF assms(1)]
      strict_weak_order.negtrans' [OF assms(1), of y x e] by auto
  with Cons show ?case by auto
qed simp

lemma max_loop_dll:
  "dll h l (us @ vs) \<Longrightarrow> max_loop h l m (at l vs) lt = Some (first_max lt m vs)"
proof (induction vs arbitrary: us m)
  case Nil
  then show ?case by (subst max_loop.simps) (simp add: list_end_def first_max_def)
next
  case (Cons v vs)
  have "v \<noteq> list_end l" using dll_at(3) [OF Cons.prems] by (simp add: list_end_def)
  with Cons.IH [of "us @ [v]"] Cons.prems list_next_at [OF Cons.prems] show ?case
    by (subst max_loop.simps) (simp add: first_max_def)
qed

lemma min_loop_dll:
  "dll h l (us @ vs) \<Longrightarrow> min_loop h l m (at l vs) lt = Some (first_max (\<lambda>x y. lt y x) m vs)"
proof (induction vs arbitrary: us m)
  case Nil
  then show ?case by (subst min_loop.simps) (simp add: list_end_def first_max_def)
next
  case (Cons v vs)
  have "v \<noteq> list_end l" using dll_at(3) [OF Cons.prems] by (simp add: list_end_def)
  with Cons.IH [of "us @ [v]"] Cons.prems list_next_at [OF Cons.prems] show ?case
    by (subst min_loop.simps) (simp add: first_max_def)
qed

lemma first_max_split:
  assumes "strict_weak_order lt"
  shows "\<exists>us vs. m # xs = us @ first_max lt m xs # vs \<and> (\<forall>u \<in> set us. lt u (first_max lt m xs)) \<and>
    (\<forall>v \<in> set vs. \<not> lt (first_max lt m xs) v)"
proof (induction xs rule: rev_induct)
  case Nil
  show ?case by (rule exI [of _ "[]"], rule exI [of _ "[]"]) (simp add: first_max_def)
next
  case (snoc x xs)
  let ?f = "first_max lt m xs"
  obtain us vs where f: "m # xs = us @ ?f # vs" "\<forall>u \<in> set us. lt u ?f" "\<forall>v \<in> set vs. \<not> lt ?f v"
    using snoc by blast
  have eq: "first_max lt m (xs @ [x]) = (if lt ?f x then x else ?f)" by (simp add: first_max_def)
  show ?case
  proof (cases "lt ?f x")
    case True
    have "lt u x" if "u \<in> set (us @ ?f # vs)" for u
      using that f(2,3) True strict_weak_order.trans [OF assms, of u ?f x]
        strict_weak_order.negtrans [OF assms, of ?f x u] unfolding set_append list.set by blast
    then have "\<forall>u \<in> set (m # xs). lt u x" by (simp only: f(1)) blast
    with True eq show ?thesis by (intro exI [of _ "m # xs"] exI [of _ "[]"]) simp
  next
    case False
    with f eq show ?thesis by (intro exI [of _ us] exI [of _ "vs @ [x]"]) auto
  qed
qed

lemma swo_converse: "strict_weak_order lt \<Longrightarrow> strict_weak_order (\<lambda>x y. lt y x)"
  unfolding strict_weak_order_def by blast

lemma list_max_dll: "dll h l (x # xs) \<Longrightarrow> list_max h l lt = Some (first_max lt x xs)"
  using max_loop_dll [of h l "[x]" xs x lt] list_next_at [of h l "[]" x xs] dll_at(3) [of h l "[]" "x # xs"]
  by (simp add: list_max_def list_begin_at list_end_def)

lemma list_min_dll: "dll h l (x # xs) \<Longrightarrow> list_min h l lt = Some (first_max (\<lambda>x y. lt y x) x xs)"
  using min_loop_dll [of h l "[x]" xs x lt] list_next_at [of h l "[]" x xs] dll_at(3) [of h l "[]" "x # xs"]
  by (simp add: list_min_def list_begin_at list_end_def)

lemma unique_step:
  assumes d: "dll h l (us @ y # vs)" and dup: "dups_ok h l (us @ y # vs) dup ds"
  obtains h1 h2 where "list_remove h y = Some (at l vs, h1)"
    "(case dup of Some d \<Rightarrow> list_push_back h1 d y | None \<Rightarrow> Some h1) = Some h2"
    "dll h2 l (us @ vs)" "dups_ok h2 l (us @ vs) dup (ds @ [y])"
proof -
  obtain h1 where h1: "list_remove h y = Some (at l vs, h1)" "dll h1 l (us @ vs)"
      "same_outside h h1 (set (nodes l (us @ vs)))"
    using list_remove_dll [OF d] .
  have y: "y \<notin> set (nodes l (us @ vs))" "y \<noteq> 0" using d by (auto simp: dll_def nodes_def)
  show thesis
  proof (cases dup)
    case None
    with h1 that show thesis by (simp add: dups_ok_def)
  next
    case (Some e)
    with dup have e: "dll h e ds" "set (nodes e ds) \<inter> set (nodes l (us @ y # vs)) = {}"
      by (auto simp: dups_ok_def)
    have "dll h1 e ds" by (rule dll_frame [OF e(1) h1(3)]) (use e(2) in \<open>auto simp: nodes_def\<close>)
    moreover have "y \<notin> set (nodes e ds)" using e(2) by (auto simp: nodes_def)
    ultimately obtain h2 where h2: "list_push_back h1 e y = Some h2" "dll h2 e (ds @ [y])"
        "same_outside h1 h2 (set (nodes e (ds @ [y])))"
      using list_push_back_dll y(2) by blast
    have dj: "set (nodes e (ds @ [y])) \<inter> set (nodes l (us @ vs)) = {}"
      using e(2) y(1) by (auto simp: nodes_def)
    then have "dll h2 l (us @ vs)" by (intro dll_frame [OF h1(2) h2(3)]) blast
    with h1(1) h2 dj Some that show thesis by (simp add: dups_ok_def)
  qed
qed

lemma unique_loop_dll:
  "dll h l (us @ x # vs) \<Longrightarrow> dups_ok h l (us @ x # vs) dup ds \<Longrightarrow> uniq lt x vs = (k, dd) \<Longrightarrow>
    \<exists>h'. unique_loop h l dup x lt = Some h' \<and> dll h' l (us @ k) \<and> dups_ok h' l (us @ k) dup (ds @ dd)"
proof (induction vs arbitrary: us x ds k dd h)
  case Nil
  then show ?case
    by (subst unique_loop.simps) (auto simp: list_next_at list_end_def)
next
  case (Cons y vs)
  have n: "list_next h x = Some y" "y \<noteq> list_end l"
    using list_next_at [OF Cons.prems(1)] dll_at(3) [of h l "us @ [x]" "y # vs"] Cons.prems(1)
    by (simp_all add: list_end_def)
  show ?case
  proof (cases "\<not> lt x y \<and> \<not> lt y x")
    case True
    obtain k' dd' where u: "uniq lt x vs = (k', dd')" by fastforce
    with True Cons.prems(3) have r: "k = k'" "dd = y # dd'" by auto
    have "dll h l ((us @ [x]) @ y # vs)" "dups_ok h l ((us @ [x]) @ y # vs) dup ds"
      using Cons.prems by simp_all
    then obtain h1 h2 where h: "list_remove h y = Some (at l vs, h1)"
        "(case dup of Some d \<Rightarrow> list_push_back h1 d y | None \<Rightarrow> Some h1) = Some h2"
        "dll h2 l ((us @ [x]) @ vs)" "dups_ok h2 l ((us @ [x]) @ vs) dup (ds @ [y])"
      by (rule unique_step)
    with Cons.IH [of h2 us x "ds @ [y]" k' dd'] u r True n show ?thesis
      by (subst unique_loop.simps) simp
  next
    case False
    obtain k' dd' where u: "uniq lt y vs = (k', dd')" by fastforce
    with False Cons.prems(3) have r: "k = x # k'" "dd = dd'" by auto
    with Cons.IH [of h "us @ [x]" y ds k' dd'] u False n Cons.prems show ?thesis
      by (subst unique_loop.simps) auto
  qed
qed

section \<open>Reversal\<close>

lemma links_rev:
  assumes "links h ys" "\<And>x. x \<in> set (tl ys) \<Longrightarrow> nxt h' x = prv h x"
    "\<And>x. x \<in> set (butlast ys) \<Longrightarrow> prv h' x = nxt h x"
  shows "links h' (rev ys)"
  using assms
proof (induction ys)
  case (Cons y ys)
  show ?case
  proof (cases ys)
    case Nil
    then show ?thesis by simp
  next
    case (Cons z zs)
    have "links h' (rev ys)" using Cons.IH Cons.prems Cons by auto
    moreover have "last (rev ys) = z" "nxt h' z = y" "prv h' y = z"
      using Cons.prems Cons by auto
    ultimately show ?thesis using Cons links_join [of "rev ys" "[y]" h'] by simp
  qed
qed simp

lemma reverse_loop_dll:
  assumes "dll h0 l (us @ vs)"
    "\<forall>x. nxt h x = (if x \<in> set us then prv h0 x else nxt h0 x)"
    "\<forall>x. prv h x = (if x \<in> set us then nxt h0 x else prv h0 x)"
  shows "\<exists>h'. reverse_loop h l (at l vs) = Some h' \<and>
    (\<forall>x. nxt h' x = (if x \<in> set (us @ vs) then prv h0 x else nxt h0 x)) \<and>
    (\<forall>x. prv h' x = (if x \<in> set (us @ vs) then nxt h0 x else prv h0 x))"
  using assms
proof (induction vs arbitrary: us h)
  case Nil
  then show ?case by (subst reverse_loop.simps) (simp add: list_end_def)
next
  case (Cons v vs)
  have v: "v \<noteq> list_end l" "v \<noteq> 0" "v \<notin> set us" "nxt h0 v = at l vs"
    using dll_at(1,3) [OF Cons.prems(1)] dll_nodes(2) [of h0 l "us @ [v]" vs] Cons.prems(1)
    by (auto simp: list_end_def dll_def nodes_def)
  define h1 where "h1 = set_nxt v (prv h v) (set_prv v (nxt h v) h)"
  have s: "swap_fields v h = Some h1" "prv h1 v = at l vs"
    using v Cons.prems(2) by (auto simp: swap_fields_def h1_def Let_def)
  have "\<exists>h'. reverse_loop h1 l (at l vs) = Some h' \<and>
    (\<forall>x. nxt h' x = (if x \<in> set ((us @ [v]) @ vs) then prv h0 x else nxt h0 x)) \<and>
    (\<forall>x. prv h' x = (if x \<in> set ((us @ [v]) @ vs) then nxt h0 x else prv h0 x))"
  proof (rule Cons.IH)
    show "dll h0 l ((us @ [v]) @ vs)" using Cons.prems(1) by simp
    show "\<forall>x. nxt h1 x = (if x \<in> set (us @ [v]) then prv h0 x else nxt h0 x)"
      using Cons.prems(2,3) v(3) by (simp add: h1_def)
    show "\<forall>x. prv h1 x = (if x \<in> set (us @ [v]) then nxt h0 x else prv h0 x)"
      using Cons.prems(2,3) v(3) by (simp add: h1_def)
  qed
  with s v(1) show ?case by (subst reverse_loop.simps) simp
qed

lemma list_reverse_dll:
  assumes d: "dll h l xs"
  shows "\<exists>h'. list_reverse h l = Some h' \<and> dll h' l (rev xs) \<and> same_outside h h' (set (nodes l xs))"
proof (cases xs)
  case Nil
  with d show ?thesis by (auto simp: list_reverse_def list_empty_iff)
next
  case (Cons a as)
  obtain h1 where h1: "reverse_loop h l (list_begin h l) = Some h1"
      "\<And>x. nxt h1 x = (if x \<in> set xs then prv h x else nxt h x)"
      "\<And>x. prv h1 x = (if x \<in> set xs then nxt h x else prv h x)"
    using reverse_loop_dll [of h l "[]" xs h] d by (auto simp: list_begin_at)
  define z H T where "z = last xs" and "H = lhead l" and "T = ltail l"
  note defs = z_def H_def T_def
  have ne: "H \<noteq> T" "H \<notin> set xs" "T \<notin> set xs" "distinct xs" "0 \<notin> set xs" "H \<noteq> 0" "T \<noteq> 0"
    using d by (auto simp: dll_def nodes_def defs)
  have e: "nxt h H = a" "prv h T = z" "prv h a = H" "nxt h z = T" "links h xs" "prv h H = 0" "nxt h T = 0"
    using dll_nodes(2,3) [of h l "[]" xs] dll_nodes(2,3) [of h l xs "[]"] dll_nodes(5) [of h l "[]" xs]
      links_join [of xs "[ltail l]" h] d Cons
    by (auto simp: dll_def defs)
  have az: "a \<in> set xs" "z \<in> set xs" using Cons last_in_set [of xs] by (auto simp: z_def)
  then have nz: "a \<noteq> 0" "z \<noteq> 0" "a \<noteq> T" "z \<noteq> T" "a \<noteq> H" "z \<noteq> H" using ne by auto
  define h2 where "h2 = set_prv T a (set_nxt H z h1)"
  define h' where "h' = set_nxt a T (set_prv z H h2)"
  have f: "nxt h1 H = a" "prv h1 T = z" "prv h1 z = T" "nxt h1 a = H" "prv h1 H = 0" "nxt h1 T = 0"
    using h1(2,3) e az ne by simp_all
  have "\<not> list_empty h l" using list_empty_iff [OF d] Cons by simp
  then have res: "list_reverse h l = Some h'"
    using h1(1) f nz ne(1) by (simp add: list_reverse_def Let_def h'_def h2_def defs)
  have nxt': "nxt h' x = prv h x" if "x \<in> set (tl xs)" for x
  proof -
    have "x \<in> set xs" "x \<noteq> a" using that Cons ne(4) by auto
    then show ?thesis using h1(2) ne by (auto simp: h'_def h2_def)
  qed
  have prv': "prv h' x = nxt h x" if "x \<in> set (butlast xs)" for x
  proof -
    have "xs \<noteq> []" using Cons by simp
    then have "x \<in> set xs" "x \<noteq> z"
      using that distinct_last_butlast [OF ne(4)] in_set_butlastD [OF that] by (auto simp: z_def)
    then show ?thesis using h1(3) ne by (auto simp: h'_def h2_def)
  qed
  have "links h' (rev xs)" by (rule links_rev [OF e(5) nxt' prv'])
  moreover have p: "nxt h' H = z" "prv h' z = H" "nxt h' a = T" "prv h' T = a" "prv h' H = 0" "nxt h' T = 0"
    using nz ne(1) f by (auto simp: h'_def h2_def)
  moreover have "hd (rev xs) = z" "last (rev xs) = a" "rev xs \<noteq> []"
    using Cons by (simp_all add: hd_rev last_rev z_def)
  ultimately have "links h' (H # rev xs @ [T])"
    using links_join [of "[H]" "rev xs @ [T]" h'] links_join [of "rev xs" "[T]" h'] by simp
  then have "dll h' l (rev xs)"
    using ne p by (auto simp: dll_def nodes_def defs)
  moreover have "same_outside h h' (set (nodes l xs))"
    unfolding same_outside_def
  proof (intro allI impI)
    fix p assume "p \<notin> set (nodes l xs)"
    then have "p \<notin> set xs" "p \<noteq> H" "p \<noteq> T" "p \<noteq> a" "p \<noteq> z" using az by (auto simp: nodes_def defs)
    then show "prv h' p = prv h p \<and> nxt h' p = nxt h p" using h1(2,3) by (simp add: h'_def h2_def)
  qed
  ultimately show ?thesis using res by blast
qed

section \<open>Properties\<close>

lemma demo_dll: "dll demo_heap demo_list [3, 4, 5]"
  by (simp add: demo_heap_def demo_list_def dll_def nodes_def)

lemma swo_addresses: "strict_weak_order (\<lambda>a b :: ptr. b < a)"
  by unfold_locales auto

text \<open>
  C3. \<open>list_sort\<close> of a well-formed list under a strict weak order returns: none of its assertions
  fails and its passes end.  The list is then well formed and sorted, its elements are a
  permutation of the old ones in which elements that compare equal keep their order, and no list
  element outside the list is written.
\<close>

theorem list_sort_correct:
  assumes "strict_weak_order lt" "dll h l xs"
  shows "\<exists>h' ys. list_sort h l lt = Some h' \<and> dll h' l ys \<and> sorted_wrt (\<lambda>x y. \<not> lt y x) ys \<and>
    mset ys = mset xs \<and>
    (\<forall>x. filter (\<lambda>y. \<not> lt x y \<and> \<not> lt y x) ys = filter (\<lambda>y. \<not> lt x y \<and> \<not> lt y x) xs) \<and>
    (\<forall>p. p \<notin> set (nodes l xs) \<longrightarrow> prv h' p = prv h p \<and> nxt h' p = nxt h p)"
  using list_sort_dll [OF assms] strict_weak_order.nondec_sorted [OF assms(1)]
  unfolding stable_perm_def same_outside_def by blast

theorem list_sort_correct_witness:
  "\<exists>h' ys. list_sort demo_heap demo_list (\<lambda>a b. b < a) = Some h' \<and> dll h' demo_list ys \<and>
    sorted_wrt (\<lambda>x y. \<not> x < y) ys \<and> mset ys = {#3, 4, 5#}"
proof -
  obtain h' ys where "list_sort demo_heap demo_list (\<lambda>a b. b < a) = Some h'" "dll h' demo_list ys"
      "sorted_wrt (\<lambda>x y. \<not> x < y) ys" "mset ys = mset [3, 4, 5]"
    using list_sort_correct [OF swo_addresses demo_dll] by blast
  then show ?thesis by (intro exI [of _ h'] exI [of _ ys]) simp
qed

text \<open>
  \<open>list_insert_ordered\<close> returns and inserts the element behind every element it does not
  precede: a sorted list stays sorted, the new element stands after all elements that compare
  equal to it, and the others keep their relative order.
\<close>

theorem list_insert_ordered_sorted:
  assumes "strict_weak_order lt" "dll h l xs" "sorted_wrt (\<lambda>x y. \<not> lt y x) xs"
    "e \<notin> set (nodes l xs)" "e \<noteq> 0"
  shows "\<exists>h' us vs. list_insert_ordered h l e lt = Some h' \<and> xs = us @ vs \<and> dll h' l (us @ e # vs) \<and>
    sorted_wrt (\<lambda>x y. \<not> lt y x) (us @ e # vs) \<and> (\<forall>v \<in> set vs. lt e v)"
proof -
  let ?us = "takeWhile (\<lambda>x. \<not> lt e x) xs" and ?vs = "dropWhile (\<lambda>x. \<not> lt e x) xs"
  obtain h' where h': "list_insert_ordered h l e lt = Some h'" "dll h' l (?us @ e # ?vs)"
    using list_insert_ordered_dll [OF assms(2,4,5)] unfolding ordered_insert_def by blast
  have "lt e v" if "v \<in> set ?vs" for v
  proof (cases ?vs)
    case Nil
    with that show ?thesis by simp
  next
    case (Cons w ws)
    then have "lt e w" by (metis dropWhile_eq_Cons_conv)
    moreover have "sorted_wrt (\<lambda>x y. \<not> lt y x) (?us @ ?vs)" using assms(3) by simp
    then have "\<forall>z \<in> set ws. \<not> lt z w" unfolding Cons by (auto simp: sorted_wrt_append)
    ultimately show ?thesis
      using that Cons strict_weak_order.negtrans [OF assms(1), of e w v] by auto
  qed
  moreover have "sorted_wrt (\<lambda>x y. \<not> lt y x) (?us @ e # ?vs)"
    using sorted_ordered_insert [OF assms(1,3), of e] by (simp add: ordered_insert_def)
  moreover have "xs = ?us @ ?vs" by simp
  ultimately show ?thesis using h' by blast
qed

theorem list_insert_ordered_sorted_witness:
  "\<exists>h' us vs. list_insert_ordered demo_heap demo_list 7 (<) = Some h' \<and> [3, 4, 5] = us @ vs \<and>
    dll h' demo_list (us @ 7 # vs) \<and> (\<forall>v \<in> set vs. 7 < v)"
proof -
  have "strict_weak_order ((<) :: list_less_func)" by unfold_locales auto
  moreover have "sorted_wrt (\<lambda>x y :: ptr. \<not> y < x) [3, 4, 5]" "(7 :: ptr) \<notin> set (nodes demo_list [3, 4, 5])"
    by (simp_all add: nodes_def demo_list_def)
  ultimately show ?thesis using list_insert_ordered_sorted [OF _ demo_dll, of "(<)" 7] by fastforce
qed

text \<open>
  \<open>list_reverse\<close> of a well-formed list returns a well-formed list with the elements in
  reverse order, and writes no element outside the list.
\<close>

theorem list_reverse_correct:
  assumes "dll h l xs"
  shows "\<exists>h'. list_reverse h l = Some h' \<and> dll h' l (rev xs) \<and>
    (\<forall>p. p \<notin> set (nodes l xs) \<longrightarrow> prv h' p = prv h p \<and> nxt h' p = nxt h p)"
  using list_reverse_dll [OF assms] by (simp add: same_outside_def)

theorem list_reverse_correct_witness:
  "\<exists>h'. list_reverse demo_heap demo_list = Some h' \<and> dll h' demo_list [5, 4, 3]"
  using list_reverse_correct [OF demo_dll] by (simp del: not_gr_zero) blast

lemma uniq_spec:
  "uniq lt x ys = (k, d) \<Longrightarrow> mset k + mset d = mset (x # ys) \<and> k \<noteq> [] \<and> hd k = x \<and>
    successively (\<lambda>x y. lt x y \<or> lt y x) k"
proof (induction ys arbitrary: x k d)
  case (Cons y ys)
  obtain k1 d1 where 1: "uniq lt x ys = (k1, d1)" by fastforce
  obtain k2 d2 where 2: "uniq lt y ys = (k2, d2)" by fastforce
  show ?case
  proof (cases "\<not> lt x y \<and> \<not> lt y x")
    case True
    with 1 Cons.prems Cons.IH [OF 1] show ?thesis by auto
  next
    case False
    with 2 Cons.prems have "k = x # k2" "d = d2" by auto
    with False Cons.IH [OF 2] show ?thesis by (auto simp: successively_Cons)
  qed
qed auto

text \<open>
  \<open>list_unique\<close> with a second list returns; it keeps the front element, moves to the end of the
  second list every element that is equivalent to the last element kept before it, and keeps the
  others: nothing is lost or duplicated, and no two adjacent elements of the result are equivalent.
\<close>

theorem list_unique_splits:
  assumes "dll h l (x # xs)" "dll h d ds" "set (nodes d ds) \<inter> set (nodes l (x # xs)) = {}"
  shows "\<exists>h' k dd. list_unique h l (Some d) lt = Some h' \<and> dll h' l k \<and> dll h' d (ds @ dd) \<and>
    mset k + mset dd = mset (x # xs) \<and> hd k = x \<and> successively (\<lambda>x y. lt x y \<or> lt y x) k"
proof -
  obtain k dd where u: "uniq lt x xs = (k, dd)" by fastforce
  have "dups_ok h l ([] @ x # xs) (Some d) ds" using assms by (simp add: dups_ok_def)
  from unique_loop_dll [OF _ this u] assms(1) obtain h' where
    "unique_loop h l (Some d) x lt = Some h'" "dll h' l k" "dups_ok h' l k (Some d) (ds @ dd)" by auto
  moreover have "list_begin h l = x" "\<not> list_empty h l"
    using assms(1) by (simp_all add: list_begin_at list_empty_iff)
  ultimately show ?thesis using uniq_spec [OF u] by (auto simp: list_unique_def dups_ok_def)
qed

theorem list_unique_splits_witness:
  "\<exists>h' k dd. list_unique (list_init \<lparr>lhead = 8, ltail = 9\<rparr> demo_heap) demo_list (Some \<lparr>lhead = 8, ltail = 9\<rparr>)
      (\<lambda>a b. a div 2 < b div 2) = Some h' \<and> dll h' demo_list k \<and> dll h' \<lparr>lhead = 8, ltail = 9\<rparr> dd \<and>
    mset k + mset dd = {#3, 4, 5#}"
proof -
  let ?d = "\<lparr>lhead = 8, ltail = 9\<rparr>" and ?h = "list_init \<lparr>lhead = 8, ltail = 9\<rparr> demo_heap"
  have d: "dll ?h ?d []" "same_outside demo_heap ?h {8, 9}"
    using list_init_dll [of ?d demo_heap] by simp_all
  have "dll ?h demo_list [3, 4, 5]"
    by (rule dll_frame [OF demo_dll d(2)]) (simp add: nodes_def demo_list_def)
  from list_unique_splits [OF this d(1), of "\<lambda>a b. a div 2 < b div 2"] show ?thesis
    by (simp add: nodes_def demo_list_def) blast
qed

text \<open>
  \<open>list_max\<close> of a nonempty list returns the earliest maximum: every element before it is
  smaller and no element after it is greater; \<open>list_min\<close> likewise returns the earliest minimum.
\<close>

theorem list_max_min_first:
  assumes "strict_weak_order lt" "dll h l xs" "xs \<noteq> []"
  shows "(\<exists>us m vs. list_max h l lt = Some m \<and> xs = us @ m # vs \<and>
      (\<forall>u \<in> set us. lt u m) \<and> (\<forall>v \<in> set vs. \<not> lt m v)) \<and>
    (\<exists>us m vs. list_min h l lt = Some m \<and> xs = us @ m # vs \<and>
      (\<forall>u \<in> set us. lt m u) \<and> (\<forall>v \<in> set vs. \<not> lt v m))"
proof -
  obtain x ys where "xs = x # ys" using assms(3) by (cases xs) auto
  with assms(2) first_max_split [OF assms(1), of x ys]
    first_max_split [OF swo_converse [OF assms(1)], of x ys] show ?thesis
    by (auto simp: list_max_dll list_min_dll)
qed

theorem list_max_min_first_witness:
  "\<exists>us m vs. list_max demo_heap demo_list (\<lambda>a b. b < a) = Some m \<and> [3, 4, 5] = us @ m # vs \<and>
    (\<forall>v \<in> set vs. \<not> v < m)"
  using list_max_min_first [OF swo_addresses demo_dll] by blast

end
