(* ===== verification/Stable_Sort.thy ===== *)
theory Stable_Sort
  imports List_Sort
begin

text \<open>
  The abstract view of \<open>list_sort\<close> that the clients of the list library use: insertion of the
  elements one by one, each behind those it does not precede.  The merge sort on the linked
  structure computes exactly this sequence, because a sorted and stable rearrangement is unique.
\<close>

definition stable_sort :: "'a less \<Rightarrow> 'a list \<Rightarrow> 'a list" where
  "stable_sort lt xs = fold (ordered_insert lt) xs []"

lemma stable_sort_Nil [simp]: "stable_sort lt [] = []"
  by (simp add: stable_sort_def)

lemma mset_stable_sort [simp]: "mset (stable_sort lt xs) = mset xs"
proof -
  have "mset (fold (ordered_insert lt) xs ys) = mset xs + mset ys" for ys
    by (induction xs arbitrary: ys) auto
  then show ?thesis by (simp add: stable_sort_def)
qed

lemma stable_sort_simps [simp]:
  "set (stable_sort lt xs) = set xs" "length (stable_sort lt xs) = length xs"
  "distinct (stable_sort lt xs) = distinct xs" "stable_sort lt xs = [] \<longleftrightarrow> xs = []"
proof -
  note m = mset_stable_sort [of lt xs]
  show "set (stable_sort lt xs) = set xs" using mset_eq_setD [OF m] .
  show l: "length (stable_sort lt xs) = length xs" using mset_eq_length [OF m] .
  show "distinct (stable_sort lt xs) = distinct xs" using mset_eq_imp_distinct_iff [OF m] .
  show "stable_sort lt xs = [] \<longleftrightarrow> xs = []" using l by (metis length_0_conv)
qed

lemma sorted_stable_sort:
  assumes "strict_weak_order lt"
  shows "sorted_wrt (\<lambda>x y. \<not> lt y x) (stable_sort lt xs)"
proof -
  have "sorted_wrt (\<lambda>x y. \<not> lt y x) ys \<Longrightarrow> sorted_wrt (\<lambda>x y. \<not> lt y x) (fold (ordered_insert lt) xs ys)" for ys
    by (induction xs arbitrary: ys) (auto intro: sorted_ordered_insert [OF assms])
  then show ?thesis by (simp add: stable_sort_def)
qed

lemma filter_ordered_insert:
  assumes swo: "strict_weak_order lt" and s: "sorted_wrt (\<lambda>x y. \<not> lt y x) ys"
  shows "filter (\<lambda>y. \<not> lt x y \<and> \<not> lt y x) (ordered_insert lt e ys) =
    filter (\<lambda>y. \<not> lt x y \<and> \<not> lt y x) (ys @ [e])"
  using s
proof (induction ys)
  case (Cons y ys)
  have no: "lt x z" if "lt e y" "\<not> lt x e" "\<not> lt e x" "z \<in> set (y # ys)" for z
  proof -
    have "\<not> lt z y" using that(4) Cons.prems strict_weak_order.irrefl [OF swo] by auto
    then have "lt e z" using strict_weak_order.negtrans [OF swo that(1), of z] by blast
    then show ?thesis using that(3) strict_weak_order.negtrans [OF swo, of e z x] by blast
  qed
  show ?case
  proof (cases "lt e y \<and> \<not> lt x e \<and> \<not> lt e x")
    case True
    then have "filter (\<lambda>y. \<not> lt x y \<and> \<not> lt y x) (y # ys) = []" using no by (auto simp: filter_empty_conv)
    then show ?thesis using True by (auto split: if_splits)
  qed (use Cons in auto)
qed simp

lemma stable_stable_sort:
  assumes swo: "strict_weak_order lt"
  shows "stable_perm lt xs (stable_sort lt xs)"
proof -
  have "sorted_wrt (\<lambda>x y. \<not> lt y x) ys \<Longrightarrow> filter (\<lambda>y. \<not> lt x y \<and> \<not> lt y x) (fold (ordered_insert lt) xs ys) =
      filter (\<lambda>y. \<not> lt x y \<and> \<not> lt y x) (ys @ xs)" for x ys
  proof (induction xs arbitrary: ys)
    case (Cons z zs)
    show ?case using Cons.IH [OF sorted_ordered_insert [OF swo Cons.prems], of z]
        filter_ordered_insert [OF swo Cons.prems, of x z] by simp
  qed simp
  then show ?thesis by (simp add: stable_perm_def) (simp add: stable_sort_def)
qed

text \<open>A sorted stable rearrangement is unique.\<close>

lemma stable_unique:
  assumes swo: "strict_weak_order lt"
    and "sorted_wrt (\<lambda>x y. \<not> lt y x) xs" "sorted_wrt (\<lambda>x y. \<not> lt y x) ys"
    and "mset xs = mset ys"
    and "\<And>x. filter (\<lambda>y. \<not> lt x y \<and> \<not> lt y x) xs = filter (\<lambda>y. \<not> lt x y \<and> \<not> lt y x) ys"
  shows "xs = ys"
  using assms(2-)
proof (induction xs arbitrary: ys)
  case (Cons x xs)
  from Cons.prems(3) obtain y zs where ys: "ys = y # zs" by (cases ys) auto
  have irr: "\<not> lt z z" for z using strict_weak_order.irrefl [OF swo] .
  have "x \<in> set (y # zs)" "y \<in> set (x # xs)"
    using mset_eq_setD [OF Cons.prems(3)] ys by auto
  then have "\<not> lt x y" "\<not> lt y x" using Cons.prems(1,2) ys irr by auto
  then have e: "y = x" using Cons.prems(4) [of x] ys irr by simp
  have "filter (\<lambda>y. \<not> lt w y \<and> \<not> lt y w) xs = filter (\<lambda>y. \<not> lt w y \<and> \<not> lt y w) zs" for w
    using Cons.prems(4) [of w] ys e by (simp split: if_splits)
  then show ?case using Cons.IH [of zs] Cons.prems(1-3) ys e by simp
qed simp

lemma stable_sort_eqI:
  assumes swo: "strict_weak_order lt" and "nondec lt ys" "stable_perm lt xs ys"
  shows "ys = stable_sort lt xs"
proof (rule stable_unique [OF swo])
  show "sorted_wrt (\<lambda>x y. \<not> lt y x) ys" using assms strict_weak_order.nondec_sorted by blast
  show "sorted_wrt (\<lambda>x y. \<not> lt y x) (stable_sort lt xs)" by (rule sorted_stable_sort [OF swo])
  show "mset ys = mset (stable_sort lt xs)" using assms(3) by (simp add: stable_perm_def)
  show "filter (\<lambda>y. \<not> lt x y \<and> \<not> lt y x) ys = filter (\<lambda>y. \<not> lt x y \<and> \<not> lt y x) (stable_sort lt xs)" for x
    using assms(3) stable_stable_sort [OF swo, of xs] by (simp add: stable_perm_def)
qed

section \<open>Refinement\<close>

text \<open>
  On a well-formed list the merge sort over the linked structure returns, and the list it leaves is
  the insertion sort of the original sequence.
\<close>

lemma list_sort_refines_stable_sort:
  assumes "strict_weak_order lt" "dll h l xs"
  shows "\<exists>h'. list_sort h l lt = Some h' \<and> dll h' l (stable_sort lt xs)"
proof -
  obtain h' ys where "list_sort h l lt = Some h'" "dll h' l ys" "nondec lt ys" "stable_perm lt xs ys"
    using list_sort_dll [OF assms] by blast
  then show ?thesis using stable_sort_eqI [OF assms(1)] by blast
qed

end
