(* ===== verification/Thread.thy ===== *)
theory Thread
  imports Stable_Sort
begin

text \<open>
  Threads and their scheduling: \<open>threads/thread.c\<close>, the interrupt level of
  \<open>threads/interrupt.c\<close>, and the state that \<open>threads/synch.c\<close> and \<open>devices/timer.c\<close> share with
  them.

  A thread switch saves the rest of the running function on the thread's kernel stack and resumes
  the rest of another thread's function.  The model keeps that rest as a list of \<open>frame\<close>s per
  thread: a call \<open>f (); rest\<close> of the source is ``push the frame for \<open>rest\<close>, then do \<open>f\<close>'', and a
  function that calls \<open>schedule\<close> simply ends there; whoever runs next continues by popping its own
  topmost frame.  So every interleaving of the kernel threads at their switch points, and of the
  timer interrupt at any point where interrupts are on, is a sequence of steps.

  The lists of threads (the ready list, the sleepers, the waiters of a semaphore) are HOL lists.
  \<open>List_Sort\<close> and \<open>Stable_Sort\<close> show that \<open>list_insert_ordered\<close> and \<open>list_sort\<close> compute
  \<open>ordered_insert\<close> and \<open>stable_sort\<close> of the sequence a linked list holds, for every order that is
  a strict weak order; the two orders used here are.
\<close>

section \<open>State\<close>

text \<open>
  A semaphore is a variable of its own (\<open>Sema\<close>) or the one inside a lock (\<open>Lock_sema\<close>).  Reading
  the first waiter of an empty list reads the list's own tail: \<open>list_entry\<close> then finds the
  \<open>priority\<close> four bytes before the tail, which is the address of the tail (\<open>tail_addr\<close>).
\<close>

type_synonym thread_ptr = nat
type_synonym lock_ptr = nat
type_synonym cond_ptr = nat

datatype sema_ptr = Sema nat | Lock_sema lock_ptr

datatype thread_status = THREAD_RUNNING | THREAD_READY | THREAD_BLOCKED | THREAD_DYING

datatype thread_func = Idle nat | Client

text \<open>
  The points at which a kernel function can be suspended.  \<open>Set_level b\<close> is a pending
  \<open>intr_set_level (old_level)\<close>; \<open>Slept b\<close> is the one at the end of \<open>timer_sleep\<close>; \<open>Down s\<close> is a
  pending call \<open>sema_down (s)\<close>; \<open>Iret\<close> is the return from an interrupt.
\<close>

datatype frame =
    Set_level bool
  | Slept bool
  | Enable
  | Down sema_ptr
  | Sema_down_loop sema_ptr
  | Acquired lock_ptr
  | Donated thread_ptr int
  | Recalculate
  | Cond_reacquire lock_ptr
  | Broadcast cond_ptr lock_ptr
  | Create_tid thread_ptr thread_func
  | Create_run thread_ptr thread_func
  | Kernel_thread thread_func
  | Idle_start nat
  | Idle_loop
  | Sti_hlt
  | Iret

record thread =
  tid :: u32
  status :: thread_status
  priority :: int
  wakeup_tick :: u32
  lock_own_list :: "lock_ptr list"
  plock_acq :: "lock_ptr option"
  origin_priority :: int
  tparent :: thread_ptr
  user_pagedir :: bool
  stack :: "frame list"

record semaphore =
  semaval :: u32
  waiters :: "thread_ptr list"

record kernel =
  threads :: "thread_ptr \<Rightarrow> thread option"
  ready_list :: "thread_ptr list"
  waiting_list :: "thread_ptr list"
  running :: thread_ptr
  idle_thread :: "thread_ptr option"
  initial_thread :: thread_ptr
  semas :: "sema_ptr \<Rightarrow> semaphore"
  tail_addr :: "sema_ptr \<Rightarrow> u32"
  holder :: "lock_ptr \<Rightarrow> thread_ptr option"
  cond_waiters :: "cond_ptr \<Rightarrow> nat list"
  next_tid :: u32
  intr_on :: bool
  in_external_intr :: bool
  yield_on_return :: bool
  idle_ticks :: u64
  kernel_ticks :: u64
  user_ticks :: u64
  thread_ticks :: u32
  timer_count :: u64

definition PRI_MIN :: int where "PRI_MIN = 0"
definition PRI_DEFAULT :: int where "PRI_DEFAULT = 31"
definition PRI_MAX :: int where "PRI_MAX = 63"
definition TIME_SLICE :: u32 where "TIME_SLICE = 4"

definition prio :: "kernel \<Rightarrow> thread_ptr \<Rightarrow> int" where
  "prio st t = priority (the (threads st t))"

definition get_thread :: "thread_ptr \<Rightarrow> kernel \<Rightarrow> thread option" where
  "get_thread t st = threads st t"

definition put_thread :: "thread_ptr \<Rightarrow> thread \<Rightarrow> kernel \<Rightarrow> kernel" where
  "put_thread t r st = st\<lparr>threads := (threads st)(t \<mapsto> r)\<rparr>"

definition push :: "frame \<Rightarrow> kernel \<Rightarrow> kernel option" where
  "push f st = do {
     r \<leftarrow> get_thread (running st) st;
     Some (put_thread (running st) (r\<lparr>stack := f # stack r\<rparr>) st) }"

section \<open>Interrupt level\<close>

definition intr_disable :: "kernel \<Rightarrow> kernel" where
  "intr_disable st = st\<lparr>intr_on := False\<rparr>"

definition intr_enable :: "kernel \<Rightarrow> kernel option" where
  "intr_enable st = do {
     ASSERT (\<not> in_external_intr st);
     Some (st\<lparr>intr_on := True\<rparr>) }"

definition intr_set_level :: "bool \<Rightarrow> kernel \<Rightarrow> kernel option" where
  "intr_set_level level st = (if level then intr_enable st else Some (intr_disable st))"

definition intr_yield_on_return :: "kernel \<Rightarrow> kernel option" where
  "intr_yield_on_return st = do {
     ASSERT (in_external_intr st);
     Some (st\<lparr>yield_on_return := True\<rparr>) }"

section \<open>thread.c\<close>

definition higher_priority :: "kernel \<Rightarrow> thread_ptr less" where
  "higher_priority st x y \<longleftrightarrow> prio st x > prio st y"

definition less_wakeup_tick :: "kernel \<Rightarrow> thread_ptr less" where
  "less_wakeup_tick st x y \<longleftrightarrow>
     wakeup_tick (the (threads st x)) <s wakeup_tick (the (threads st y))"

definition sort_threads :: "kernel \<Rightarrow> thread_ptr list \<Rightarrow> thread_ptr list" where
  "sort_threads st xs = stable_sort (higher_priority st) xs"

definition is_thread :: "thread_ptr \<Rightarrow> kernel \<Rightarrow> bool" where
  "is_thread t st \<longleftrightarrow> threads st t \<noteq> None"

definition thread_current :: "kernel \<Rightarrow> thread_ptr option" where
  "thread_current st = do {
     r \<leftarrow> get_thread (running st) st;
     ASSERT (status r = THREAD_RUNNING);
     Some (running st) }"

definition next_thread_to_run :: "kernel \<Rightarrow> thread_ptr option \<times> kernel" where
  "next_thread_to_run st =
     (case ready_list st of
        [] \<Rightarrow> (idle_thread st, st)
      | t # ts \<Rightarrow> (Some t, st\<lparr>ready_list := ts\<rparr>))"

definition schedule_tail :: "thread_ptr option \<Rightarrow> kernel \<Rightarrow> kernel option" where
  "schedule_tail prev st = do {
     ASSERT (\<not> intr_on st);
     curr \<leftarrow> get_thread (running st) st;
     let st = put_thread (running st) (curr\<lparr>status := THREAD_RUNNING\<rparr>) st;
     let st = st\<lparr>thread_ticks := 0\<rparr>;
     (case prev of
        None \<Rightarrow> Some st
      | Some p \<Rightarrow> do {
          r \<leftarrow> get_thread p st;
          if status r = THREAD_DYING \<and> p \<noteq> initial_thread st then do {
            ASSERT (p \<noteq> running st);
            Some (st\<lparr>threads := (threads st)(p := None)\<rparr>) }
          else Some st }) }"

definition schedule :: "kernel \<Rightarrow> kernel option" where
  "schedule st = do {
     let curr = running st;
     let (nxt, st) = next_thread_to_run st;
     ASSERT (\<not> intr_on st);
     r \<leftarrow> get_thread curr st;
     ASSERT (status r \<noteq> THREAD_RUNNING);
     n \<leftarrow> nxt;
     ASSERT (is_thread n st);
     if curr \<noteq> n then schedule_tail (Some curr) (st\<lparr>running := n\<rparr>)
     else schedule_tail None st }"

definition thread_block :: "kernel \<Rightarrow> kernel option" where
  "thread_block st = do {
     ASSERT (\<not> in_external_intr st);
     ASSERT (\<not> intr_on st);
     t \<leftarrow> thread_current st;
     r \<leftarrow> get_thread t st;
     schedule (put_thread t (r\<lparr>status := THREAD_BLOCKED\<rparr>) st) }"

definition thread_unblock :: "thread_ptr \<Rightarrow> kernel \<Rightarrow> kernel option" where
  "thread_unblock t st = do {
     ASSERT (is_thread t st);
     let old_level = intr_on st;
     let st = intr_disable st;
     r \<leftarrow> get_thread t st;
     ASSERT (status r = THREAD_BLOCKED);
     let st = st\<lparr>ready_list := ordered_insert (higher_priority st) t (ready_list st)\<rparr>;
     let st = put_thread t (r\<lparr>status := THREAD_READY\<rparr>) st;
     intr_set_level old_level st }"

definition thread_yield :: "kernel \<Rightarrow> kernel option" where
  "thread_yield st = do {
     curr \<leftarrow> thread_current st;
     ASSERT (\<not> in_external_intr st);
     st \<leftarrow> push (Set_level (intr_on st)) st;
     let st = intr_disable st;
     let st = (if Some curr \<noteq> idle_thread st
               then st\<lparr>ready_list := ordered_insert (higher_priority st) curr (ready_list st)\<rparr> else st);
     r \<leftarrow> get_thread curr st;
     schedule (put_thread curr (r\<lparr>status := THREAD_READY\<rparr>) st) }"

definition thread_exit :: "kernel \<Rightarrow> kernel option" where
  "thread_exit st = do {
     ASSERT (\<not> in_external_intr st);
     let st = intr_disable st;
     t \<leftarrow> thread_current st;
     r \<leftarrow> get_thread t st;
     schedule (put_thread t (r\<lparr>status := THREAD_DYING\<rparr>) st) }"

definition specific_thread_set_priority :: "int \<Rightarrow> thread_ptr \<Rightarrow> kernel \<Rightarrow> kernel option" where
  "specific_thread_set_priority new_priority new_t st = do {
     let old_level = intr_on st;
     let st = intr_disable st;
     r \<leftarrow> get_thread new_t st;
     let st = put_thread new_t (r\<lparr>priority := new_priority\<rparr>) st;
     if ready_list st = [] then Some st
     else do {
       let st = st\<lparr>ready_list := sort_threads st (ready_list st)\<rparr>;
       let tfirst = hd (ready_list st);
       t \<leftarrow> thread_current st;
       st \<leftarrow> push (Set_level old_level) st;
       if prio st tfirst \<ge> prio st t \<and> \<not> in_external_intr st then thread_yield st
       else Some st } }"

definition first_waiter_priority :: "kernel \<Rightarrow> sema_ptr \<Rightarrow> int" where
  "first_waiter_priority st s =
     (case waiters (semas st s) of [] \<Rightarrow> sint (tail_addr st s) | t # _ \<Rightarrow> prio st t)"

definition find_priority :: "kernel \<Rightarrow> lock_ptr list \<Rightarrow> int" where
  "find_priority st ls =
     foldl (\<lambda>found l. let c = first_waiter_priority st (Lock_sema l) in if found < c then c else found) 0 ls"

definition recalculate_priority :: "kernel \<Rightarrow> kernel option" where
  "recalculate_priority st = do {
     let old_level = intr_on st;
     let st = intr_disable st;
     t \<leftarrow> thread_current st;
     r \<leftarrow> get_thread t st;
     if lock_own_list r = [] then do {
       st \<leftarrow> intr_set_level old_level st;
       specific_thread_set_priority (origin_priority r) t st }
     else if find_priority st (lock_own_list r) > origin_priority r then do {
       let p = find_priority st (lock_own_list r);
       st \<leftarrow> intr_set_level old_level st;
       specific_thread_set_priority p t st }
     else do {
       st \<leftarrow> intr_set_level old_level st;
       specific_thread_set_priority (origin_priority r) t st } }"

definition thread_set_priority :: "int \<Rightarrow> kernel \<Rightarrow> kernel option" where
  "thread_set_priority new_priority st = do {
     let old_level = intr_on st;
     let st = intr_disable st;
     t \<leftarrow> thread_current st;
     r \<leftarrow> get_thread t st;
     let st = put_thread t (r\<lparr>origin_priority := new_priority\<rparr>) st;
     st \<leftarrow> intr_set_level old_level st;
     st \<leftarrow> push Recalculate st;
     specific_thread_set_priority new_priority t st }"

definition thread_get_priority :: "kernel \<Rightarrow> int option" where
  "thread_get_priority st = do {
     t \<leftarrow> thread_current st;
     Some (prio st t) }"

definition init_thread :: "thread_ptr \<Rightarrow> int \<Rightarrow> kernel \<Rightarrow> kernel option" where
  "init_thread t new_priority st = do {
     ASSERT (PRI_MIN \<le> new_priority \<and> new_priority \<le> PRI_MAX);
     let parent = (if is_thread (running st) st then running st else t);
     let st = put_thread t \<lparr>tid = 0, status = THREAD_BLOCKED, priority = new_priority, wakeup_tick = 0,
         lock_own_list = [], plock_acq = None, origin_priority = new_priority,
         tparent = parent, user_pagedir = False, stack = []\<rparr> st;
     r \<leftarrow> get_thread (initial_thread st) st;
     Some (put_thread (initial_thread st) (r\<lparr>wakeup_tick := 0\<rparr>) st) }"

definition thread_tick :: "kernel \<Rightarrow> kernel option" where
  "thread_tick st = do {
     t \<leftarrow> thread_current st;
     r \<leftarrow> get_thread t st;
     let st = (if Some t = idle_thread st then st\<lparr>idle_ticks := idle_ticks st + 1\<rparr>
               else if user_pagedir r then st\<lparr>user_ticks := user_ticks st + 1\<rparr>
               else st\<lparr>kernel_ticks := kernel_ticks st + 1\<rparr>);
     let st = st\<lparr>thread_ticks := thread_ticks st + 1\<rparr>;
     if thread_ticks st \<ge> TIME_SLICE then intr_yield_on_return st else Some st }"

section \<open>The orders on threads\<close>

interpretation hp: strict_weak_order "higher_priority st" for st
  by unfold_locales (auto simp: higher_priority_def)

interpretation wt: strict_weak_order "less_wakeup_tick st" for st
  by unfold_locales (auto simp: less_wakeup_tick_def word_sless_alt)

end
