(* ===== verification/Synch.thy ===== *)
theory Synch
  imports Thread
begin

text \<open>
  Semaphores, locks with priority donation and condition variables (\<open>threads/synch.c\<close>), thread
  creation and the idle thread (\<open>threads/thread.c\<close>), sleeping and the timer interrupt
  (\<open>devices/timer.c\<close>, \<open>threads/interrupt.c\<close>), and the step relation that interleaves them.
  \<open>exec\<close> resumes a suspended function from its topmost frame; a client call starts one; the timer
  interrupt comes in whenever interrupts are on.
\<close>

section \<open>Semaphores\<close>

definition sema_init :: "sema_ptr \<Rightarrow> u32 \<Rightarrow> kernel \<Rightarrow> kernel" where
  "sema_init s v st = st\<lparr>semas := (semas st)(s := \<lparr>semaval = v, waiters = []\<rparr>)\<rparr>"

definition set_waiters :: "sema_ptr \<Rightarrow> thread_ptr list \<Rightarrow> kernel \<Rightarrow> kernel" where
  "set_waiters s ts st = st\<lparr>semas := (semas st)(s := (semas st s)\<lparr>waiters := ts\<rparr>)\<rparr>"

definition set_value :: "sema_ptr \<Rightarrow> u32 \<Rightarrow> kernel \<Rightarrow> kernel" where
  "set_value s v st = st\<lparr>semas := (semas st)(s := (semas st s)\<lparr>semaval := v\<rparr>)\<rparr>"

definition sema_down_loop :: "sema_ptr \<Rightarrow> kernel \<Rightarrow> kernel option" where
  "sema_down_loop s st =
     (if semaval (semas st s) = 0 then do {
        t \<leftarrow> thread_current st;
        let st = set_waiters s (waiters (semas st s) @ [t]) st;
        st \<leftarrow> push (Sema_down_loop s) st;
        thread_block st }
      else Some (set_value s (semaval (semas st s) - 1) st))"

definition sema_down :: "sema_ptr \<Rightarrow> kernel \<Rightarrow> kernel option" where
  "sema_down s st = do {
     ASSERT (\<not> in_external_intr st);
     st \<leftarrow> push (Set_level (intr_on st)) st;
     let st = intr_disable st;
     sema_down_loop s st }"

definition sema_try_down :: "sema_ptr \<Rightarrow> kernel \<Rightarrow> (bool \<times> kernel) option" where
  "sema_try_down s st = do {
     let old_level = intr_on st;
     let st = intr_disable st;
     let success = (semaval (semas st s) > 0);
     let st = (if success then set_value s (semaval (semas st s) - 1) st else st);
     st \<leftarrow> intr_set_level old_level st;
     Some (success, st) }"

definition sema_wake :: "sema_ptr \<Rightarrow> kernel \<Rightarrow> kernel option" where
  "sema_wake s st =
     (if waiters (semas st s) \<noteq> [] then do {
        let st = (if length (waiters (semas st s)) > 1
                  then set_waiters s (sort_threads st (waiters (semas st s))) st else st);
        let t = hd (waiters (semas st s));
        let st = set_waiters s (tl (waiters (semas st s))) st;
        thread_unblock t st }
      else Some st)"

definition sema_up :: "sema_ptr \<Rightarrow> kernel \<Rightarrow> kernel option" where
  "sema_up s st = do {
     st \<leftarrow> push (Set_level (intr_on st)) st;
     let st = intr_disable st;
     st \<leftarrow> sema_wake s st;
     let st = set_value s (semaval (semas st s) + 1) st;
     recalculate_priority st }"

section \<open>Locks\<close>

definition lock_init :: "lock_ptr \<Rightarrow> kernel \<Rightarrow> kernel" where
  "lock_init l st = sema_init (Lock_sema l) 1 (st\<lparr>holder := (holder st)(l := None)\<rparr>)"

definition lock_held_by_current_thread :: "lock_ptr \<Rightarrow> kernel \<Rightarrow> bool option" where
  "lock_held_by_current_thread l st = do {
     t \<leftarrow> thread_current st;
     Some (holder st l = Some t) }"

definition lock_priority_donate :: "lock_ptr \<Rightarrow> int \<Rightarrow> kernel \<Rightarrow> kernel option" where
  "lock_priority_donate l new_priority st = do {
     tdonatee \<leftarrow> holder st l;
     ASSERT (is_thread tdonatee st);
     if prio st tdonatee < new_priority then do {
       st \<leftarrow> push (Donated tdonatee new_priority) st;
       specific_thread_set_priority new_priority tdonatee st }
     else Some st }"

definition lock_donated :: "thread_ptr \<Rightarrow> int \<Rightarrow> kernel \<Rightarrow> kernel option" where
  "lock_donated tdonatee new_priority st = do {
     r \<leftarrow> get_thread tdonatee st;
     (case plock_acq r of
        None \<Rightarrow> Some st
      | Some plock \<Rightarrow> lock_priority_donate plock new_priority st) }"

definition lock_acquire :: "lock_ptr \<Rightarrow> kernel \<Rightarrow> kernel option" where
  "lock_acquire l st = do {
     ASSERT (\<not> in_external_intr st);
     held \<leftarrow> lock_held_by_current_thread l st;
     ASSERT (\<not> held);
     st \<leftarrow> push (Set_level (intr_on st)) st;
     let st = intr_disable st;
     t \<leftarrow> thread_current st;
     st \<leftarrow> push (Acquired l) st;
     st \<leftarrow> push (Down (Lock_sema l)) st;
     if holder st l \<noteq> None then do {
       r \<leftarrow> get_thread t st;
       let st = put_thread t (r\<lparr>plock_acq := Some l\<rparr>) st;
       lock_priority_donate l (prio st t) st }
     else Some st }"

definition lock_acquired :: "lock_ptr \<Rightarrow> kernel \<Rightarrow> kernel option" where
  "lock_acquired l st = do {
     r \<leftarrow> get_thread (running st) st;
     let st = put_thread (running st)
         (r\<lparr>lock_own_list := lock_own_list r @ [l], plock_acq := None\<rparr>) st;
     Some (st\<lparr>holder := (holder st)(l := Some (running st))\<rparr>) }"

definition lock_try_acquire :: "lock_ptr \<Rightarrow> kernel \<Rightarrow> (bool \<times> kernel) option" where
  "lock_try_acquire l st = do {
     held \<leftarrow> lock_held_by_current_thread l st;
     ASSERT (\<not> held);
     (success, st) \<leftarrow> sema_try_down (Lock_sema l) st;
     if success then do {
       t \<leftarrow> thread_current st;
       Some (success, st\<lparr>holder := (holder st)(l := Some t)\<rparr>) }
     else Some (success, st) }"

definition lock_release :: "lock_ptr \<Rightarrow> kernel \<Rightarrow> kernel option" where
  "lock_release l st = do {
     held \<leftarrow> lock_held_by_current_thread l st;
     ASSERT held;
     st \<leftarrow> push (Set_level (intr_on st)) st;
     let st = intr_disable st;
     let st = st\<lparr>holder := (holder st)(l := None)\<rparr>;
     r \<leftarrow> get_thread (running st) st;
     ASSERT (l \<in> set (lock_own_list r));
     let st = put_thread (running st) (r\<lparr>lock_own_list := remove1 l (lock_own_list r)\<rparr>) st;
     sema_up (Lock_sema l) st }"

section \<open>Condition variables\<close>

definition cond_init :: "cond_ptr \<Rightarrow> kernel \<Rightarrow> kernel" where
  "cond_init c st = st\<lparr>cond_waiters := (cond_waiters st)(c := [])\<rparr>"

definition higher_priority_insema :: "kernel \<Rightarrow> nat less" where
  "higher_priority_insema st x y \<longleftrightarrow>
     first_waiter_priority st (Sema x) > first_waiter_priority st (Sema y)"

interpretation hs: strict_weak_order "higher_priority_insema st" for st
  by unfold_locales (auto simp: higher_priority_insema_def)

definition cond_wait :: "cond_ptr \<Rightarrow> lock_ptr \<Rightarrow> nat \<Rightarrow> kernel \<Rightarrow> kernel option" where
  "cond_wait c l waiter st = do {
     ASSERT (\<not> in_external_intr st);
     held \<leftarrow> lock_held_by_current_thread l st;
     ASSERT held;
     let st = sema_init (Sema waiter) 0 st;
     let st = st\<lparr>cond_waiters := (cond_waiters st)(c := cond_waiters st c @ [waiter])\<rparr>;
     st \<leftarrow> push (Cond_reacquire l) st;
     st \<leftarrow> push (Down (Sema waiter)) st;
     lock_release l st }"

definition cond_signal :: "cond_ptr \<Rightarrow> lock_ptr \<Rightarrow> kernel \<Rightarrow> kernel option" where
  "cond_signal c l st = do {
     ASSERT (\<not> in_external_intr st);
     held \<leftarrow> lock_held_by_current_thread l st;
     ASSERT held;
     if cond_waiters st c \<noteq> [] then do {
       let ws = stable_sort (higher_priority_insema st) (cond_waiters st c);
       let st = st\<lparr>cond_waiters := (cond_waiters st)(c := tl ws)\<rparr>;
       sema_up (Sema (hd ws)) st }
     else Some st }"

definition cond_broadcast :: "cond_ptr \<Rightarrow> lock_ptr \<Rightarrow> kernel \<Rightarrow> kernel option" where
  "cond_broadcast c l st =
     (if cond_waiters st c \<noteq> [] then do {
        st \<leftarrow> push (Broadcast c l) st;
        cond_signal c l st }
      else Some st)"

section \<open>Thread creation and the idle thread\<close>

text \<open>
  The lock \<open>tid_lock\<close> has its own identity; \<open>page\<close> is what \<open>palloc_get_page\<close> returned.
\<close>

definition tid_lock :: lock_ptr where "tid_lock = 0"

definition thread_create :: "thread_ptr option \<Rightarrow> int \<Rightarrow> thread_func \<Rightarrow> kernel \<Rightarrow> kernel option" where
  "thread_create page new_priority f st =
     (case page of
        None \<Rightarrow> Some st
      | Some t \<Rightarrow> do {
          st \<leftarrow> init_thread t new_priority st;
          st \<leftarrow> push (Create_tid t f) st;
          lock_acquire tid_lock st })"

definition create_tid :: "thread_ptr \<Rightarrow> thread_func \<Rightarrow> kernel \<Rightarrow> kernel option" where
  "create_tid t f st = do {
     r \<leftarrow> get_thread t st;
     let st = put_thread t (r\<lparr>tid := next_tid st\<rparr>) (st\<lparr>next_tid := next_tid st + 1\<rparr>);
     st \<leftarrow> push (Create_run t f) st;
     lock_release tid_lock st }"

definition create_run :: "thread_ptr \<Rightarrow> thread_func \<Rightarrow> kernel \<Rightarrow> kernel option" where
  "create_run t f st = do {
     r \<leftarrow> get_thread t st;
     let st = put_thread t (r\<lparr>stack := [Kernel_thread f]\<rparr>) st;
     st \<leftarrow> thread_unblock t st;
     curr \<leftarrow> thread_current st;
     specific_thread_set_priority (prio st curr) curr st }"

definition thread_start :: "thread_ptr option \<Rightarrow> nat \<Rightarrow> kernel \<Rightarrow> kernel option" where
  "thread_start page idle_started st = do {
     let st = sema_init (Sema idle_started) 0 st;
     st \<leftarrow> push (Down (Sema idle_started)) st;
     st \<leftarrow> push Enable st;
     thread_create page PRI_MIN (Idle idle_started) st }"

definition kernel_thread :: "thread_func \<Rightarrow> kernel \<Rightarrow> kernel option" where
  "kernel_thread f st = do {
     st \<leftarrow> intr_enable st;
     (case f of Idle s \<Rightarrow> push (Idle_start s) st | Client \<Rightarrow> Some st) }"

definition idle :: "nat \<Rightarrow> kernel \<Rightarrow> kernel option" where
  "idle idle_started st = do {
     t \<leftarrow> thread_current st;
     st \<leftarrow> push Idle_loop (st\<lparr>idle_thread := Some t\<rparr>);
     sema_up (Sema idle_started) st }"

definition idle_loop :: "kernel \<Rightarrow> kernel option" where
  "idle_loop st = do {
     let st = intr_disable st;
     st \<leftarrow> push Idle_loop st;
     st \<leftarrow> push Sti_hlt st;
     thread_block st }"

section \<open>Sleeping and the timer interrupt\<close>

definition timer_ticks :: "kernel \<Rightarrow> u64" where
  "timer_ticks st = timer_count st"

definition timer_elapsed :: "u64 \<Rightarrow> kernel \<Rightarrow> u64" where
  "timer_elapsed since st = timer_ticks st - since"

definition timer_sleep :: "u64 \<Rightarrow> kernel \<Rightarrow> kernel option" where
  "timer_sleep n st = do {
     let start = timer_ticks st;
     ASSERT (intr_on st);
     let old_level = intr_on st;
     let st = intr_disable st;
     t \<leftarrow> thread_current st;
     r \<leftarrow> get_thread t st;
     let st = put_thread t (r\<lparr>wakeup_tick := ucast (start + n)\<rparr>) st;
     let st = st\<lparr>waiting_list := ordered_insert (less_wakeup_tick st) t (waiting_list st)\<rparr>;
     st \<leftarrow> push (Slept old_level) st;
     thread_block st }"

definition wakeup_due :: "kernel \<Rightarrow> thread_ptr \<Rightarrow> bool" where
  "wakeup_due st t \<longleftrightarrow> scast (wakeup_tick (the (threads st t))) \<le>s timer_count st"

fun wake_loop :: "thread_ptr list \<Rightarrow> kernel \<Rightarrow> kernel option" where
  "wake_loop [] st = Some st"
| "wake_loop (t # ts) st =
     (if wakeup_due st t then do {
        st \<leftarrow> thread_unblock t (st\<lparr>waiting_list := ts\<rparr>);
        wake_loop ts st }
      else Some st)"

definition timer_interrupt :: "kernel \<Rightarrow> kernel option" where
  "timer_interrupt st = do {
     let st = st\<lparr>timer_count := timer_count st + 1\<rparr>;
     st \<leftarrow> thread_tick st;
     wake_loop (waiting_list st) st }"

definition intr_handler :: "kernel \<Rightarrow> kernel option" where
  "intr_handler st = do {
     st \<leftarrow> push Iret st;
     let st = intr_disable st;
     ASSERT (\<not> in_external_intr st);
     let st = st\<lparr>in_external_intr := True, yield_on_return := False\<rparr>;
     st \<leftarrow> timer_interrupt st;
     ASSERT (\<not> intr_on st);
     ASSERT (in_external_intr st);
     let st = st\<lparr>in_external_intr := False\<rparr>;
     if yield_on_return st then thread_yield st else Some st }"

section \<open>Steps\<close>

fun exec :: "frame \<Rightarrow> kernel \<Rightarrow> kernel option" where
  "exec (Set_level b) st = intr_set_level b st"
| "exec (Slept b) st = intr_set_level b st"
| "exec Enable st = intr_enable st"
| "exec (Down s) st = sema_down s st"
| "exec (Sema_down_loop s) st = sema_down_loop s st"
| "exec (Acquired l) st = lock_acquired l st"
| "exec (Donated t p) st = lock_donated t p st"
| "exec Recalculate st = recalculate_priority st"
| "exec (Cond_reacquire l) st = lock_acquire l st"
| "exec (Broadcast c l) st = cond_broadcast c l st"
| "exec (Create_tid t f) st = create_tid t f st"
| "exec (Create_run t f) st = create_run t f st"
| "exec (Kernel_thread f) st = kernel_thread f st"
| "exec (Idle_start s) st = idle s st"
| "exec Idle_loop st = idle_loop st"
| "exec Sti_hlt st = Some (st\<lparr>intr_on := True\<rparr>)"
| "exec Iret st = Some (st\<lparr>intr_on := True\<rparr>)"

definition resume :: "kernel \<Rightarrow> kernel option" where
  "resume st = do {
     r \<leftarrow> get_thread (running st) st;
     (case stack r of
        [] \<Rightarrow> None
      | f # fs \<Rightarrow> exec f (put_thread (running st) (r\<lparr>stack := fs\<rparr>) st)) }"

text \<open>
  What code outside these files may call.  A client names plain semaphores only: the semaphore
  inside a lock is used by the lock operations alone.
\<close>

datatype call =
    Call_sema_init nat u32
  | Call_sema_down nat
  | Call_sema_up nat
  | Call_sema_try_down nat
  | Call_lock_acquire lock_ptr
  | Call_lock_release lock_ptr
  | Call_lock_try_acquire lock_ptr
  | Call_cond_wait cond_ptr lock_ptr nat
  | Call_cond_signal cond_ptr lock_ptr
  | Call_cond_broadcast cond_ptr lock_ptr
  | Call_set_priority int
  | Call_yield
  | Call_exit
  | Call_create "thread_ptr option" int
  | Call_start "thread_ptr option" nat
  | Call_sleep u64
  | Call_disable
  | Call_enable

fun do_call :: "call \<Rightarrow> kernel \<Rightarrow> kernel option" where
  "do_call (Call_sema_init s v) st = Some (sema_init (Sema s) v st)"
| "do_call (Call_sema_down s) st = sema_down (Sema s) st"
| "do_call (Call_sema_up s) st = sema_up (Sema s) st"
| "do_call (Call_sema_try_down s) st = map_option snd (sema_try_down (Sema s) st)"
| "do_call (Call_lock_acquire l) st = lock_acquire l st"
| "do_call (Call_lock_release l) st = lock_release l st"
| "do_call (Call_lock_try_acquire l) st = map_option snd (lock_try_acquire l st)"
| "do_call (Call_cond_wait c l w) st = cond_wait c l w st"
| "do_call (Call_cond_signal c l) st = cond_signal c l st"
| "do_call (Call_cond_broadcast c l) st = cond_broadcast c l st"
| "do_call (Call_set_priority p) st = thread_set_priority p st"
| "do_call Call_yield st = thread_yield st"
| "do_call Call_exit st = thread_exit st"
| "do_call (Call_create page p) st = thread_create page p Client st"
| "do_call (Call_start page s) st = thread_start page s st"
| "do_call (Call_sleep n) st = timer_sleep n st"
| "do_call Call_disable st = Some (intr_disable st)"
| "do_call Call_enable st = intr_enable st"

text \<open>
  Obligations of the callers that the code does not check: a semaphore is initialised only while
  no thread waits on it, and the page of a new thread is not a thread's page already.
\<close>

definition fresh_page :: "kernel \<Rightarrow> thread_ptr option \<Rightarrow> bool" where
  "fresh_page st page = (case page of None \<Rightarrow> True | Some t \<Rightarrow> threads st t = None)"

fun call_ok :: "call \<Rightarrow> kernel \<Rightarrow> bool" where
  "call_ok (Call_sema_init s v) st \<longleftrightarrow> waiters (semas st (Sema s)) = []"
| "call_ok (Call_cond_wait c l w) st \<longleftrightarrow> waiters (semas st (Sema w)) = []"
| "call_ok (Call_create page p) st \<longleftrightarrow> fresh_page st page"
| "call_ok (Call_start page s) st \<longleftrightarrow>
     fresh_page st page \<and> waiters (semas st (Sema s)) = []"
| "call_ok _ st \<longleftrightarrow> True"

inductive step :: "kernel \<Rightarrow> kernel \<Rightarrow> bool" where
  step_resume: "resume st = Some st' \<Longrightarrow> step st st'"
| step_call: "threads st (running st) = Some r \<Longrightarrow> stack r = [] \<Longrightarrow> call_ok c st \<Longrightarrow>
    do_call c st = Some st' \<Longrightarrow> step st st'"
| step_timer: "intr_on st \<Longrightarrow> intr_handler st = Some st' \<Longrightarrow> step st st'"

inductive_simps step_simps: "step st st'"

definition boot :: "thread_ptr \<Rightarrow> (sema_ptr \<Rightarrow> u32) \<Rightarrow> kernel" where
  "boot main tails = \<lparr>
     threads = [main \<mapsto> \<lparr>tid = 1, status = THREAD_RUNNING, priority = PRI_DEFAULT, wakeup_tick = 0,
       lock_own_list = [], plock_acq = None, origin_priority = PRI_DEFAULT, tparent = main,
       user_pagedir = False, stack = []\<rparr>],
     ready_list = [], waiting_list = [], running = main, idle_thread = None, initial_thread = main,
     semas = (\<lambda>s. \<lparr>semaval = (case s of Sema _ \<Rightarrow> 0 | Lock_sema _ \<Rightarrow> 1), waiters = []\<rparr>),
     tail_addr = tails, holder = (\<lambda>_. None), cond_waiters = (\<lambda>_. []), next_tid = 2,
     intr_on = False, in_external_intr = False, yield_on_return = False,
     idle_ticks = 0, kernel_ticks = 0, user_ticks = 0, thread_ticks = 0, timer_count = 0\<rparr>"

inductive reachable :: "kernel \<Rightarrow> bool" where
  reach_boot: "reachable (boot main tails)"
| reach_step: "reachable st \<Longrightarrow> step st st' \<Longrightarrow> reachable st'"

end
