(* ===== verification/Sched_Inv.thy ===== *)
theory Sched_Inv
  imports Synch
begin

text \<open>
  The invariant of the scheduler and the state changes from which its operations are built.

  \<open>sched_inv\<close> says where every thread is: the running thread is the only one with that status; a
  thread on the ready list is ready and a ready thread is on the list, except for a thread that
  executes \<open>idle\<close>; a thread is among the waiters of a semaphore, or among the sleepers, exactly
  when it is blocked at that point of \<open>sema_down\<close>, or of \<open>timer_sleep\<close>.  So the one list element
  of a thread is on at most one list.  The lists have no duplicates and the ready list is in
  decreasing order of priority.  The remaining conjuncts restrict the stacks of suspended calls:
  the thread that \<open>thread_create\<close> is still setting up is blocked with an empty stack, and the idle
  thread never waits.
\<close>

section \<open>The invariant\<close>

fun idle_frame :: "frame \<Rightarrow> bool" where
  "idle_frame (Set_level _) = True"
| "idle_frame Iret = True"
| "idle_frame Sti_hlt = True"
| "idle_frame Idle_loop = True"
| "idle_frame (Idle_start _) = True"
| "idle_frame (Kernel_thread _) = True"
| "idle_frame _ = False"

fun base_frame :: "frame \<Rightarrow> bool" where
  "base_frame Idle_loop = True"
| "base_frame (Idle_start _) = True"
| "base_frame (Kernel_thread _) = True"
| "base_frame _ = False"

definition idle_stack :: "frame list \<Rightarrow> bool" where
  "idle_stack fs \<longleftrightarrow> list_ex base_frame fs \<longrightarrow> list_all idle_frame fs"

fun creating :: "frame list \<Rightarrow> thread_ptr list" where
  "creating [] = []"
| "creating (Create_tid t f # fs) = t # creating fs"
| "creating (Create_run t f # fs) = t # creating fs"
| "creating (_ # fs) = creating fs"

definition waits_on :: "thread \<Rightarrow> sema_ptr \<Rightarrow> bool" where
  "waits_on r s \<longleftrightarrow> status r = THREAD_BLOCKED \<and> (\<exists>fs. stack r = Sema_down_loop s # fs)"

definition sleeps :: "thread \<Rightarrow> bool" where
  "sleeps r \<longleftrightarrow> status r = THREAD_BLOCKED \<and> (\<exists>b fs. stack r = Slept b # fs)"

definition block_point :: "frame list \<Rightarrow> bool" where
  "block_point fs \<longleftrightarrow> fs = [] \<or> (\<exists>s gs. fs = Sema_down_loop s # gs) \<or>
     (\<exists>b gs. fs = Slept b # gs) \<or> (\<exists>gs. fs = Sti_hlt # gs)"

definition thread_ok :: "kernel \<Rightarrow> thread_ptr \<Rightarrow> thread \<Rightarrow> bool" where
  "thread_ok st t r \<longleftrightarrow>
     (status r = THREAD_RUNNING \<longrightarrow> t = running st) \<and>
     (t \<in> set (ready_list st) \<longrightarrow> status r = THREAD_READY) \<and>
     (status r = THREAD_READY \<longrightarrow> t \<in> set (ready_list st) \<or> Idle_loop \<in> set (stack r)) \<and>
     (\<forall>s. t \<in> set (waiters (semas st s)) \<longleftrightarrow> waits_on r s) \<and>
     (t \<in> set (waiting_list st) \<longleftrightarrow> sleeps r) \<and>
     (status r = THREAD_BLOCKED \<longrightarrow> block_point (stack r)) \<and>
     (status r = THREAD_DYING \<longrightarrow> stack r = []) \<and>
     idle_stack (stack r) \<and> distinct (creating (stack r))"

definition child_ok :: "kernel \<Rightarrow> thread_ptr \<Rightarrow> thread_ptr \<Rightarrow> bool" where
  "child_ok st t c \<longleftrightarrow> (\<exists>r. threads st c = Some r \<and> status r = THREAD_BLOCKED \<and> stack r = [] \<and>
     tparent r = t)"

definition lists_ok :: "kernel \<Rightarrow> bool" where
  "lists_ok st \<longleftrightarrow> distinct (ready_list st) \<and> set (ready_list st) \<subseteq> dom (threads st) \<and>
     sorted_wrt (\<lambda>x y. prio st x \<ge> prio st y) (ready_list st) \<and>
     (\<forall>s. distinct (waiters (semas st s)) \<and> set (waiters (semas st s)) \<subseteq> dom (threads st)) \<and>
     distinct (waiting_list st) \<and> set (waiting_list st) \<subseteq> dom (threads st)"

definition idle_ok :: "kernel \<Rightarrow> bool" where
  "idle_ok st \<longleftrightarrow> (\<forall>t. idle_thread st = Some t \<longrightarrow> (\<exists>r. threads st t = Some r \<and> Idle_loop \<in> set (stack r)))"

definition core :: "kernel \<Rightarrow> bool" where
  "core st \<longleftrightarrow> lists_ok st \<and> idle_ok st \<and>
     (\<forall>t r. threads st t = Some r \<longrightarrow> thread_ok st t r \<and> list_all (child_ok st t) (creating (stack r)))"

definition run_ok :: "kernel \<Rightarrow> bool" where
  "run_ok st \<longleftrightarrow> (\<exists>r. threads st (running st) = Some r \<and> status r = THREAD_RUNNING)"

definition sched_inv :: "kernel \<Rightarrow> bool" where
  "sched_inv st \<longleftrightarrow> core st \<and> run_ok st"

definition top_prio :: "kernel \<Rightarrow> bool" where
  "top_prio st \<longleftrightarrow> (\<forall>t \<in> set (ready_list st). prio st t \<le> prio st (running st))"

definition moved :: "kernel \<Rightarrow> kernel \<Rightarrow> bool" where
  "moved st st' \<longleftrightarrow> sched_inv st' \<and> (running st' = running st \<or> top_prio st')"

definition cur_stack :: "kernel \<Rightarrow> frame list" where
  "cur_stack st = stack (the (threads st (running st)))"

lemma coreI:
  assumes "lists_ok st" "idle_ok st" "\<And>t r. threads st t = Some r \<Longrightarrow> thread_ok st t r"
    "\<And>t r. threads st t = Some r \<Longrightarrow> list_all (child_ok st t) (creating (stack r))"
  shows "core st"
  using assms by (simp add: core_def)

lemma coreD:
  assumes "core st"
  shows "lists_ok st" "idle_ok st" "threads st t = Some r \<Longrightarrow> thread_ok st t r"
    "threads st t = Some r \<Longrightarrow> list_all (child_ok st t) (creating (stack r))"
  using assms by (simp_all add: core_def)

lemma run_okE:
  assumes "run_ok st"
  obtains r where "threads st (running st) = Some r" "status r = THREAD_RUNNING"
  using assms by (auto simp: run_ok_def)

lemma thread_current_eq [simp]:
  "thread_current st = Some t \<longleftrightarrow> t = running st \<and> run_ok st"
  by (auto simp: thread_current_def get_thread_def run_ok_def panic_simps)

lemma thread_current_run [simp]: "run_ok st \<Longrightarrow> thread_current st = Some (running st)"
  by simp

lemma prio_put [simp]:
  "prio (put_thread t r st) x = (if x = t then priority r else prio st x)"
  by (simp add: prio_def put_thread_def)

lemma put_thread_sel [simp]:
  "threads (put_thread t r st) = (threads st)(t \<mapsto> r)"
  "ready_list (put_thread t r st) = ready_list st"
  "waiting_list (put_thread t r st) = waiting_list st"
  "running (put_thread t r st) = running st"
  "idle_thread (put_thread t r st) = idle_thread st"
  "initial_thread (put_thread t r st) = initial_thread st"
  "semas (put_thread t r st) = semas st"
  "holder (put_thread t r st) = holder st"
  "intr_on (put_thread t r st) = intr_on st"
  "in_external_intr (put_thread t r st) = in_external_intr st"
  by (simp_all add: put_thread_def)

lemma child_ok_put:
  assumes "threads st t = Some r" "tparent r' = tparent r"
    "stack r = [] \<and> status r = THREAD_BLOCKED \<longrightarrow> stack r' = [] \<and> status r' = THREAD_BLOCKED"
    "threads st' = (threads st)(t \<mapsto> r')" "list_all (child_ok st u) cs"
  shows "list_all (child_ok st' u) cs"
  using assms by (auto simp: list_all_iff child_ok_def)

text \<open>Updates of a thread that the invariant does not see.\<close>

lemma core_put:
  assumes "core st" "threads st t = Some r" "status r' = status r" "priority r' = priority r"
    "stack r' = stack r" "tparent r' = tparent r"
  shows "core (put_thread t r' st)"
proof -
  have p: "prio (put_thread t r' st) = prio st" using assms by (auto simp: prio_def put_thread_def)
  have c: "list_all (child_ok (put_thread t r' st) u) cs" if "list_all (child_ok st u) cs" for u cs
    by (rule child_ok_put [OF assms(2)]) (use assms that in auto)
  have ok: "thread_ok (put_thread t r' st) u q = thread_ok st u q" for u q
    by (simp add: thread_ok_def)
  have "thread_ok st t r'" using assms by (auto simp: core_def thread_ok_def waits_on_def sleeps_def)
  then show ?thesis using assms c by (auto simp: core_def lists_ok_def idle_ok_def p ok)
qed

lemma inv_put:
  assumes "sched_inv st" "threads st t = Some r" "status r' = status r" "priority r' = priority r"
    "stack r' = stack r" "tparent r' = tparent r"
  shows "sched_inv (put_thread t r' st)"
  using core_put [of st t r r'] assms by (auto simp: sched_inv_def run_ok_def)

text \<open>Changing the stack of the running thread.\<close>

lemma inv_stack:
  assumes i: "sched_inv st" and r: "threads st (running st) = Some r"
    and q: "idle_stack fs" "distinct (creating fs)" "list_all (child_ok st (running st)) (creating fs)"
    and l: "idle_thread st = Some (running st) \<longrightarrow> Idle_loop \<in> set fs"
  shows "sched_inv (put_thread (running st) (r\<lparr>stack := fs\<rparr>) st)"
proof -
  let ?st = "put_thread (running st) (r\<lparr>stack := fs\<rparr>) st"
  have co: "core st" using i by (simp add: sched_inv_def)
  have s: "status r = THREAD_RUNNING" using i r by (auto simp: sched_inv_def run_ok_def)
  have p: "prio ?st = prio st" using r by (auto simp: prio_def put_thread_def)
  have c: "list_all (child_ok ?st u) cs" if "list_all (child_ok st u) cs" for u cs
    by (rule child_ok_put [OF r]) (use that s in auto)
  have ok: "thread_ok ?st u x = thread_ok st u x" for u x by (simp add: thread_ok_def)
  have t: "thread_ok st (running st) (r\<lparr>stack := fs\<rparr>)"
    using coreD(3) [OF co r] s q by (simp add: thread_ok_def waits_on_def sleeps_def)
  have "core ?st"
  proof (rule coreI)
    show "lists_ok ?st" using coreD(1) [OF co] by (auto simp: lists_ok_def p)
    show "idle_ok ?st" using coreD(2) [OF co] l by (auto simp: idle_ok_def)
    show "thread_ok ?st u x" if "threads ?st u = Some x" for u x
      using that t coreD(3) [OF co] unfolding ok by (auto split: if_splits)
    show "list_all (child_ok ?st u) (creating (stack x))" if "threads ?st u = Some x" for u x
      using that q(3) coreD(4) [OF co] by (intro c) (auto split: if_splits)
  qed
  then show ?thesis using s by (simp add: sched_inv_def run_ok_def)
qed

lemma core_update:
  assumes co: "core st" and r: "threads st t = Some r"
    and th: "threads st' = (threads st)(t \<mapsto> r')"
    and same: "running st' = running st" "idle_thread st' = idle_thread st"
    and l: "lists_ok st'" and t: "thread_ok st' t r'"
    and ready: "\<And>u. u \<noteq> t \<Longrightarrow> u \<in> set (ready_list st') \<longleftrightarrow> u \<in> set (ready_list st)"
    and wait: "\<And>u s. u \<noteq> t \<Longrightarrow> u \<in> set (waiters (semas st' s)) \<longleftrightarrow> u \<in> set (waiters (semas st s))"
    and sleep: "\<And>u. u \<noteq> t \<Longrightarrow> u \<in> set (waiting_list st') \<longleftrightarrow> u \<in> set (waiting_list st)"
    and cr: "creating (stack r') = creating (stack r)" and par: "tparent r' = tparent r"
    and il: "Idle_loop \<in> set (stack r) \<Longrightarrow> Idle_loop \<in> set (stack r')"
    and ch: "status r = THREAD_BLOCKED \<and> stack r = [] \<longrightarrow> status r' = THREAD_BLOCKED \<and> stack r' = [] \<or>
      (\<forall>u x. threads st u = Some x \<longrightarrow> t \<notin> set (creating (stack x)))"
  shows "core st'"
proof (rule coreI)
  show "lists_ok st'" by fact
  show "idle_ok st'" using coreD(2) [OF co] r il by (fastforce simp: idle_ok_def same th)
next
  fix u x assume u: "threads st' u = Some x"
  show "thread_ok st' u x"
  proof (cases "u = t")
    case False
    then have "thread_ok st u x" using u th coreD(3) [OF co] by simp
    then show ?thesis using ready [OF False] wait [OF False] sleep [OF False] by (simp add: thread_ok_def same)
  qed (use u th t in simp)
  have c: "list_all (child_ok st u) (creating (stack x))"
    using u th coreD(4) [OF co, of u] r cr by (auto split: if_splits)
  have "t \<notin> set (creating (stack x))" if "\<forall>u x. threads st u = Some x \<longrightarrow> t \<notin> set (creating (stack x))"
    using that u th r cr by (auto split: if_splits)
  with c ch show "list_all (child_ok st' u) (creating (stack x))"
    using r par by (auto simp: list_all_iff child_ok_def th)
qed

subsection \<open>Fields the invariant does not read\<close>

lemma prio_upd [simp]:
  "prio (st\<lparr>intr_on := b\<rparr>) = prio st" "prio (st\<lparr>in_external_intr := b\<rparr>) = prio st"
  "prio (st\<lparr>yield_on_return := b\<rparr>) = prio st" "prio (st\<lparr>idle_ticks := x\<rparr>) = prio st"
  "prio (st\<lparr>kernel_ticks := x\<rparr>) = prio st" "prio (st\<lparr>user_ticks := x\<rparr>) = prio st"
  "prio (st\<lparr>thread_ticks := y\<rparr>) = prio st" "prio (st\<lparr>timer_count := x\<rparr>) = prio st"
  "prio (st\<lparr>holder := h\<rparr>) = prio st" "prio (st\<lparr>cond_waiters := c\<rparr>) = prio st"
  "prio (st\<lparr>next_tid := y\<rparr>) = prio st" "prio (st\<lparr>semas := z\<rparr>) = prio st"
  "prio (st\<lparr>ready_list := ts\<rparr>) = prio st" "prio (st\<lparr>waiting_list := ts\<rparr>) = prio st"
  "prio (st\<lparr>running := t\<rparr>) = prio st" "prio (st\<lparr>idle_thread := i\<rparr>) = prio st"
  by (simp_all add: prio_def fun_eq_iff)

definition same_view :: "kernel \<Rightarrow> kernel \<Rightarrow> bool" where
  "same_view st st' \<longleftrightarrow> threads st' = threads st \<and> ready_list st' = ready_list st \<and>
     waiting_list st' = waiting_list st \<and> running st' = running st \<and> idle_thread st' = idle_thread st \<and>
     (\<forall>s. waiters (semas st' s) = waiters (semas st s))"

lemma same_view:
  assumes "same_view st st'"
  shows "core st' = core st" "run_ok st' = run_ok st" "sched_inv st' = sched_inv st" "prio st' = prio st"
    "cur_stack st' = cur_stack st" "running st' = running st" "top_prio st' = top_prio st"
proof -
  show p: "prio st' = prio st" using assms by (simp add: same_view_def prio_def fun_eq_iff)
  have "thread_ok st' = thread_ok st" "child_ok st' = child_ok st"
    using assms by (simp_all add: same_view_def thread_ok_def child_ok_def fun_eq_iff)
  then show c: "core st' = core st"
    using assms by (simp add: core_def lists_ok_def idle_ok_def same_view_def p)
  show ro: "run_ok st' = run_ok st" "cur_stack st' = cur_stack st" "running st' = running st"
    using assms by (simp_all add: run_ok_def cur_stack_def same_view_def)
  show "sched_inv st' = sched_inv st" by (simp add: sched_inv_def c ro)
  show "top_prio st' = top_prio st" using assms by (simp add: top_prio_def p same_view_def)
qed

lemma view_upd:
  "same_view st (st\<lparr>intr_on := b\<rparr>)" "same_view st (st\<lparr>in_external_intr := b\<rparr>)"
  "same_view st (st\<lparr>yield_on_return := b\<rparr>)" "same_view st (st\<lparr>idle_ticks := x\<rparr>)"
  "same_view st (st\<lparr>kernel_ticks := x\<rparr>)" "same_view st (st\<lparr>user_ticks := x\<rparr>)"
  "same_view st (st\<lparr>thread_ticks := y\<rparr>)" "same_view st (st\<lparr>timer_count := x\<rparr>)"
  "same_view st (st\<lparr>holder := h\<rparr>)" "same_view st (st\<lparr>cond_waiters := c\<rparr>)"
  "same_view st (st\<lparr>next_tid := y\<rparr>)" "same_view st (intr_disable st)" "same_view st (set_value s v st)"
  by (simp_all add: same_view_def intr_disable_def set_value_def)

lemmas view_simps [simp] = view_upd [THEN same_view(1)] view_upd [THEN same_view(2)]
  view_upd [THEN same_view(3)] view_upd [THEN same_view(5)] view_upd [THEN same_view(7)]

lemma intr_set_level_view: "intr_set_level b st = Some st' \<Longrightarrow> same_view st st'"
  by (auto simp: intr_set_level_def intr_enable_def view_upd split: if_splits)

subsection \<open>Pushing a frame\<close>

definition pushed :: "frame \<Rightarrow> kernel \<Rightarrow> kernel" where
  "pushed f st = put_thread (running st) ((the (threads st (running st)))\<lparr>stack := f # cur_stack st\<rparr>) st"

lemma push_eq [simp]: "run_ok st \<Longrightarrow> push f st = Some (pushed f st)"
  by (auto simp: push_def pushed_def cur_stack_def run_ok_def get_thread_def)

lemma pushed_sel [simp]:
  "ready_list (pushed f st) = ready_list st" "waiting_list (pushed f st) = waiting_list st"
  "running (pushed f st) = running st" "idle_thread (pushed f st) = idle_thread st"
  "semas (pushed f st) = semas st" "holder (pushed f st) = holder st"
  "intr_on (pushed f st) = intr_on st" "in_external_intr (pushed f st) = in_external_intr st"
  "prio (pushed f st) t = prio st t" "cur_stack (pushed f st) = f # cur_stack st"
  by (simp_all add: pushed_def prio_def cur_stack_def)

lemma pushed_run_ok [simp]: "run_ok st \<Longrightarrow> run_ok (pushed f st)"
  by (auto simp: run_ok_def pushed_def)

lemma pushed_inv:
  assumes "sched_inv st" "idle_stack (f # cur_stack st)" "creating [f] = []"
  shows "sched_inv (pushed f st)"
proof -
  obtain r where r: "threads st (running st) = Some r" using assms(1) by (auto simp: sched_inv_def run_ok_def)
  have co: "core st" using assms(1) by (simp add: sched_inv_def)
  have c: "creating (f # fs) = creating fs" for fs using assms(3) by (cases f) auto
  show ?thesis unfolding pushed_def r option.sel
    by (rule inv_stack [OF assms(1) r])
      (use assms r c coreD(3,4) [OF co r] coreD(2) [OF co] in
        \<open>auto simp: cur_stack_def thread_ok_def idle_ok_def\<close>)
qed

lemma pushed_idle_frame [intro]:
  assumes "sched_inv st" "idle_frame f" "\<not> base_frame f"
  shows "sched_inv (pushed f st)"
proof (rule pushed_inv [OF assms(1)])
  obtain r where r: "threads st (running st) = Some r" using assms(1) by (auto simp: sched_inv_def run_ok_def)
  have "thread_ok st (running st) r" using assms(1) r coreD(3) by (auto simp: sched_inv_def)
  then show "idle_stack (f # cur_stack st)" using assms(2,3) r
    by (auto simp: thread_ok_def idle_stack_def cur_stack_def)
  show "creating [f] = []" using assms(2) by (cases f) auto
qed

subsection \<open>Switching threads\<close>

lemma idle_not_waiting:
  assumes "thread_ok st t r" "Idle_loop \<in> set (stack r)"
  shows "\<not> waits_on r s" "\<not> sleeps r"
proof -
  have "idle_stack (stack r)" using assms(1) by (simp add: thread_ok_def)
  moreover have "list_ex base_frame (stack r)"
    using assms(2) by (auto simp: list_ex_iff intro!: bexI [of _ Idle_loop])
  ultimately have "list_all idle_frame (stack r)" by (simp add: idle_stack_def)
  then show "\<not> waits_on r s" "\<not> sleeps r" by (auto simp: waits_on_def sleeps_def)
qed

lemma core_dispatch:
  assumes co: "core st" and none: "\<And>u x. threads st u = Some x \<Longrightarrow> status x \<noteq> THREAD_RUNNING"
    and r: "threads st n = Some r"
    and n: "ready_list st = n # ts \<or> ready_list st = [] \<and> ts = [] \<and> Idle_loop \<in> set (stack r)"
    and st': "st' = put_thread n (r\<lparr>status := THREAD_RUNNING\<rparr>) (st\<lparr>ready_list := ts, running := n\<rparr>)"
  shows "sched_inv st' \<and> top_prio st'"
proof -
  have t: "thread_ok st n r" using coreD(3) [OF co r] .
  have l: "lists_ok st" using coreD(1) [OF co] .
  have rdy: "status r = THREAD_READY" if "ready_list st = n # ts" using t that by (simp add: thread_ok_def)
  have nw: "\<not> waits_on r s" "\<not> sleeps r" for s
    using n rdy idle_not_waiting [OF t] by (auto simp: waits_on_def sleeps_def)
  have p: "prio st' x = prio st x" for x using r by (simp add: st' prio_def)
  have sel: "ready_list st' = ts" "waiting_list st' = waiting_list st" "semas st' = semas st"
      "dom (threads st') = dom (threads st)"
    using r by (auto simp: st')
  have "core st'"
  proof (rule coreI)
    show "lists_ok st'" using l n by (auto simp: lists_ok_def p sel)
    show "idle_ok st'" using coreD(2) [OF co] r by (auto simp: idle_ok_def st')
  next
    fix u x assume u: "threads st' u = Some x"
    show "thread_ok st' u x"
    proof (cases "u = n")
      case True
      with u have x: "x = r\<lparr>status := THREAD_RUNNING\<rparr>" by (simp add: st')
      have "n \<notin> set ts" using l n by (auto simp: lists_ok_def)
      then show ?thesis using t nw True unfolding x
        by (simp add: thread_ok_def st' waits_on_def sleeps_def)
    next
      case False
      with u have ux: "threads st u = Some x" by (simp add: st')
      have "u \<in> set ts \<longleftrightarrow> u \<in> set (ready_list st)" using n False by auto
      then show ?thesis using coreD(3) [OF co ux] none [OF ux] by (simp add: thread_ok_def st')
    qed
    have c: "list_all (child_ok st u) (creating (stack x))"
      using u coreD(4) [OF co, of u] r by (auto simp: st' split: if_splits)
    have "\<not> (status r = THREAD_BLOCKED \<and> stack r = [])" using n rdy by auto
    with c r show "list_all (child_ok st' u) (creating (stack x))"
      by (auto simp: list_all_iff child_ok_def st')
  qed
  moreover have "run_ok st'" by (simp add: run_ok_def st')
  moreover have "top_prio st'" using l n by (auto simp: top_prio_def p lists_ok_def) (auto simp: st')
  ultimately show ?thesis by (simp add: sched_inv_def)
qed

lemma core_free:
  assumes co: "core st" and p: "threads st p = Some r" "status r = THREAD_DYING"
  shows "core (st\<lparr>threads := (threads st)(p := None)\<rparr>)" (is "core ?st")
proof (rule coreI)
  have t: "thread_ok st p r" using coreD(3) [OF co p(1)] .
  have np: "p \<notin> set (ready_list st)" "p \<notin> set (waiting_list st)" "p \<notin> set (waiters (semas st s))" for s
    using t p(2) by (auto simp: thread_ok_def waits_on_def sleeps_def)
  have pr: "prio ?st x = prio st x" if "x \<noteq> p" for x using that by (simp add: prio_def)
  have "sorted_wrt (\<lambda>x y. prio ?st x \<ge> prio ?st y) (ready_list st)"
  proof (rule sorted_wrt_mono_rel)
    show "sorted_wrt (\<lambda>x y. prio st x \<ge> prio st y) (ready_list st)"
      using coreD(1) [OF co] by (simp add: lists_ok_def)
    show "prio ?st x \<ge> prio ?st y"
      if "x \<in> set (ready_list st)" "y \<in> set (ready_list st)" "prio st x \<ge> prio st y" for x y
    proof -
      have "x \<noteq> p" "y \<noteq> p" using that np(1) by auto
      from this [THEN pr] show ?thesis using that(3) by (simp only:)
    qed
  qed
  then show "lists_ok ?st" using coreD(1) [OF co] np by (auto simp: lists_ok_def)
  show "idle_ok ?st" using coreD(2) [OF co] t p by (auto simp: idle_ok_def thread_ok_def)
next
  fix u x assume "threads ?st u = Some x"
  then have u: "threads st u = Some x" "u \<noteq> p" by (auto split: if_splits)
  show "thread_ok ?st u x" using coreD(3) [OF co u(1)] by (simp add: thread_ok_def)
  show "list_all (child_ok ?st u) (creating (stack x))"
    using coreD(4) [OF co u(1)] p by (auto simp: list_all_iff child_ok_def)
qed

lemma schedule_tail_cases:
  assumes "schedule_tail prev st = Some st'"
  obtains r st2 where "threads st (running st) = Some r"
    "st2 = (put_thread (running st) (r\<lparr>status := THREAD_RUNNING\<rparr>) st)\<lparr>thread_ticks := 0\<rparr>"
    "st' = st2 \<or> (\<exists>p x. prev = Some p \<and> threads st2 p = Some x \<and> status x = THREAD_DYING \<and>
      p \<noteq> running st2 \<and> st' = st2\<lparr>threads := (threads st2)(p := None)\<rparr>)"
proof -
  from assms obtain r where r: "threads st (running st) = Some r"
    by (auto simp: schedule_tail_def get_thread_def panic_simps split: if_splits)
  show ?thesis
  proof (rule that [OF r refl])
  qed (use assms r in \<open>auto simp: schedule_tail_def get_thread_def panic_simps Let_def
      split: if_splits option.splits\<close>)
qed

lemma schedule_cases:
  assumes s: "schedule st = Some st'"
  obtains n r rc st2 where "fst (next_thread_to_run st) = Some n" "threads st n = Some r"
    "threads st (running st) = Some rc" "status rc \<noteq> THREAD_RUNNING"
    "st2 = (put_thread n (r\<lparr>status := THREAD_RUNNING\<rparr>)
      (st\<lparr>ready_list := tl (ready_list st), running := n\<rparr>))\<lparr>thread_ticks := 0\<rparr>"
    "st' = st2 \<or> (\<exists>p x. threads st2 p = Some x \<and> status x = THREAD_DYING \<and> p \<noteq> running st2 \<and>
      st' = st2\<lparr>threads := (threads st2)(p := None)\<rparr>)"
proof -
  obtain nxt st1 where n1: "next_thread_to_run st = (nxt, st1)" by fastforce
  from s n1 obtain rc n where a: "nxt = Some n" "threads st1 (running st) = Some rc" "is_thread n st1"
      "status rc \<noteq> THREAD_RUNNING"
      "(if running st \<noteq> n then schedule_tail (Some (running st)) (st1\<lparr>running := n\<rparr>)
        else schedule_tail None st1) = Some st'"
    by (auto simp: schedule_def get_thread_def panic_simps Let_def split: if_splits)
  have st1: "st1 = st\<lparr>ready_list := tl (ready_list st)\<rparr>" using n1
    by (auto simp: next_thread_to_run_def split: list.splits)
  have "\<exists>prev. schedule_tail prev (st1\<lparr>running := n\<rparr>) = Some st'" using a(5)
    by (cases "running st = n") (auto simp: st1)
  then obtain prev where "schedule_tail prev (st1\<lparr>running := n\<rparr>) = Some st'" ..
  from schedule_tail_cases [OF this] obtain r st2 where x: "threads st n = Some r"
      "st2 = (put_thread n (r\<lparr>status := THREAD_RUNNING\<rparr>)
        (st\<lparr>ready_list := tl (ready_list st), running := n\<rparr>))\<lparr>thread_ticks := 0\<rparr>"
      "st' = st2 \<or> (\<exists>p x. threads st2 p = Some x \<and> status x = THREAD_DYING \<and> p \<noteq> running st2 \<and>
         st' = st2\<lparr>threads := (threads st2)(p := None)\<rparr>)"
    unfolding st1 by simp metis
  from n1 a(1,2,4) st1 have "fst (next_thread_to_run st) = Some n" "threads st (running st) = Some rc"
      "status rc \<noteq> THREAD_RUNNING" by simp_all
  from that [OF this(1) x(1) this(2,3) x(2,3)] show ?thesis .
qed

lemma schedule_inv:
  assumes co: "core st" and s: "schedule st = Some st'"
  shows "sched_inv st' \<and> top_prio st'"
proof -
  obtain n r rc st3 where n1: "fst (next_thread_to_run st) = Some n" and r: "threads st n = Some r"
      and rc: "threads st (running st) = Some rc" "status rc \<noteq> THREAD_RUNNING"
      and st3: "st3 = (put_thread n (r\<lparr>status := THREAD_RUNNING\<rparr>)
        (st\<lparr>ready_list := tl (ready_list st), running := n\<rparr>))\<lparr>thread_ticks := 0\<rparr>"
      and x: "st' = st3 \<or> (\<exists>p x. threads st3 p = Some x \<and> status x = THREAD_DYING \<and> p \<noteq> running st3 \<and>
        st' = st3\<lparr>threads := (threads st3)(p := None)\<rparr>)"
    using schedule_cases [OF s] .
  have none: "status x \<noteq> THREAD_RUNNING" if "threads st u = Some x" for u x
    using coreD(3) [OF co that] rc that by (auto simp: thread_ok_def)
  have "ready_list st = n # tl (ready_list st) \<or>
      ready_list st = [] \<and> tl (ready_list st) = [] \<and> Idle_loop \<in> set (stack r)"
    using n1 r coreD(2) [OF co] by (auto simp: next_thread_to_run_def idle_ok_def split: list.splits)
  from core_dispatch [OF co none r this refl] have i3: "sched_inv st3" "top_prio st3" unfolding st3 by auto
  show ?thesis using x
  proof (elim disjE exE conjE)
    assume "st' = st3"
    then show ?thesis using i3 by simp
  next
    fix p x assume p: "threads st3 p = Some x" "status x = THREAD_DYING" "p \<noteq> running st3"
      "st' = st3\<lparr>threads := (threads st3)(p := None)\<rparr>"
    have c: "core st3" using i3 by (simp add: sched_inv_def)
    have np: "p \<notin> set (ready_list st3)" using coreD(3) [OF c p(1)] p(2) by (auto simp: thread_ok_def)
    have "core st'" using core_free [OF c p(1,2)] p(4) by simp
    moreover have "run_ok st'" using i3 p(3) unfolding p(4) by (auto simp: sched_inv_def run_ok_def)
    moreover have "top_prio st'" using i3(2) p(3) np unfolding p(4) by (auto simp: top_prio_def prio_def)
    ultimately show ?thesis by (simp add: sched_inv_def)
  qed
qed

subsection \<open>The ready list\<close>

lemma sorted_ready_insert:
  assumes "sorted_wrt (\<lambda>x y. prio st x \<ge> prio st y) xs"
  shows "sorted_wrt (\<lambda>x y. prio st x \<ge> prio st y) (ordered_insert (higher_priority st) t xs)"
  using sorted_ordered_insert [OF hp.strict_weak_order_axioms, of st xs t] assms
  by (simp add: higher_priority_def not_less)

lemma distinct_ordered_insert [simp]:
  "distinct (ordered_insert lt e xs) \<longleftrightarrow> e \<notin> set xs \<and> distinct xs"
  by (induction xs) auto

lemma sort_threads_sorted:
  "sorted_wrt (\<lambda>x y. prio st x \<ge> prio st y) (sort_threads st xs)"
  using sorted_stable_sort [OF hp.strict_weak_order_axioms, of st xs]
  by (simp add: sort_threads_def higher_priority_def not_less)

lemma sort_threads_simps [simp]:
  "set (sort_threads st xs) = set xs" "distinct (sort_threads st xs) = distinct xs"
  "length (sort_threads st xs) = length xs" "sort_threads st xs = [] \<longleftrightarrow> xs = []"
  by (simp_all add: sort_threads_def)

lemma make_ready:
  assumes co: "core st" and r: "threads st t = Some r" and b: "status r = THREAD_BLOCKED"
    and th: "threads st' = (threads st)(t \<mapsto> r')" and r': "status r' = THREAD_READY" "priority r' = priority r"
    and same: "running st' = running st" "idle_thread st' = idle_thread st"
    and rl: "ready_list st' = ordered_insert (higher_priority st) t (ready_list st)"
    and w: "\<And>s. distinct (waiters (semas st' s))"
      "\<And>s. set (waiters (semas st' s)) = set (waiters (semas st s)) - {t}"
    and wl: "distinct (waiting_list st')" "set (waiting_list st') = set (waiting_list st) - {t}"
    and st: "idle_stack (stack r')" "creating (stack r') = creating (stack r)" "tparent r' = tparent r"
      "Idle_loop \<in> set (stack r) \<Longrightarrow> Idle_loop \<in> set (stack r')"
    and ch: "stack r = [] \<Longrightarrow> \<forall>u x. threads st u = Some x \<longrightarrow> t \<notin> set (creating (stack x))"
  shows "core st'"
proof (rule core_update [OF co r th same])
  have t: "thread_ok st t r" using coreD(3) [OF co r] .
  have l: "lists_ok st" using coreD(1) [OF co] .
  have nr: "t \<notin> set (ready_list st)" using t b by (auto simp: thread_ok_def)
  have p: "prio st' = prio st" using r r' by (auto simp: prio_def th)
  have d: "dom (threads st') = dom (threads st)" using r by (auto simp: th)
  show "lists_ok st'" using l nr w wl r sorted_ready_insert [of st "ready_list st" t]
    by (auto simp: lists_ok_def p d rl)
  show "thread_ok st' t r'" using t r' st w wl
    by (auto simp: thread_ok_def rl waits_on_def sleeps_def same)
qed (use rl w wl st ch in auto)

lemma yield_core:
  assumes i: "sched_inv st" and r: "threads st (running st) = Some r"
    and th: "threads st' = (threads st)(running st \<mapsto> r')"
    and r': "status r' = THREAD_READY" "priority r' = priority r" "stack r' = stack r" "tparent r' = tparent r"
    and same: "running st' = running st" "idle_thread st' = idle_thread st" "semas st' = semas st"
      "waiting_list st' = waiting_list st"
    and rl: "ready_list st' = (if Some (running st) \<noteq> idle_thread st
      then ordered_insert (higher_priority st) (running st) (ready_list st) else ready_list st)"
  shows "core st'"
proof -
  have co: "core st" and s: "status r = THREAD_RUNNING" using i r by (auto simp: sched_inv_def run_ok_def)
  have t: "thread_ok st (running st) r" using coreD(3) [OF co r] .
  have l: "lists_ok st" using coreD(1) [OF co] .
  have nr: "running st \<notin> set (ready_list st)" using t s by (auto simp: thread_ok_def)
  have p: "prio st' = prio st" using r r' by (auto simp: prio_def th)
  have d: "dom (threads st') = dom (threads st)" using r by (auto simp: th)
  have il: "Idle_loop \<in> set (stack r)" if "Some (running st) = idle_thread st"
    using coreD(2) [OF co] r that [symmetric] by (auto simp: idle_ok_def)
  show ?thesis
  proof (rule core_update [OF co r th same(1,2)])
    show "lists_ok st'" using l nr r sorted_ready_insert [of st "ready_list st" "running st"]
      by (auto simp: lists_ok_def p d rl same)
    show "thread_ok st' (running st) r'" using t s r' il
      by (auto simp: thread_ok_def rl waits_on_def sleeps_def same)
  qed (use rl r' s same in auto)
qed

lemma block_core:
  assumes i: "sched_inv st" and r: "threads st (running st) = Some r"
    and th: "threads st' = (threads st)(running st \<mapsto> r')"
    and r': "status r' = THREAD_BLOCKED" "priority r' = priority r" "stack r' = f # stack r" "tparent r' = tparent r"
    and f: "block_point [f]" "idle_stack (f # stack r)"
    and same: "running st' = running st" "idle_thread st' = idle_thread st" "ready_list st' = ready_list st"
    and w: "\<And>s. distinct (waiters (semas st' s))"
      "\<And>s. set (waiters (semas st' s)) = set (waiters (semas st s)) \<union> (if f = Sema_down_loop s then {running st} else {})"
    and wl: "distinct (waiting_list st')"
      "set (waiting_list st') = set (waiting_list st) \<union> (if \<exists>b. f = Slept b then {running st} else {})"
  shows "core st'"
proof -
  have co: "core st" and s: "status r = THREAD_RUNNING" using i r by (auto simp: sched_inv_def run_ok_def)
  have t: "thread_ok st (running st) r" using coreD(3) [OF co r] .
  have l: "lists_ok st" using coreD(1) [OF co] .
  have p: "prio st' = prio st" using r r' by (auto simp: prio_def th)
  have d: "dom (threads st') = dom (threads st)" using r by (auto simp: th)
  have cr: "creating (f # gs) = creating gs" for gs using f by (auto simp: block_point_def)
  have bp: "block_point (f # gs)" for gs using f by (auto simp: block_point_def)
  show ?thesis
  proof (rule core_update [OF co r th same(1,2)])
    show "lists_ok st'" using l r w wl by (auto simp: lists_ok_def p d same)
    have nw: "running st \<notin> set (waiters (semas st s))" "running st \<notin> set (waiting_list st)"
        "running st \<notin> set (ready_list st)" for s
      using t s by (auto simp: thread_ok_def waits_on_def sleeps_def)
    have "running st \<in> set (waiters (semas st' s)) \<longleftrightarrow> waits_on r' s" for s
      using nw(1) r' by (auto simp: w(2) waits_on_def)
    moreover have "running st \<in> set (waiting_list st') \<longleftrightarrow> sleeps r'"
      using nw(2) r' by (auto simp: wl(2) sleeps_def)
    ultimately show "thread_ok st' (running st) r'" using t r' f nw(3) cr bp
      by (simp add: thread_ok_def same)
  qed (use r' s same w wl cr in auto)
qed

lemma exit_core:
  assumes i: "sched_inv st" and r: "threads st (running st) = Some r" and e: "stack r = []"
  shows "core (put_thread (running st) (r\<lparr>status := THREAD_DYING\<rparr>) st)"
proof -
  have co: "core st" and s: "status r = THREAD_RUNNING" using i r by (auto simp: sched_inv_def run_ok_def)
  have t: "thread_ok st (running st) r" using coreD(3) [OF co r] .
  let ?st = "put_thread (running st) (r\<lparr>status := THREAD_DYING\<rparr>) st"
  have p: "prio ?st = prio st" using r by (auto simp: prio_def put_thread_def)
  show ?thesis
  proof (rule core_update [OF co r, where r' = "r\<lparr>status := THREAD_DYING\<rparr>"])
    show "lists_ok ?st" using coreD(1) [OF co] by (auto simp: lists_ok_def p)
    show "thread_ok ?st (running st) (r\<lparr>status := THREAD_DYING\<rparr>)"
      using t s e by (auto simp: thread_ok_def waits_on_def sleeps_def)
  qed (use s in auto)
qed

subsection \<open>The operations of thread.c\<close>

lemma running_thread:
  assumes "sched_inv st"
  obtains r where "threads st (running st) = Some r" "status r = THREAD_RUNNING" "stack r = cur_stack st"
  using assms by (auto simp: sched_inv_def run_ok_def cur_stack_def)

lemma intr_disable_sel [simp]:
  "threads (intr_disable st) = threads st" "ready_list (intr_disable st) = ready_list st"
  "waiting_list (intr_disable st) = waiting_list st" "running (intr_disable st) = running st"
  "idle_thread (intr_disable st) = idle_thread st" "semas (intr_disable st) = semas st"
  "holder (intr_disable st) = holder st" "in_external_intr (intr_disable st) = in_external_intr st"
  "intr_on (intr_disable st) = False" "prio (intr_disable st) = prio st"
  by (simp_all add: intr_disable_def)

lemma thread_yield_cases:
  assumes i: "sched_inv st" and y: "thread_yield st = Some st'"
  obtains r st2 rl where "threads (pushed (Set_level (intr_on st)) st) (running st) = Some r"
    "st2 = put_thread (running st) (r\<lparr>status := THREAD_READY\<rparr>)
      (intr_disable (pushed (Set_level (intr_on st)) st)\<lparr>ready_list := rl\<rparr>)"
    "core st2" "schedule st2 = Some st'"
proof -
  let ?st = "intr_disable (pushed (Set_level (intr_on st)) st)"
  have i1: "sched_inv ?st" using i by (simp add: pushed_idle_frame)
  from running_thread [OF i1] obtain r where r: "threads ?st (running ?st) = Some r" by blast
  have ro: "run_ok st" using i by (simp add: sched_inv_def)
  define rl where "rl = (if Some (running ?st) \<noteq> idle_thread ?st
     then ordered_insert (higher_priority ?st) (running ?st) (ready_list ?st) else ready_list ?st)"
  define st2 where "st2 = put_thread (running ?st) (r\<lparr>status := THREAD_READY\<rparr>) (?st\<lparr>ready_list := rl\<rparr>)"
  have id: "?st\<lparr>ready_list := ready_list ?st\<rparr> = ?st" by (simp del: intr_disable_sel pushed_sel)
  have "st2 = put_thread (running ?st) (r\<lparr>status := THREAD_READY\<rparr>) (if Some (running ?st) \<noteq> idle_thread ?st
     then ?st\<lparr>ready_list := ordered_insert (higher_priority ?st) (running ?st) (ready_list ?st)\<rparr> else ?st)"
    unfolding st2_def rl_def by (simp only: id split: if_split) simp
  then have "schedule st2 = Some st'" using y ro r
    by (simp add: thread_yield_def get_thread_def panic_simps intr_disable_def Let_def split: if_splits)
  moreover have "core st2"
    by (rule yield_core [OF i1 r, where r' = "r\<lparr>status := THREAD_READY\<rparr>"]) (simp_all add: st2_def rl_def)
  ultimately show ?thesis using that [of r st2 rl] r by (simp add: st2_def)
qed

lemma thread_yield_inv:
  assumes "sched_inv st" "thread_yield st = Some st'"
  shows "sched_inv st' \<and> top_prio st'"
  using thread_yield_cases [OF assms] schedule_inv by metis

lemma priority_core:
  assumes i: "sched_inv st" and r: "threads st t = Some r"
  shows "sched_inv (put_thread t (r\<lparr>priority := p\<rparr>) st
    \<lparr>ready_list := sort_threads (put_thread t (r\<lparr>priority := p\<rparr>) st) (ready_list st)\<rparr>)" (is "sched_inv ?st")
proof -
  let ?p = "put_thread t (r\<lparr>priority := p\<rparr>) st"
  have co: "core st" using i by (simp add: sched_inv_def)
  have pr: "prio ?st = prio ?p" by simp
  have "core ?st"
  proof (rule core_update [OF co r, where r' = "r\<lparr>priority := p\<rparr>"])
    show "lists_ok ?st" using coreD(1) [OF co] sort_threads_sorted [of ?p "ready_list st"]
      unfolding lists_ok_def pr by auto
    show "thread_ok ?st t (r\<lparr>priority := p\<rparr>)" using coreD(3) [OF co r]
      by (simp add: thread_ok_def waits_on_def sleeps_def)
  qed auto
  then show ?thesis using i r by (auto simp: sched_inv_def run_ok_def)
qed

lemma specific_set_priority_cases:
  assumes i: "sched_inv st" and s: "specific_thread_set_priority p t st = Some st'"
  obtains r st1 rl where "threads st t = Some r"
    "st1 = put_thread t (r\<lparr>priority := p\<rparr>) (intr_disable st)\<lparr>ready_list := rl\<rparr>" "sched_inv st1"
    "st' = st1 \<or> st' = pushed (Set_level (intr_on st)) st1 \<or>
      thread_yield (pushed (Set_level (intr_on st)) st1) = Some st'"
proof -
  let ?d = "intr_disable st"
  from s obtain r where r: "threads st t = Some r"
    by (auto simp: specific_thread_set_priority_def get_thread_def panic_simps Let_def)
  let ?p = "put_thread t (r\<lparr>priority := p\<rparr>) ?d"
  let ?s = "?p\<lparr>ready_list := sort_threads ?p (ready_list ?d)\<rparr>"
  have si: "sched_inv ?s" using i r by (intro priority_core) auto
  then have ro: "run_ok ?s" by (simp add: sched_inv_def)
  have "st' = ?s \<or> st' = pushed (Set_level (intr_on st)) ?s \<or>
      thread_yield (pushed (Set_level (intr_on st)) ?s) = Some st'"
  proof (cases "ready_list st = []")
    case True
    then have e: "?s = ?p" by (simp add: sort_threads_def)
    have "st' = ?p" using s r True by (simp add: specific_thread_set_priority_def get_thread_def Let_def)
    then show ?thesis by (simp only: e) simp
  next
    case False
    then show ?thesis using s r ro
      by (auto simp: specific_thread_set_priority_def get_thread_def Let_def simp del: prio_put
          split: if_splits)
  qed
  then show ?thesis using that [OF r refl si] by blast
qed

lemma specific_set_priority_moved:
  assumes i: "sched_inv st" and s: "specific_thread_set_priority p t st = Some st'"
  shows "moved st st'"
proof -
  obtain r st1 rl where st1: "st1 = put_thread t (r\<lparr>priority := p\<rparr>) (intr_disable st)\<lparr>ready_list := rl\<rparr>"
      and si: "sched_inv st1"
      and c: "st' = st1 \<or> st' = pushed (Set_level (intr_on st)) st1 \<or>
        thread_yield (pushed (Set_level (intr_on st)) st1) = Some st'"
    using specific_set_priority_cases [OF i s] .
  have "sched_inv (pushed (Set_level (intr_on st)) st1)" using si by (simp add: pushed_idle_frame)
  moreover have "running st1 = running st" by (simp add: st1)
  ultimately show ?thesis using c si thread_yield_inv unfolding moved_def by (metis pushed_sel(3))
qed

lemma recalculate_cases:
  assumes i: "sched_inv st" and s: "recalculate_priority st = Some st'"
  obtains p t b where "specific_thread_set_priority p t (st\<lparr>intr_on := b\<rparr>) = Some st'"
proof -
  have ro: "run_ok st" using i by (simp add: sched_inv_def)
  from s ro obtain p t st1 where l: "intr_set_level (intr_on st) (intr_disable st) = Some st1"
      and sp: "specific_thread_set_priority p t st1 = Some st'"
    by (auto simp: recalculate_priority_def get_thread_def panic_simps Let_def split: if_splits)
  from l have "\<exists>b. st1 = st\<lparr>intr_on := b\<rparr>"
    by (auto simp: intr_set_level_def intr_enable_def intr_disable_def split: if_splits)
  with sp that show ?thesis by blast
qed

lemma recalculate_moved:
  assumes i: "sched_inv st" and s: "recalculate_priority st = Some st'"
  shows "moved st st'"
proof -
  obtain p t b where sp: "specific_thread_set_priority p t (st\<lparr>intr_on := b\<rparr>) = Some st'"
    using recalculate_cases [OF i s] .
  have "sched_inv (st\<lparr>intr_on := b\<rparr>)" using i by simp
  from specific_set_priority_moved [OF this sp] show ?thesis by (simp add: moved_def)
qed

lemma set_priority_cases:
  assumes i: "sched_inv st" and s: "thread_set_priority p st = Some st'" and e: "cur_stack st = []"
  obtains r st1 where "threads st (running st) = Some r"
    "intr_set_level (intr_on st) (put_thread (running st) (r\<lparr>origin_priority := p\<rparr>) (intr_disable st)) = Some st1"
    "sched_inv st1" "run_ok st1" "sched_inv (pushed Recalculate st1)" "running st1 = running st"
    "specific_thread_set_priority p (running st) (pushed Recalculate st1) = Some st'"
proof -
  let ?d = "intr_disable st"
  have ro: "run_ok st" using i by (simp add: sched_inv_def)
  from running_thread [OF i] obtain r where r: "threads st (running st) = Some r" "stack r = []"
    unfolding e by blast
  let ?p = "put_thread (running st) (r\<lparr>origin_priority := p\<rparr>) ?d"
  have ip: "sched_inv ?p" by (rule inv_put [of _ _ r]) (use i r in auto)
  from s ro r obtain st1 st2 where l: "intr_set_level (intr_on st) ?p = Some st1"
      and 2: "push Recalculate st1 = Some st2"
      and sp: "specific_thread_set_priority p (running st) st2 = Some st'"
    by (auto simp: thread_set_priority_def get_thread_def panic_simps Let_def)
  from intr_set_level_view [OF l] have v: "same_view ?p st1" .
  then have i1: "sched_inv st1" "cur_stack st1 = []" "running st1 = running st"
    using ip r(2) by (simp_all add: same_view [OF v]) (simp add: cur_stack_def)
  then have ro1: "run_ok st1" by (simp add: sched_inv_def)
  with 2 have st2: "st2 = pushed Recalculate st1" by simp
  have "sched_inv (pushed Recalculate st1)" using i1 by (intro pushed_inv) (auto simp: idle_stack_def)
  from that [OF r(1) l i1(1) ro1 this i1(3)] sp show ?thesis by (simp add: st2)
qed

lemma set_priority_moved:
  assumes "sched_inv st" "thread_set_priority p st = Some st'" "cur_stack st = []"
  shows "moved st st'"
proof -
  obtain st1 where "sched_inv (pushed Recalculate st1)" "running st1 = running st"
      "specific_thread_set_priority p (running st) (pushed Recalculate st1) = Some st'"
    using set_priority_cases [OF assms] .
  then show ?thesis using specific_set_priority_moved [of "pushed Recalculate st1"] by (simp add: moved_def)
qed

subsection \<open>Waking threads\<close>

lemma thread_unblock_cases:
  assumes "thread_unblock t st = Some st'"
  obtains r b where "threads st t = Some r" "status r = THREAD_BLOCKED"
    "st' = put_thread t (r\<lparr>status := THREAD_READY\<rparr>)
      (st\<lparr>ready_list := ordered_insert (higher_priority st) t (ready_list st)\<rparr>)\<lparr>intr_on := b\<rparr>"
proof -
  have "higher_priority (st\<lparr>intr_on := b\<rparr>) = higher_priority st" for b
    by (simp add: higher_priority_def fun_eq_iff)
  with assms show ?thesis
    by (auto intro!: that simp: thread_unblock_def get_thread_def panic_simps Let_def intr_set_level_def
        intr_enable_def intr_disable_def put_thread_def split: if_splits)
qed

lemma run_ok_ready:
  assumes "run_ok st" "threads st' = (threads st)(t \<mapsto> r')" "threads st t = Some r" "status r = THREAD_BLOCKED"
    "running st' = running st"
  shows "run_ok st'"
  using assms by (auto simp: run_ok_def)

lemma set_waiters_sel [simp]:
  "threads (set_waiters s ws st) = threads st" "ready_list (set_waiters s ws st) = ready_list st"
  "waiting_list (set_waiters s ws st) = waiting_list st" "running (set_waiters s ws st) = running st"
  "idle_thread (set_waiters s ws st) = idle_thread st" "holder (set_waiters s ws st) = holder st"
  "intr_on (set_waiters s ws st) = intr_on st" "in_external_intr (set_waiters s ws st) = in_external_intr st"
  "waiters (semas (set_waiters s ws st) s') = (if s' = s then ws else waiters (semas st s'))"
  "semaval (semas (set_waiters s ws st) s') = semaval (semas st s')"
  "prio (set_waiters s ws st) = prio st"
  by (simp_all add: set_waiters_def)

lemma sema_wake_inv:
  assumes i: "sched_inv st" and s: "sema_wake s st = Some st'"
  shows "sched_inv st' \<and> running st' = running st"
proof (cases "waiters (semas st s) = []")
  case True
  with s i show ?thesis by (simp add: sema_wake_def)
next
  case False
  have co: "core st" using i by (simp add: sched_inv_def)
  define ws where "ws = (if length (waiters (semas st s)) > 1 then sort_threads st (waiters (semas st s))
    else waiters (semas st s))"
  have ws: "set ws = set (waiters (semas st s))" "distinct ws" "ws \<noteq> []"
    using False coreD(1) [OF co] by (auto simp: ws_def lists_ok_def)
  let ?t = "hd ws"
  let ?p = "set_waiters s (tl ws) st"
  have eq: "set_waiters s (tl ws) (set_waiters s ws st) = ?p" by (simp add: set_waiters_def)
  have "thread_unblock ?t ?p = Some st'" using s False eq
    by (auto simp: sema_wake_def ws_def Let_def)
  then obtain r b where r: "threads st ?t = Some r" "status r = THREAD_BLOCKED"
    and st': "st' = put_thread ?t (r\<lparr>status := THREAD_READY\<rparr>)
      (?p\<lparr>ready_list := ordered_insert (higher_priority st) ?t (ready_list st)\<rparr>)\<lparr>intr_on := b\<rparr>"
    by (elim thread_unblock_cases) (simp add: higher_priority_def [abs_def])
  have t: "thread_ok st ?t r" using coreD(3) [OF co r(1)] .
  have inw: "?t \<in> set (waiters (semas st s))" using ws by (metis list.set_sel(1))
  with t obtain fs where fs: "stack r = Sema_down_loop s # fs" by (auto simp: thread_ok_def waits_on_def)
  have notin: "?t \<notin> set (waiters (semas st s'))" if "s' \<noteq> s" for s'
    using t fs that by (auto simp: thread_ok_def waits_on_def)
  have notw: "?t \<notin> set (waiting_list st)" using t fs by (auto simp: thread_ok_def sleeps_def)
  have tl: "set (tl ws) = set (waiters (semas st s)) - {?t}" "distinct (tl ws)"
    using ws by (cases ws; auto)+
  have "core st'"
    by (rule make_ready [OF co r, where r' = "r\<lparr>status := THREAD_READY\<rparr>"])
      (use t fs tl notin notw coreD(1) [OF co] in \<open>auto simp: st' lists_ok_def thread_ok_def\<close>)
  moreover have "run_ok st'"
    by (rule run_ok_ready [OF _ _ r]) (use i in \<open>auto simp: st' sched_inv_def\<close>)
  ultimately show ?thesis by (simp add: sched_inv_def st')
qed

lemma wake_loop_inv:
  "sched_inv st \<Longrightarrow> waiting_list st = ts \<Longrightarrow> wake_loop ts st = Some st' \<Longrightarrow>
    sched_inv st' \<and> running st' = running st"
proof (induction ts arbitrary: st)
  case (Cons t ts)
  show ?case
  proof (cases "wakeup_due st t")
    case True
    let ?p = "st\<lparr>waiting_list := ts\<rparr>"
    from Cons.prems(3) True obtain st1 where u: "thread_unblock t ?p = Some st1" and w: "wake_loop ts st1 = Some st'"
      by (auto simp: panic_simps)
    from u obtain r b where r: "threads st t = Some r" "status r = THREAD_BLOCKED"
      and st1: "st1 = put_thread t (r\<lparr>status := THREAD_READY\<rparr>)
        (?p\<lparr>ready_list := ordered_insert (higher_priority st) t (ready_list st)\<rparr>)\<lparr>intr_on := b\<rparr>"
      by (elim thread_unblock_cases) (simp add: higher_priority_def [abs_def])
    have co: "core st" using Cons.prems(1) by (simp add: sched_inv_def)
    have tk: "thread_ok st t r" using coreD(3) [OF co r(1)] .
    then obtain c fs where fs: "stack r = Slept c # fs" using Cons.prems(2)
      by (auto simp: thread_ok_def sleeps_def)
    have notin: "t \<notin> set (waiters (semas st s))" for s using tk fs by (auto simp: thread_ok_def waits_on_def)
    have d: "distinct (t # ts)" using coreD(1) [OF co] Cons.prems(2) by (simp add: lists_ok_def)
    have "core st1"
      by (rule make_ready [OF co r, where r' = "r\<lparr>status := THREAD_READY\<rparr>"])
        (use tk fs notin d Cons.prems(2) coreD(1) [OF co] in \<open>auto simp: st1 lists_ok_def thread_ok_def\<close>)
    moreover have "run_ok st1"
      by (rule run_ok_ready [OF _ _ r]) (use Cons.prems(1) in \<open>auto simp: st1 sched_inv_def\<close>)
    ultimately have "sched_inv st1" "waiting_list st1 = ts" "running st1 = running st"
      by (simp_all add: sched_inv_def st1)
    with Cons.IH [OF this(1,2) w] show ?thesis by simp
  qed (use Cons.prems in simp)
qed simp

end
