(* ===== verification/Sched_Steps.thy ===== *)
theory Sched_Steps
  imports Sched_Inv
begin

text \<open>
  Every operation on semaphores, locks, condition variables, threads and the timer preserves the
  invariant of \<open>Sched_Inv\<close>, and leaves a running thread of maximal priority when it switches
  threads (\<open>moved\<close>).  The last lemmas lift this to the steps and to all reachable states.
\<close>

subsection \<open>Semaphores\<close>

lemma sema_up_moved:
  assumes i: "sched_inv st" and s: "sema_up s st = Some st'"
  shows "moved st st'"
proof -
  let ?p = "intr_disable (pushed (Set_level (intr_on st)) st)"
  have "run_ok st" using i by (simp add: sched_inv_def)
  with s obtain st1 where w: "sema_wake s ?p = Some st1"
      and rc: "recalculate_priority (set_value s (semaval (semas st1 s) + 1) st1) = Some st'"
    by (auto simp: sema_up_def panic_simps Let_def)
  have "sched_inv ?p" using i by (simp add: pushed_idle_frame)
  from sema_wake_inv [OF this w] have i1: "sched_inv st1" "running st1 = running st" by auto
  let ?v = "set_value s (semaval (semas st1 s) + 1) st1"
  have "sched_inv ?v" using i1 by simp
  from recalculate_moved [OF this rc] show ?thesis using i1 by (simp add: moved_def set_value_def)
qed

definition plain_cur :: "kernel \<Rightarrow> bool" where
  "plain_cur st \<longleftrightarrow> \<not> list_ex base_frame (cur_stack st)"

lemma pushed_plain:
  assumes "sched_inv st" "plain_cur st" "\<not> base_frame f" "creating [f] = []"
  shows "sched_inv (pushed f st)" "plain_cur (pushed f st)"
  using assms by (auto intro!: pushed_inv simp: plain_cur_def idle_stack_def)

text \<open>
  \<open>blocks_at f st st1\<close>: the running thread of \<open>st\<close> is about to block at frame \<open>f\<close>, and \<open>st1\<close> is
  \<open>st\<close> with the thread put on the list it waits on.
\<close>

definition blocks_at :: "frame \<Rightarrow> kernel \<Rightarrow> kernel \<Rightarrow> bool" where
  "blocks_at f st st1 \<longleftrightarrow> block_point [f] \<and> idle_stack (f # cur_stack st) \<and>
     threads st1 = threads st \<and> running st1 = running st \<and> idle_thread st1 = idle_thread st \<and>
     ready_list st1 = ready_list st \<and> distinct (waiting_list st1) \<and>
     (\<forall>s. distinct (waiters (semas st1 s)) \<and> set (waiters (semas st1 s)) =
        set (waiters (semas st s)) \<union> (if f = Sema_down_loop s then {running st} else {})) \<and>
     set (waiting_list st1) = set (waiting_list st) \<union> (if \<exists>b. f = Slept b then {running st} else {})"

lemma push_block_cases:
  assumes i: "sched_inv st" and b: "thread_block (pushed f st1) = Some st'" and a: "blocks_at f st st1"
  obtains r st2 where "threads st (running st) = Some r" "core st2" "schedule st2 = Some st'"
    "st2 = put_thread (running st) (r\<lparr>stack := f # stack r, status := THREAD_BLOCKED\<rparr>) (pushed f st1)"
proof -
  obtain r where r: "threads st (running st) = Some r" "stack r = cur_stack st"
    using running_thread [OF i] .
  let ?r = "r\<lparr>stack := f # stack r\<rparr>" and ?p = "pushed f st1"
  have same: "threads st1 = threads st" "running st1 = running st" using a by (simp_all add: blocks_at_def)
  have q: "threads ?p = (threads st)(running st \<mapsto> ?r)"
    using r(1) by (simp add: pushed_def cur_stack_def same)
  from b have s: "schedule (put_thread (running st) (?r\<lparr>status := THREAD_BLOCKED\<rparr>) ?p) = Some st'"
    by (auto simp: thread_block_def get_thread_def panic_simps same q split: if_splits)
  have "core (put_thread (running st) (?r\<lparr>status := THREAD_BLOCKED\<rparr>) ?p)"
    by (rule block_core [OF i r(1), where f = f and r' = "?r\<lparr>status := THREAD_BLOCKED\<rparr>"])
      (use a r(2) in \<open>simp_all add: q blocks_at_def\<close>)
  from that [OF r(1) this s] show ?thesis by simp
qed

lemma push_block_inv:
  assumes "sched_inv st" "thread_block (pushed f st1) = Some st'" "blocks_at f st st1"
  shows "sched_inv st' \<and> top_prio st'"
  using push_block_cases [OF assms] schedule_inv by metis

lemma not_waiting:
  assumes "sched_inv st"
  shows "running st \<notin> set (waiters (semas st s))" "running st \<notin> set (waiting_list st)"
proof -
  have co: "core st" using assms by (simp add: sched_inv_def)
  obtain r where r: "threads st (running st) = Some r" "status r = THREAD_RUNNING"
    using running_thread [OF assms] .
  show "running st \<notin> set (waiters (semas st s))" "running st \<notin> set (waiting_list st)"
    using coreD(3) [OF co r(1)] r(2) by (auto simp: thread_ok_def waits_on_def sleeps_def)
qed

lemma sema_down_blocks_at:
  assumes i: "sched_inv st" and pc: "plain_cur st"
  shows "blocks_at (Sema_down_loop s) st (set_waiters s (waiters (semas st s) @ [running st]) st)"
  using not_waiting [OF i] coreD(1) [of st] pc i
  by (auto simp: blocks_at_def block_point_def lists_ok_def idle_stack_def plain_cur_def sched_inv_def)

lemma sema_down_loop_moved:
  assumes i: "sched_inv st" and pc: "plain_cur st" and s: "sema_down_loop s st = Some st'"
  shows "moved st st'"
proof (cases "semaval (semas st s) = 0")
  case True
  have co: "core st" using i by (simp add: sched_inv_def)
  let ?w = "set_waiters s (waiters (semas st s) @ [running st]) st"
  have ro: "run_ok ?w" "run_ok st" using i by (auto simp: run_ok_def sched_inv_def)
  with s True have b: "thread_block (pushed (Sema_down_loop s) ?w) = Some st'"
    by (simp add: sema_down_loop_def Let_def)
  have "sched_inv st' \<and> top_prio st'" by (rule push_block_inv [OF i b sema_down_blocks_at [OF i pc]])
  then show ?thesis by (simp add: moved_def)
next
  case False
  then have "st' = set_value s (semaval (semas st s) - 1) st" using s by (simp add: sema_down_loop_def)
  then show ?thesis using i by (simp add: moved_def) (simp add: set_value_def)
qed

lemma sema_down_moved:
  assumes i: "sched_inv st" and pc: "plain_cur st" and s: "sema_down s st = Some st'"
  shows "moved st st'"
proof -
  let ?p = "intr_disable (pushed (Set_level (intr_on st)) st)"
  have "run_ok st" using i by (simp add: sched_inv_def)
  with s have l: "sema_down_loop s ?p = Some st'" by (auto simp: sema_down_def Let_def)
  have "sched_inv ?p" "plain_cur ?p" using pushed_plain [OF i pc, of "Set_level (intr_on st)"]
    by (simp_all add: plain_cur_def)
  from sema_down_loop_moved [OF this l] show ?thesis by (simp add: moved_def)
qed

lemma sema_try_down_view:
  assumes "sema_try_down s st = Some (b, st')"
  shows "same_view st st'"
proof -
  have "same_view st st1" if "intr_set_level l (if c then set_value s v (intr_disable st) else intr_disable st) = Some st1"
    for l c v st1
    using intr_set_level_view [OF that] by (auto simp: same_view_def set_value_def split: if_splits)
  with assms show ?thesis by (auto simp: sema_try_down_def panic_simps Let_def)
qed

subsection \<open>Locks and condition variables\<close>

lemma donate_moved:
  assumes i: "sched_inv st" and pc: "plain_cur st" and s: "lock_priority_donate l p st = Some st'"
  shows "moved st st'"
proof -
  have "run_ok st" using i by (simp add: sched_inv_def)
  with s obtain t where "st' = st \<or> specific_thread_set_priority p t (pushed (Donated t p) st) = Some st'"
    by (auto simp: lock_priority_donate_def panic_simps split: if_splits)
  moreover have "sched_inv (pushed (Donated t p) st)" by (rule pushed_plain [OF i pc]) auto
  ultimately show ?thesis using i specific_set_priority_moved by (fastforce simp: moved_def)
qed

lemma lock_acquire_cases:
  assumes i: "sched_inv st" and pc: "plain_cur st" and s: "lock_acquire l st = Some st'"
  obtains q r x where "sched_inv q" "plain_cur q" "st' = q \<or> (\<exists>p. lock_priority_donate l p q = Some st')"
    "running q = running st" "threads st (running st) = Some r"
    "threads q = (threads st)(running st \<mapsto>
      r\<lparr>stack := [Down (Lock_sema l), Acquired l, Set_level (intr_on st)] @ stack r, plock_acq := x\<rparr>)"
    "holder q = holder st" "semas q = semas st"
proof -
  let ?p = "intr_disable (pushed (Set_level (intr_on st)) st)"
  let ?q = "pushed (Down (Lock_sema l)) (pushed (Acquired l) ?p)"
  have ro: "run_ok st" using i by (simp add: sched_inv_def)
  have p: "sched_inv ?p" "plain_cur ?p" using pushed_plain [OF i pc, of "Set_level (intr_on st)"]
    by (simp_all add: plain_cur_def)
  have q0: "sched_inv (pushed (Acquired l) ?p)" "plain_cur (pushed (Acquired l) ?p)"
    by (rule pushed_plain [OF p]; simp)+
  have q: "sched_inv ?q" "plain_cur ?q" by (rule pushed_plain [OF q0]; simp)+
  obtain r0 where r0: "threads st (running st) = Some r0" using running_thread [OF i] .
  let ?r = "r0\<lparr>stack := [Down (Lock_sema l), Acquired l, Set_level (intr_on st)] @ stack r0\<rparr>"
  have tq: "threads ?q = (threads st)(running st \<mapsto> ?r)" using r0 by (simp add: pushed_def cur_stack_def)
  let ?d = "put_thread (running st) (?r\<lparr>plock_acq := Some l\<rparr>) ?q"
  have c: "st' = ?q \<or> lock_priority_donate l (prio ?d (running st)) ?d = Some st'"
    using s ro tq
    by (auto simp: lock_acquire_def lock_held_by_current_thread_def get_thread_def panic_simps Let_def
        split: if_splits)
  have d: "sched_inv ?d" by (rule inv_put [OF q(1), of _ ?r]) (simp_all add: tq)
  have pd: "plain_cur ?d" using q(2) tq by (simp add: plain_cur_def cur_stack_def)
  from c show ?thesis
  proof
    assume "st' = ?q"
    with that [OF q _ _ r0, of "plock_acq r0"] tq show ?thesis by simp
  next
    assume "lock_priority_donate l (prio ?d (running st)) ?d = Some st'"
    then have "\<exists>p. lock_priority_donate l p ?d = Some st'" ..
    with that [OF d pd _ _ r0, of "Some l"] tq show ?thesis by simp
  qed
qed

lemma lock_acquire_moved:
  assumes "sched_inv st" "plain_cur st" "lock_acquire l st = Some st'"
  shows "moved st st'"
proof -
  obtain q where q: "sched_inv q" "plain_cur q" "st' = q \<or> (\<exists>p. lock_priority_donate l p q = Some st')"
      "running q = running st"
    using lock_acquire_cases [OF assms] .
  then show ?thesis using donate_moved [OF q(1,2)] by (auto simp: moved_def)
qed

lemma donated_moved:
  assumes "sched_inv st" "plain_cur st" "lock_donated t p st = Some st'"
  shows "moved st st'"
  using assms donate_moved [OF assms(1,2)]
  by (auto simp: lock_donated_def panic_simps moved_def split: option.splits)

lemma acquired_moved:
  assumes i: "sched_inv st" and s: "lock_acquired l st = Some st'"
  shows "moved st st'"
proof -
  obtain r where r: "threads st (running st) = Some r" using running_thread [OF i] .
  let ?p = "put_thread (running st) (r\<lparr>lock_own_list := lock_own_list r @ [l], plock_acq := None\<rparr>) st"
  have "sched_inv ?p" by (rule inv_put [OF i r]) auto
  moreover have "st' = ?p\<lparr>holder := (holder st)(l := Some (running st))\<rparr>"
    using s r by (simp add: lock_acquired_def get_thread_def)
  ultimately show ?thesis by (simp add: moved_def)
qed

lemma try_acquire_moved:
  assumes i: "sched_inv st" and s: "lock_try_acquire l st = Some (b, st')"
  shows "moved st st'"
proof -
  from s obtain c st1 h where t: "sema_try_down (Lock_sema l) st = Some (c, st1)"
      and "st' = st1\<lparr>holder := h\<rparr> \<or> st' = st1"
    by (auto simp: lock_try_acquire_def panic_simps split: if_splits)
  then show ?thesis using i same_view(3,6) [OF sema_try_down_view [OF t]] by (auto simp: moved_def)
qed

lemma lock_release_moved:
  assumes i: "sched_inv st" and s: "lock_release l st = Some st'"
  shows "moved st st'"
proof -
  let ?p = "(intr_disable (pushed (Set_level (intr_on st)) st))\<lparr>holder := (holder st)(l := None)\<rparr>"
  have ro: "run_ok st" using i by (simp add: sched_inv_def)
  have p: "sched_inv ?p" using i by (simp add: pushed_idle_frame)
  obtain r where r: "threads ?p (running ?p) = Some r" using running_thread [OF p] .
  let ?r = "put_thread (running st) (r\<lparr>lock_own_list := remove1 l (lock_own_list r)\<rparr>) ?p"
  have "sema_up (Lock_sema l) ?r = Some st'" using s ro r
    by (auto simp: lock_release_def lock_held_by_current_thread_def get_thread_def panic_simps Let_def
        split: if_splits)
  moreover have "sched_inv ?r" by (rule inv_put [OF p]) (use r in auto)
  ultimately show ?thesis using sema_up_moved [of ?r] by (auto simp: moved_def)
qed

lemma sema_init_view: "waiters (semas st s) = [] \<Longrightarrow> same_view st (sema_init s v st)"
  by (simp add: same_view_def sema_init_def)

lemma cond_wait_moved:
  assumes i: "sched_inv st" and pc: "plain_cur st" and w: "waiters (semas st (Sema s)) = []"
    and c: "cond_wait c l s st = Some st'"
  shows "moved st st'"
proof -
  let ?i = "sema_init (Sema s) 0 st"
  let ?c = "?i\<lparr>cond_waiters := (cond_waiters ?i)(c := cond_waiters ?i c @ [s])\<rparr>"
  have v: "same_view st ?c" using w by (simp add: same_view_def sema_init_def)
  have c1: "sched_inv ?c" "plain_cur ?c" using i pc same_view(3,5) [OF v] by (simp_all add: plain_cur_def)
  let ?q = "pushed (Cond_reacquire l) ?c"
  have q: "sched_inv ?q" "plain_cur ?q" by (rule pushed_plain [OF c1]; simp)+
  have q2: "sched_inv (pushed (Down (Sema s)) ?q)" by (rule pushed_plain [OF q]; simp)
  have "run_ok ?c" "run_ok ?q" using c1 q by (simp_all add: sched_inv_def)
  with c have "lock_release l (pushed (Down (Sema s)) ?q) = Some st'"
    by (auto simp: cond_wait_def panic_simps Let_def split: if_splits)
  from lock_release_moved [OF q2 this] same_view(6) [OF v] show ?thesis by (simp add: moved_def)
qed

lemma cond_signal_moved:
  assumes i: "sched_inv st" and c: "cond_signal c l st = Some st'"
  shows "moved st st'"
proof -
  from c obtain s h where "st' = st \<or> sema_up (Sema s) (st\<lparr>cond_waiters := h\<rparr>) = Some st'"
    by (auto simp: cond_signal_def panic_simps Let_def split: if_splits)
  then show ?thesis using i sema_up_moved [of "st\<lparr>cond_waiters := h\<rparr>" "Sema s" st'] by (auto simp: moved_def)
qed

lemma cond_broadcast_moved:
  assumes i: "sched_inv st" and pc: "plain_cur st" and c: "cond_broadcast c l st = Some st'"
  shows "moved st st'"
proof -
  have "run_ok st" using i by (simp add: sched_inv_def)
  with c have "st' = st \<or> cond_signal c l (pushed (Broadcast c l) st) = Some st'"
    by (auto simp: cond_broadcast_def split: if_splits)
  moreover have "sched_inv (pushed (Broadcast c l) st)" by (rule pushed_plain [OF i pc]) auto
  ultimately show ?thesis using i cond_signal_moved by (fastforce simp: moved_def)
qed

subsection \<open>Thread creation\<close>

lemma core_new:
  assumes co: "core st" and n: "threads st t = None"
    and r: "status r = THREAD_BLOCKED" "stack r = []"
  shows "core (put_thread t r st)" (is "core ?st")
proof -
  have l: "lists_ok st" using coreD(1) [OF co] .
  have nt: "t \<notin> set (ready_list st)" "t \<notin> set (waiting_list st)" "t \<notin> set (waiters (semas st s))" for s
    using l n by (auto simp: lists_ok_def)
  have srt: "sorted_wrt (\<lambda>x y. prio ?st x \<ge> prio ?st y) (ready_list st)"
  proof (rule sorted_wrt_mono_rel)
    show "sorted_wrt (\<lambda>x y. prio st x \<ge> prio st y) (ready_list st)" using l by (simp add: lists_ok_def)
  qed (use nt(1) in auto)
  show ?thesis
  proof (rule coreI)
    show "lists_ok ?st" using l srt unfolding lists_ok_def by auto
    show "idle_ok ?st" using coreD(2) [OF co] n by (auto simp: idle_ok_def)
  next
    fix u x assume u: "threads ?st u = Some x"
    show "thread_ok ?st u x"
    proof (cases "u = t")
      case True
      then show ?thesis using u nt r
        by (simp add: thread_ok_def waits_on_def sleeps_def block_point_def idle_stack_def)
    next
      case False
      then show ?thesis using u coreD(3) [OF co, of u x] by (simp add: thread_ok_def)
    qed
    show "list_all (child_ok ?st u) (creating (stack x))"
      using u r n coreD(4) [OF co, of u x] by (cases "u = t") (auto simp: list_all_iff child_ok_def)
  qed
qed

lemma init_thread_inv:
  assumes i: "sched_inv st" and n: "threads st t = None" and s: "init_thread t p st = Some st'"
  shows "sched_inv st'" "running st' = running st" "child_ok st' (running st) t" "cur_stack st' = cur_stack st"
    "semas st' = semas st"
proof -
  have rt: "is_thread (running st) st" "running st \<noteq> t" using i n by (auto simp: sched_inv_def run_ok_def is_thread_def)
  define r where "r = \<lparr>tid = 0, status = THREAD_BLOCKED, priority = p, wakeup_tick = 0,
    lock_own_list = [], plock_acq = None, origin_priority = p, tparent = running st, user_pagedir = False,
    stack = []\<rparr>"
  let ?p = "put_thread t r st"
  have ip: "sched_inv ?p" using core_new [of st t r] i n rt
    by (auto simp: sched_inv_def r_def run_ok_def)
  from s rt(1) obtain q where q: "threads ?p (initial_thread st) = Some q"
      and st': "st' = put_thread (initial_thread st) (q\<lparr>wakeup_tick := 0\<rparr>) ?p"
    by (auto simp: init_thread_def get_thread_def panic_simps Let_def r_def split: if_splits)
  show "sched_inv st'" unfolding st' by (rule inv_put [OF ip q]) auto
  show "running st' = running st" "cur_stack st' = cur_stack st" "semas st' = semas st"
    using rt(2) q by (auto simp: st' cur_stack_def)
  show "child_ok st' (running st) t" using q by (auto simp: child_ok_def st' r_def)
qed

lemma push_create_inv:
  assumes i: "sched_inv st" and pc: "plain_cur st" and c: "child_ok st (running st) t"
    and nt: "t \<notin> set (creating (cur_stack st))" and f: "creating [f] = [t]" "\<not> base_frame f"
  shows "sched_inv (pushed f st)" "plain_cur (pushed f st)"
proof -
  have co: "core st" using i by (simp add: sched_inv_def)
  obtain r where r: "threads st (running st) = Some r" "stack r = cur_stack st" using running_thread [OF i] .
  have cf: "creating (f # fs) = t # creating fs" for fs using f(1) by (cases f) auto
  have t: "thread_ok st (running st) r" using coreD(3) [OF co r(1)] .
  show "plain_cur (pushed f st)" using pc f by (simp add: plain_cur_def)
  have il: "idle_thread st = Some (running st) \<longrightarrow> Idle_loop \<in> set (f # cur_stack st)"
    using coreD(2) [OF co] r by (auto simp: idle_ok_def)
  show "sched_inv (pushed f st)" unfolding pushed_def r(1) option.sel
    by (rule inv_stack [OF i r(1) _ _ _ il])
      (use pc f cf nt c t coreD(4) [OF co r(1)] in
        \<open>auto simp: plain_cur_def idle_stack_def thread_ok_def r(2)\<close>)
qed

lemma not_creating:
  assumes "core st" "threads st u = Some x" "threads st t = None"
  shows "t \<notin> set (creating (stack x))"
  using coreD(4) [OF assms(1,2)] assms(3) by (auto simp: list_all_iff child_ok_def)

lemma thread_create_cases:
  assumes i: "sched_inv st" and pc: "plain_cur st" and nt: "threads st t = None"
    and s: "thread_create (Some t) p f st = Some st'"
  obtains st1 st2 where "init_thread t p st = Some st1" "sched_inv st1" "running st1 = running st"
    "st2 = pushed (Create_tid t f) st1" "sched_inv st2" "plain_cur st2" "lock_acquire tid_lock st2 = Some st'"
proof -
  from s obtain st1 st2 where 1: "init_thread t p st = Some st1" "push (Create_tid t f) st1 = Some st2"
      and l: "lock_acquire tid_lock st2 = Some st'"
    by (auto simp: thread_create_def panic_simps)
  note in1 = init_thread_inv [OF i nt 1(1)]
  obtain r where r: "threads st (running st) = Some r" "stack r = cur_stack st" using running_thread [OF i] .
  have co: "core st" using i by (simp add: sched_inv_def)
  have "t \<notin> set (creating (cur_stack st1))" using not_creating [OF co r(1) nt] r(2) in1(4) by simp
  moreover have "plain_cur st1" using pc in1(4) by (simp add: plain_cur_def)
  moreover have st2: "st2 = pushed (Create_tid t f) st1" using 1(2) in1(1) by (simp add: sched_inv_def)
  ultimately have "sched_inv st2" "plain_cur st2"
    using push_create_inv [OF in1(1), of t "Create_tid t f"] in1(2,3) by simp_all
  from that [OF 1(1) in1(1,2) st2 this l] show ?thesis .
qed

lemma thread_create_moved:
  assumes i: "sched_inv st" and pc: "plain_cur st" and n: "\<forall>t. page = Some t \<longrightarrow> threads st t = None"
    and s: "thread_create page p f st = Some st'"
  shows "moved st st'"
proof (cases page)
  case None
  then show ?thesis using s i by (simp add: thread_create_def moved_def)
next
  case (Some t)
  then have nt: "threads st t = None" and c: "thread_create (Some t) p f st = Some st'" using n s by simp_all
  obtain st1 st2 where "running st1 = running st" "st2 = pushed (Create_tid t f) st1"
      "sched_inv st2" "plain_cur st2" "lock_acquire tid_lock st2 = Some st'"
    using thread_create_cases [OF i pc nt c] .
  then show ?thesis using lock_acquire_moved [of st2] by (simp add: moved_def)
qed

lemma create_tid_cases:
  assumes i: "sched_inv st" and pc: "plain_cur st" and c: "child_ok st (running st) t"
    and nt: "t \<notin> set (creating (cur_stack st))" and s: "create_tid t f st = Some st'"
  obtains r p q where "threads st t = Some r"
    "p = put_thread t (r\<lparr>tid := next_tid st\<rparr>) (st\<lparr>next_tid := next_tid st + 1\<rparr>)"
    "run_ok p" "q = pushed (Create_run t f) p" "sched_inv q" "lock_release tid_lock q = Some st'"
proof -
  from s obtain r where r: "threads st t = Some r" by (auto simp: create_tid_def get_thread_def panic_simps)
  let ?n = "st\<lparr>next_tid := next_tid st + 1\<rparr>"
  let ?p = "put_thread t (r\<lparr>tid := next_tid st\<rparr>) ?n"
  have p: "sched_inv ?p" by (rule inv_put [of _ _ r]) (use i r in auto)
  have cs: "cur_stack ?p = cur_stack st" using r by (auto simp: cur_stack_def)
  let ?q = "pushed (Create_run t f) ?p"
  have iq: "sched_inv ?q"
    by (rule push_create_inv [OF p]) (use pc cs c nt r in \<open>auto simp: plain_cur_def child_ok_def\<close>)
  have ro: "run_ok ?p" using p by (simp add: sched_inv_def)
  then have "lock_release tid_lock ?q = Some st'" using s r
    by (simp add: create_tid_def get_thread_def Let_def)
  from that [OF r refl ro refl iq this] show ?thesis .
qed

lemma create_tid_moved:
  assumes "sched_inv st" "plain_cur st" "child_ok st (running st) t"
    "t \<notin> set (creating (cur_stack st))" "create_tid t f st = Some st'"
  shows "moved st st'"
proof -
  obtain r p q where "p = put_thread t (r\<lparr>tid := next_tid st\<rparr>) (st\<lparr>next_tid := next_tid st + 1\<rparr>)"
      "q = pushed (Create_run t f) p" "sched_inv q" "lock_release tid_lock q = Some st'"
    using create_tid_cases [OF assms] .
  then show ?thesis using lock_release_moved [of q] by (auto simp: moved_def)
qed

lemma create_run_cases:
  assumes i: "sched_inv st" and c: "child_ok st (running st) t"
    and nt: "t \<notin> set (creating (cur_stack st))" and s: "create_run t f st = Some st'"
  obtains r st1 p where "threads st t = Some r" "stack r = []" "running st1 = running st"
    "threads st1 = (threads st)(t \<mapsto> r\<lparr>stack := [Kernel_thread f], status := THREAD_READY\<rparr>)"
    "holder st1 = holder st" "semas st1 = semas st" "sched_inv st1"
    "specific_thread_set_priority p (running st1) st1 = Some st'"
proof -
  have co: "core st" using i by (simp add: sched_inv_def)
  from c obtain r where r: "threads st t = Some r" "status r = THREAD_BLOCKED" "stack r = []"
      "tparent r = running st"
    by (auto simp: child_ok_def)
  have nr: "t \<noteq> running st" using i r by (auto simp: sched_inv_def run_ok_def)
  let ?p = "put_thread t (r\<lparr>stack := [Kernel_thread f]\<rparr>) st"
  from s r obtain st1 p where u: "thread_unblock t ?p = Some st1"
      and sp: "specific_thread_set_priority p (running st1) st1 = Some st'"
    by (auto simp: create_run_def get_thread_def panic_simps Let_def)
  from thread_unblock_cases [OF u] obtain b where
    st1: "st1 = put_thread t (r\<lparr>stack := [Kernel_thread f], status := THREAD_READY\<rparr>)
      (?p\<lparr>ready_list := ordered_insert (higher_priority ?p) t (ready_list st)\<rparr>)\<lparr>intr_on := b\<rparr>"
    by auto
  have hp: "higher_priority ?p = higher_priority st" using r by (auto simp: higher_priority_def prio_def fun_eq_iff)
  have tk: "thread_ok st t r" using coreD(3) [OF co r(1)] .
  have notin: "t \<notin> set (waiters (semas st s))" "t \<notin> set (waiting_list st)" for s
    using tk r by (auto simp: thread_ok_def waits_on_def sleeps_def)
  have ch: "t \<notin> set (creating (stack x))" if "threads st u = Some x" for u x
  proof
    assume "t \<in> set (creating (stack x))"
    then have "child_ok st u t" using coreD(4) [OF co that] by (simp add: list_all_iff)
    then have "u = running st" using r by (auto simp: child_ok_def)
    then show False using that nt \<open>t \<in> set (creating (stack x))\<close> by (simp add: cur_stack_def)
  qed
  have "core st1"
    by (rule make_ready [OF co r(1,2), where r' = "r\<lparr>stack := [Kernel_thread f], status := THREAD_READY\<rparr>"])
      (use notin ch r coreD(1) [OF co] in \<open>auto simp: st1 hp lists_ok_def idle_stack_def\<close>)
  then have "sched_inv st1" using i nr by (auto simp: sched_inv_def run_ok_def st1)
  from that [OF r(1,3) _ _ _ _ this sp] show ?thesis by (simp add: st1)
qed

lemma create_run_moved:
  assumes "sched_inv st" "child_ok st (running st) t" "t \<notin> set (creating (cur_stack st))"
    "create_run t f st = Some st'"
  shows "moved st st'"
proof -
  obtain st1 p where "running st1 = running st" "sched_inv st1"
      "specific_thread_set_priority p (running st1) st1 = Some st'"
    using create_run_cases [OF assms] .
  then show ?thesis using specific_set_priority_moved [of st1] by (auto simp: moved_def)
qed

lemma thread_start_cases:
  assumes i: "sched_inv st" and pc: "plain_cur st" and n: "\<forall>t. page = Some t \<longrightarrow> threads st t = None"
    and w: "waiters (semas st (Sema s)) = []" and st: "thread_start page s st = Some st'"
  obtains a q where "a = sema_init (Sema s) 0 st" "sched_inv a" "q = pushed Enable (pushed (Down (Sema s)) a)"
    "running q = running st" "sched_inv q" "plain_cur q" "\<forall>t. page = Some t \<longrightarrow> threads q t = None"
    "thread_create page PRI_MIN (Idle s) q = Some st'"
proof -
  let ?i = "sema_init (Sema s) 0 st"
  have v: "same_view st ?i" using sema_init_view [OF w] .
  have i1: "sched_inv ?i" "plain_cur ?i" using i pc same_view(3,5) [OF v] by (simp_all add: plain_cur_def)
  have q: "sched_inv (pushed (Down (Sema s)) ?i)" "plain_cur (pushed (Down (Sema s)) ?i)" by (rule pushed_plain [OF i1]; simp)+
  let ?q = "pushed Enable (pushed (Down (Sema s)) ?i)"
  have q2: "sched_inv ?q" "plain_cur ?q" by (rule pushed_plain [OF q]; simp)+
  have ro: "run_ok ?i" using i1 by (simp add: sched_inv_def)
  then have c: "thread_create page PRI_MIN (Idle s) ?q = Some st'" using st
    by (simp add: thread_start_def)
  have "running st \<in> dom (threads st)" using i by (auto simp: sched_inv_def run_ok_def)
  then have "\<forall>t. page = Some t \<longrightarrow> threads ?q t = None" using n by (auto simp: pushed_def sema_init_def)
  from that [OF refl i1(1) refl _ q2 this c] same_view(6) [OF v] show ?thesis by simp
qed

lemma thread_start_moved:
  assumes "sched_inv st" "plain_cur st" "\<forall>t. page = Some t \<longrightarrow> threads st t = None"
    "waiters (semas st (Sema s)) = []" "thread_start page s st = Some st'"
  shows "moved st st'"
proof -
  obtain q where q: "running q = running st" "sched_inv q" "plain_cur q" "\<forall>t. page = Some t \<longrightarrow> threads q t = None"
      "thread_create page PRI_MIN (Idle s) q = Some st'"
    using thread_start_cases [OF assms] .
  from thread_create_moved [OF q(2-5)] q(1) show ?thesis by (simp add: moved_def)
qed

lemma kernel_thread_moved:
  assumes i: "sched_inv st" and a: "list_all idle_frame (cur_stack st)" and s: "kernel_thread f st = Some st'"
  shows "moved st st'"
proof -
  let ?e = "st\<lparr>intr_on := True\<rparr>"
  have e: "sched_inv ?e" using i by simp
  then have "run_ok ?e" by (simp add: sched_inv_def)
  with s have "st' = ?e \<or> (\<exists>s. st' = pushed (Idle_start s) ?e)"
    by (auto simp: kernel_thread_def intr_enable_def split: thread_func.splits)
  moreover have "sched_inv (pushed (Idle_start s) ?e)" for s
    by (rule pushed_inv [OF e]) (use a in \<open>auto simp: idle_stack_def\<close>)
  ultimately show ?thesis using e by (auto simp: moved_def)
qed

lemma idle_cases:
  assumes i: "sched_inv st" and a: "list_all idle_frame (cur_stack st)" and s: "idle x st = Some st'"
  obtains j q where "j = st\<lparr>idle_thread := Some (running st)\<rparr>" "run_ok j" "q = pushed Idle_loop j" "sched_inv q"
    "sema_up (Sema x) q = Some st'"
proof -
  let ?j = "st\<lparr>idle_thread := Some (running st)\<rparr>"
  let ?p = "pushed Idle_loop ?j" and ?q = "pushed Idle_loop st"
  have ro: "run_ok st" using i by (simp add: sched_inv_def)
  have rj: "run_ok ?j" using ro by (simp add: run_ok_def)
  with s ro have u: "sema_up (Sema x) ?p = Some st'" by (simp add: idle_def)
  have eq: "?p = ?q\<lparr>idle_thread := Some (running st)\<rparr>" by (simp add: pushed_def cur_stack_def put_thread_def)
  have q: "sched_inv ?q" by (rule pushed_inv [OF i]) (use a in \<open>auto simp: idle_stack_def\<close>)
  have t: "thread_ok (?q\<lparr>idle_thread := Some (running st)\<rparr>) = thread_ok ?q"
      "child_ok (?q\<lparr>idle_thread := Some (running st)\<rparr>) = child_ok ?q"
    by (simp_all add: thread_ok_def child_ok_def fun_eq_iff)
  have "idle_ok ?p" by (simp add: idle_ok_def pushed_def)
  then have "sched_inv ?p" using q unfolding eq
    by (simp add: sched_inv_def core_def t lists_ok_def run_ok_def)
  from that [OF refl rj refl this u] show ?thesis .
qed

lemma idle_moved:
  assumes "sched_inv st" "list_all idle_frame (cur_stack st)" "idle x st = Some st'"
  shows "moved st st'"
proof -
  obtain j q where "j = st\<lparr>idle_thread := Some (running st)\<rparr>" "q = pushed Idle_loop j" "sched_inv q"
      "sema_up (Sema x) q = Some st'"
    using idle_cases [OF assms] .
  then show ?thesis using sema_up_moved [of q] by (auto simp: moved_def)
qed

subsection \<open>Sleeping and the timer\<close>

lemma timer_sleep_cases:
  assumes i: "sched_inv st" and pc: "plain_cur st" and s: "timer_sleep n st = Some st'"
  obtains r st2 where "threads st (running st) = Some r" "core st2" "schedule st2 = Some st'"
    "threads st2 = (threads st)(running st \<mapsto> r\<lparr>wakeup_tick := ucast (timer_ticks st + n),
      stack := Slept (intr_on st) # stack r, status := THREAD_BLOCKED\<rparr>)"
    "waiting_list st2 = ordered_insert (less_wakeup_tick (put_thread (running st)
      (r\<lparr>wakeup_tick := ucast (timer_ticks st + n)\<rparr>) (intr_disable st))) (running st) (waiting_list st)"
    "holder st2 = holder st" "semas st2 = semas st"
proof -
  obtain r where r: "threads st (running st) = Some r" "stack r = cur_stack st" using running_thread [OF i] .
  let ?p = "put_thread (running st) (r\<lparr>wakeup_tick := ucast (timer_ticks st + n)\<rparr>) (intr_disable st)"
  let ?w = "?p\<lparr>waiting_list := ordered_insert (less_wakeup_tick ?p) (running st) (waiting_list st)\<rparr>"
  have p: "sched_inv ?p" by (rule inv_put [of _ _ r]) (use i r in auto)
  have cs: "cur_stack ?p = cur_stack st" using r by (simp add: cur_stack_def)
  have ro: "run_ok st" "run_ok ?w" using i p by (auto simp: sched_inv_def run_ok_def)
  with s r(1) have b: "thread_block (pushed (Slept (intr_on st)) ?w) = Some st'"
    by (simp add: timer_sleep_def get_thread_def panic_simps Let_def split: if_splits)
  have co: "core ?p" using p by (simp add: sched_inv_def)
  have "blocks_at (Slept (intr_on st)) ?p ?w"
    using not_waiting [OF p] coreD(1) [OF co] pc cs
    by (auto simp: blocks_at_def block_point_def lists_ok_def idle_stack_def plain_cur_def)
  from push_block_cases [OF p b this] obtain q st2 where "threads ?p (running ?p) = Some q"
      and c: "core st2" "schedule st2 = Some st'"
      and st2: "st2 = put_thread (running ?p) (q\<lparr>stack := Slept (intr_on st) # stack q, status := THREAD_BLOCKED\<rparr>)
        (pushed (Slept (intr_on st)) ?w)" .
  then have "q = r\<lparr>wakeup_tick := ucast (timer_ticks st + n)\<rparr>" by simp
  with that [OF r(1) c] show ?thesis by (simp add: st2 pushed_def)
qed

lemma timer_sleep_moved:
  assumes "sched_inv st" "plain_cur st" "timer_sleep n st = Some st'"
  shows "moved st st'"
proof -
  obtain st2 where "core st2" "schedule st2 = Some st'" using timer_sleep_cases [OF assms] .
  then show ?thesis using schedule_inv by (simp add: moved_def)
qed

lemma thread_tick_cases:
  assumes "thread_tick st = Some st'"
  obtains c d x y z n a where "a = (if c then st\<lparr>idle_ticks := x\<rparr> else if d then st\<lparr>user_ticks := y\<rparr>
      else st\<lparr>kernel_ticks := z\<rparr>)\<lparr>thread_ticks := n\<rparr>" "st' = a \<or> intr_yield_on_return a = Some st'"
proof -
  from assms obtain r where "threads st (running st) = Some r"
    by (auto simp: thread_tick_def get_thread_def Option.bind_eq_Some_conv)
  with assms have "\<exists>c d x y z n. let a = (if c then st\<lparr>idle_ticks := x\<rparr> else if d then st\<lparr>user_ticks := y\<rparr>
      else st\<lparr>kernel_ticks := z\<rparr>)\<lparr>thread_ticks := n\<rparr> in st' = a \<or> intr_yield_on_return a = Some st'"
    by (simp only: thread_tick_def get_thread_def Option.bind_eq_Some_conv Let_def)
      (metis option.inject)
  with that show ?thesis unfolding Let_def by blast
qed

lemma thread_tick_view:
  assumes "thread_tick st = Some st'"
  shows "same_view st st'"
proof -
  have v: "same_view st a \<Longrightarrow> intr_yield_on_return a = Some b \<Longrightarrow> same_view st b" for a b
    by (auto simp: intr_yield_on_return_def same_view_def)
  have w: "same_view st ((if c then st\<lparr>idle_ticks := x\<rparr> else if d then st\<lparr>user_ticks := y\<rparr>
      else st\<lparr>kernel_ticks := z\<rparr>)\<lparr>thread_ticks := n\<rparr>)" for c d x y z n
    by (simp add: same_view_def)
  show ?thesis using thread_tick_cases [OF assms] v w by metis
qed

lemma timer_interrupt_inv:
  assumes i: "sched_inv st" and s: "timer_interrupt st = Some st'"
  shows "sched_inv st' \<and> running st' = running st"
proof -
  let ?c = "st\<lparr>timer_count := timer_count st + 1\<rparr>"
  from s obtain st1 where 1: "thread_tick ?c = Some st1" and w: "wake_loop (waiting_list st1) st1 = Some st'"
    by (auto simp: timer_interrupt_def panic_simps)
  note v = thread_tick_view [OF 1]
  have "sched_inv st1" using i by (simp add: same_view [OF v])
  from wake_loop_inv [OF this refl w] show ?thesis by (simp add: same_view [OF v])
qed

lemma intr_handler_cases:
  assumes i: "sched_inv st" and s: "intr_handler st = Some st'"
  obtains p st1 where "p = (intr_disable (pushed Iret st))\<lparr>in_external_intr := True, yield_on_return := False\<rparr>"
    "sched_inv p" "timer_interrupt p = Some st1" "sched_inv st1" "running st1 = running st"
    "st' = st1\<lparr>in_external_intr := False\<rparr> \<or> thread_yield (st1\<lparr>in_external_intr := False\<rparr>) = Some st'"
proof -
  let ?p = "(intr_disable (pushed Iret st))\<lparr>in_external_intr := True, yield_on_return := False\<rparr>"
  have ro: "run_ok st" using i by (simp add: sched_inv_def)
  from s ro obtain st1 where t: "timer_interrupt ?p = Some st1"
      and y: "st' = st1\<lparr>in_external_intr := False\<rparr> \<or> thread_yield (st1\<lparr>in_external_intr := False\<rparr>) = Some st'"
    by (auto simp: intr_handler_def panic_simps Let_def split: if_splits)
  have ip: "sched_inv ?p" using i by (simp add: pushed_idle_frame)
  from timer_interrupt_inv [OF this t] have i1: "sched_inv st1" "running st1 = running st" by auto
  from that [OF refl ip t i1 y] show ?thesis .
qed

lemma intr_handler_moved:
  assumes "sched_inv st" "intr_handler st = Some st'"
  shows "moved st st'"
proof -
  obtain st1 where "sched_inv st1" "running st1 = running st"
      "st' = st1\<lparr>in_external_intr := False\<rparr> \<or> thread_yield (st1\<lparr>in_external_intr := False\<rparr>) = Some st'"
    using intr_handler_cases [OF assms] .
  then show ?thesis using thread_yield_inv [of "st1\<lparr>in_external_intr := False\<rparr>" st'] by (auto simp: moved_def)
qed

subsection \<open>Steps\<close>

lemma idle_loop_cases:
  assumes i: "sched_inv st" and r: "threads st (running st) = Some r" and fs: "stack r = Idle_loop # fs"
    and s: "idle_loop (put_thread (running st) (r\<lparr>stack := fs\<rparr>) st) = Some st'"
  obtains st2 where "core st2" "schedule st2 = Some st'" "holder st2 = holder st" "semas st2 = semas st"
    "threads st2 = (threads st)(running st \<mapsto> r\<lparr>stack := Sti_hlt # stack r, status := THREAD_BLOCKED\<rparr>)"
proof -
  let ?o = "put_thread (running st) (r\<lparr>stack := fs\<rparr>) st"
  have co: "core st" using i by (simp add: sched_inv_def)
  have "r\<lparr>stack := Idle_loop # fs\<rparr> = r" using fs by simp
  then have eq: "pushed Idle_loop (intr_disable ?o) = intr_disable st" using r
    by (auto simp: pushed_def cur_stack_def put_thread_def intr_disable_def fun_upd_idem)
  have ro: "run_ok (intr_disable ?o)" "run_ok (intr_disable st)"
    using i r by (auto simp: run_ok_def sched_inv_def)
  then have b: "thread_block (pushed Sti_hlt (intr_disable st)) = Some st'"
    using s by (simp add: idle_loop_def Let_def eq)
  have d: "sched_inv (intr_disable st)" using i by simp
  have "idle_stack (Sti_hlt # cur_stack (intr_disable st))"
    using coreD(3) [OF co r] fs r by (simp add: thread_ok_def idle_stack_def cur_stack_def)
  then have "blocks_at Sti_hlt (intr_disable st) (intr_disable st)"
    using coreD(1) [OF co] by (auto simp: blocks_at_def block_point_def lists_ok_def)
  from push_block_cases [OF d b this] obtain q st2 where "threads (intr_disable st) (running (intr_disable st)) = Some q"
      and c: "core st2" "schedule st2 = Some st'"
      and st2: "st2 = put_thread (running (intr_disable st)) (q\<lparr>stack := Sti_hlt # stack q, status := THREAD_BLOCKED\<rparr>)
        (pushed Sti_hlt (intr_disable st))" .
  then have "q = r" using r by simp
  with that [OF c] show ?thesis by (simp add: st2 pushed_def)
qed

lemma idle_loop_moved:
  assumes "sched_inv st" "threads st (running st) = Some r" "stack r = Idle_loop # fs"
    "idle_loop (put_thread (running st) (r\<lparr>stack := fs\<rparr>) st) = Some st'"
  shows "moved st st'"
proof -
  obtain st2 where "core st2" "schedule st2 = Some st'" using idle_loop_cases [OF assms] .
  then show ?thesis using schedule_inv by (simp add: moved_def)
qed

lemma popped:
  assumes i: "sched_inv st" and r: "threads st (running st) = Some r" and fs: "stack r = f # fs"
  defines "p \<equiv> put_thread (running st) (r\<lparr>stack := fs\<rparr>) st"
  shows "f \<noteq> Idle_loop \<Longrightarrow> sched_inv p" "\<not> idle_frame f \<Longrightarrow> plain_cur p"
    "base_frame f \<Longrightarrow> list_all idle_frame (cur_stack p)" "running p = running st"
    "creating [f] = [t] \<Longrightarrow> child_ok p (running p) t \<and> t \<notin> set (creating (cur_stack p))"
proof -
  have co: "core st" using i by (simp add: sched_inv_def)
  have t: "thread_ok st (running st) r" using coreD(3) [OF co r] .
  have ch: "list_all (child_ok st (running st)) (creating (f # fs))" using coreD(4) [OF co r] fs by simp
  have q: "idle_stack (f # fs)" "distinct (creating (f # fs))" using t fs by (simp_all add: thread_ok_def)
  have cf: "creating (f # fs) = creating [f] @ creating fs" by (cases f) auto
  have cs: "cur_stack p = fs" by (simp add: p_def cur_stack_def)
  show "running p = running st" by (simp add: p_def)
  show "\<not> idle_frame f \<Longrightarrow> plain_cur p" "base_frame f \<Longrightarrow> list_all idle_frame (cur_stack p)"
    using q(1) by (auto simp: plain_cur_def cs idle_stack_def)
  show "sched_inv p" if "f \<noteq> Idle_loop"
    unfolding p_def
  proof (rule inv_stack [OF i r])
    show "idle_stack fs" using q(1) by (auto simp: idle_stack_def)
    show "distinct (creating fs)" "list_all (child_ok st (running st)) (creating fs)"
      using q(2) ch cf by auto
    show "idle_thread st = Some (running st) \<longrightarrow> Idle_loop \<in> set fs"
      using coreD(2) [OF co] r fs that by (auto simp: idle_ok_def)
  qed
  assume "creating [f] = [t]"
  then have c: "child_ok st (running st) t" "t \<notin> set (creating fs)"
    using ch q(2) cf by (auto simp: list_all_iff)
  moreover have "t \<noteq> running st" using c(1) r fs by (auto simp: child_ok_def)
  ultimately show "child_ok p (running p) t \<and> t \<notin> set (creating (cur_stack p))"
    by (simp add: cs) (simp add: child_ok_def p_def)
qed

lemma view_moved: "same_view st st' \<Longrightarrow> sched_inv st \<Longrightarrow> moved st st'"
  by (simp add: moved_def same_view(3,6))

lemma set_level_moved: "sched_inv st \<Longrightarrow> intr_set_level b st = Some st' \<Longrightarrow> moved st st'"
  by (blast intro: view_moved intr_set_level_view)

lemma enable_moved: "sched_inv st \<Longrightarrow> intr_enable st = Some st' \<Longrightarrow> moved st st'"
  using set_level_moved [of st True st'] by (simp add: intr_set_level_def)

lemma moved_intr_on: "sched_inv st \<Longrightarrow> moved st (st\<lparr>intr_on := b\<rparr>)"
  by (simp add: moved_def)

lemma resume_cases:
  assumes "resume st = Some st'"
  obtains r f fs where "threads st (running st) = Some r" "stack r = f # fs"
    "exec f (put_thread (running st) (r\<lparr>stack := fs\<rparr>) st) = Some st'"
proof -
  from assms obtain r where r: "threads st (running st) = Some r"
    by (auto simp: resume_def get_thread_def Option.bind_eq_Some_conv)
  with assms that show ?thesis by (cases "stack r") (auto simp: resume_def get_thread_def)
qed

lemma resume_moved:
  assumes i: "sched_inv st" and s: "resume st = Some st'"
  shows "moved st st'"
proof -
  from s obtain r f fs where r: "threads st (running st) = Some r" "stack r = f # fs"
      and e: "exec f (put_thread (running st) (r\<lparr>stack := fs\<rparr>) st) = Some st'"
    by (rule resume_cases)
  define p where "p = put_thread (running st) (r\<lparr>stack := fs\<rparr>) st"
  note pp = popped [OF i r, folded p_def]
  have "moved st st'" if "f \<noteq> Idle_loop"
  proof -
    have ip: "sched_inv p" using pp(1) that .
    have "moved p st'"
    proof (cases f)
      case (Create_tid t g)
      then show ?thesis using e pp(2) pp(5) [of t] create_tid_moved [OF ip] by (auto simp: p_def [symmetric])
    next
      case (Create_run t g)
      then show ?thesis using e pp(5) [of t] create_run_moved [OF ip] by (auto simp: p_def [symmetric])
    next
      case Sti_hlt
      then show ?thesis using e moved_intr_on [OF ip, of True] by (auto simp: p_def [symmetric])
    next
      case Iret
      then show ?thesis using e moved_intr_on [OF ip, of True] by (auto simp: p_def [symmetric])
    qed (use e that pp(2,3) set_level_moved [OF ip] enable_moved [OF ip] sema_down_moved [OF ip]
        sema_down_loop_moved [OF ip] acquired_moved [OF ip] donated_moved [OF ip] recalculate_moved [OF ip]
        lock_acquire_moved [OF ip] cond_broadcast_moved [OF ip] kernel_thread_moved [OF ip]
        idle_moved [OF ip] in \<open>simp_all add: p_def [symmetric]\<close>)
    then show ?thesis using pp(4) by (simp add: moved_def)
  qed
  moreover have "moved st st'" if "f = Idle_loop"
    using idle_loop_moved [OF i r(1)] r(2) e that by simp
  ultimately show ?thesis by blast
qed

lemma thread_exit_cases:
  assumes i: "sched_inv st" and e: "cur_stack st = []" and s: "thread_exit st = Some st'"
  obtains r st2 where "threads st (running st) = Some r"
    "st2 = put_thread (running st) (r\<lparr>status := THREAD_DYING\<rparr>) (intr_disable st)"
    "core st2" "schedule st2 = Some st'"
proof -
  have d: "sched_inv (intr_disable st)" using i by simp
  obtain r where r: "threads st (running st) = Some r" "stack r = cur_stack st" using running_thread [OF i] .
  have "schedule (put_thread (running st) (r\<lparr>status := THREAD_DYING\<rparr>) (intr_disable st)) = Some st'"
    using s r(1) d by (auto simp: thread_exit_def get_thread_def sched_inv_def panic_simps Let_def split: if_splits)
  moreover have "core (put_thread (running (intr_disable st)) (r\<lparr>status := THREAD_DYING\<rparr>) (intr_disable st))"
    by (rule exit_core [OF d]) (use r e in simp_all)
  ultimately show ?thesis using that [OF r(1) refl] by simp
qed

lemma thread_exit_moved:
  assumes "sched_inv st" "cur_stack st = []" "thread_exit st = Some st'"
  shows "moved st st'"
proof -
  obtain st2 where "core st2" "schedule st2 = Some st'" using thread_exit_cases [OF assms] .
  then show ?thesis using schedule_inv by (simp add: moved_def)
qed

lemma call_moved:
  assumes i: "sched_inv st" and e: "cur_stack st = []" and ok: "call_ok c st" and s: "do_call c st = Some st'"
  shows "moved st st'"
proof -
  have pc: "plain_cur st" using e by (simp add: plain_cur_def)
  show ?thesis
  proof (cases c)
    case (Call_sema_init n v)
    then show ?thesis using s i ok by (auto intro: view_moved sema_init_view)
  next
    case (Call_sema_try_down n)
    then show ?thesis using s i by (auto intro: view_moved sema_try_down_view)
  next
    case (Call_lock_try_acquire l)
    then show ?thesis using s try_acquire_moved [OF i] by auto
  next
    case (Call_create page p)
    then have "\<forall>t. page = Some t \<longrightarrow> threads st t = None" using ok by (simp add: fresh_page_def split: option.split_asm)
    then show ?thesis using thread_create_moved [OF i pc] s Call_create by simp
  next
    case (Call_start page n)
    then show ?thesis using thread_start_moved [OF i pc, of page n st'] s ok
      by (simp add: fresh_page_def split: option.split_asm)
  qed (use s ok sema_down_moved [OF i pc] sema_up_moved [OF i] lock_acquire_moved [OF i pc]
      lock_release_moved [OF i] cond_wait_moved [OF i pc] cond_signal_moved [OF i]
      cond_broadcast_moved [OF i pc] set_priority_moved [OF i _ e] thread_exit_moved [OF i e]
      timer_sleep_moved [OF i pc] enable_moved [OF i] thread_yield_inv [OF i] i in
      \<open>auto simp: moved_def\<close>)
qed

lemma step_moved:
  assumes "step st st'" "sched_inv st"
  shows "moved st st'"
  using assms by cases (auto intro: resume_moved call_moved intr_handler_moved simp: cur_stack_def)

lemma boot_inv: "sched_inv (boot main tails)"
  by (auto simp: sched_inv_def run_ok_def boot_def core_def lists_ok_def idle_ok_def thread_ok_def waits_on_def
      sleeps_def idle_stack_def split: if_splits)

lemma reachable_inv: "reachable st \<Longrightarrow> sched_inv st"
  by (induction rule: reachable.induct) (auto simp: boot_inv moved_def dest: step_moved)

end
