(* ===== verification/Lock_Inv.thy ===== *)
theory Lock_Inv
  imports Sched_Steps
begin

text \<open>
  Mutual exclusion of locks.  Every lock has one token.  It lies in the lock's semaphore while the
  lock is free, with the holder while the lock is held, and on the stack of a thread that has come
  through \<open>sema_down\<close> but has not yet recorded itself as the holder.  \<open>lock_inv\<close> says that there is
  exactly one token per lock, and the lemmas show that every step keeps it.
\<close>

section \<open>Tokens\<close>

fun tok :: "lock_ptr \<Rightarrow> frame \<Rightarrow> int" where
  "tok l (Acquired l') = (if l' = l then 1 else 0)"
| "tok l (Down s) = (if s = Lock_sema l then - 1 else 0)"
| "tok l (Sema_down_loop s) = (if s = Lock_sema l then - 1 else 0)"
| "tok l _ = 0"

definition tokens :: "lock_ptr \<Rightarrow> frame list \<Rightarrow> int" where
  "tokens l fs = sum_list (map (tok l) fs)"

definition neutral :: "frame \<Rightarrow> bool" where
  "neutral f \<longleftrightarrow> (\<forall>l. tok l f = 0)"

fun covered :: "frame list \<Rightarrow> bool" where
  "covered [] = True"
| "covered (f # fs) = (covered fs \<and> (\<forall>l. tokens l (f # fs) \<ge> 0))"

definition stack_of :: "kernel \<Rightarrow> thread_ptr \<Rightarrow> frame list" where
  "stack_of st t = (case threads st t of None \<Rightarrow> [] | Some r \<Rightarrow> stack r)"

datatype place = In_sema | In_holder | In_stack thread_ptr

fun amount :: "lock_ptr \<Rightarrow> kernel \<Rightarrow> place \<Rightarrow> int" where
  "amount l st In_sema = uint (semaval (semas st (Lock_sema l)))"
| "amount l st In_holder = (if holder st l = None then 0 else 1)"
| "amount l st (In_stack t) = tokens l (stack_of st t)"

definition one_token :: "lock_ptr \<Rightarrow> kernel \<Rightarrow> bool" where
  "one_token l st \<longleftrightarrow> (\<exists>p. amount l st = (\<lambda>q. if q = p then 1 else 0))"

definition lock_inv :: "kernel \<Rightarrow> bool" where
  "lock_inv st \<longleftrightarrow> (\<forall>t. covered (stack_of st t)) \<and> (\<forall>l. one_token l st)"

lemma tokens_simps [simp]:
  "tokens l [] = 0" "tokens l (f # fs) = tok l f + tokens l fs"
  "tokens l (fs @ gs) = tokens l fs + tokens l gs"
  by (simp_all add: tokens_def)

lemma neutralD [simp]: "neutral f \<Longrightarrow> tok l f = 0"
  by (simp add: neutral_def)

lemma neutral_frames [simp]:
  "neutral (Set_level b)" "neutral (Slept b)" "neutral Enable" "neutral (Down (Sema n))"
  "neutral (Sema_down_loop (Sema n))" "neutral (Donated t p)" "neutral Recalculate"
  "neutral (Cond_reacquire l)" "neutral (Broadcast c l)" "neutral (Create_tid t g)"
  "neutral (Create_run t g)" "neutral (Kernel_thread g)" "neutral (Idle_start s)"
  "neutral Idle_loop" "neutral Sti_hlt" "neutral Iret"
  by (simp_all add: neutral_def)

lemma not_neutral [simp]:
  "\<not> neutral (Acquired l)" "\<not> neutral (Down (Lock_sema l))" "\<not> neutral (Sema_down_loop (Lock_sema l))"
  by (auto simp: neutral_def intro!: exI [of _ l])

lemma neutral_app:
  assumes "list_all neutral gs"
  shows "tokens l (gs @ fs) = tokens l fs" "covered (gs @ fs) \<longleftrightarrow> covered fs"
proof -
  show t: "tokens l (gs @ fs) = tokens l fs" for l using assms by (induction gs) auto
  have "covered fs \<Longrightarrow> tokens l fs \<ge> 0" for l by (cases fs) auto
  then show "covered (gs @ fs) \<longleftrightarrow> covered fs" using assms t
    by (induction gs) (auto simp del: tokens_simps(3))
qed

lemma covered_nonneg: "covered fs \<Longrightarrow> tokens l fs \<ge> 0"
  by (cases fs) auto

text \<open>A step that moves one unit from one place to another moves the token.\<close>

lemma one_token_move:
  assumes o: "one_token l st" and ab: "a \<noteq> b" and nn: "0 \<le> amount l st' a" "0 \<le> amount l st b"
    and a: "amount l st' a = amount l st a - 1" and b: "amount l st' b = amount l st b + 1"
    and r: "\<And>q. q \<noteq> a \<Longrightarrow> q \<noteq> b \<Longrightarrow> amount l st' q = amount l st q"
  shows "one_token l st'"
proof -
  from o obtain p where p: "amount l st = (\<lambda>q. if q = p then 1 else 0)" by (auto simp: one_token_def)
  then have "p = a" using nn(1) a by (simp split: if_splits)
  then have "amount l st' q = (if q = b then 1 else 0)" for q using p a b r [of q] ab by auto
  then show ?thesis by (auto simp: one_token_def)
qed

lemma one_token_same: "one_token l st \<Longrightarrow> (\<And>q. amount l st' q = amount l st q) \<Longrightarrow> one_token l st'"
  unfolding one_token_def fun_eq_iff by simp

lemma holder_value:
  assumes "lock_inv st" "holder st l \<noteq> None"
  shows "semaval (semas st (Lock_sema l)) = 0" "tokens l (stack_of st t) = 0"
proof -
  from assms(1) obtain p where p: "amount l st = (\<lambda>q. if q = p then 1 else 0)"
    by (auto simp: lock_inv_def one_token_def)
  from fun_cong [OF p, of In_holder] assms(2) have "p = In_holder" by (simp split: if_splits)
  then show "semaval (semas st (Lock_sema l)) = 0" "tokens l (stack_of st t) = 0"
    using fun_cong [OF p, of In_sema] fun_cong [OF p, of "In_stack t"] by (simp_all add: uint_0_iff)
qed

section \<open>Operations that leave the tokens alone\<close>

definition keeps :: "kernel \<Rightarrow> kernel \<Rightarrow> bool" where
  "keeps st st' \<longleftrightarrow> (\<forall>l. semaval (semas st' (Lock_sema l)) = semaval (semas st (Lock_sema l))) \<and>
     holder st' = holder st \<and>
     (\<forall>t. \<exists>gs. stack_of st' t = gs @ stack_of st t \<and> list_all neutral gs)"

lemma keeps_stack:
  assumes "keeps st st'"
  obtains gs where "stack_of st' t = gs @ stack_of st t" "list_all neutral gs"
  using assms by (auto simp: keeps_def)

lemma keeps_amount:
  assumes "keeps st st'"
  shows "amount l st' q = amount l st q" "covered (stack_of st' t) \<longleftrightarrow> covered (stack_of st t)"
proof -
  have "\<exists>gs. stack_of st' t = gs @ stack_of st t \<and> list_all neutral gs" for t
    using assms by (simp add: keeps_def)
  then have "tokens l (stack_of st' t) = tokens l (stack_of st t)"
      "covered (stack_of st' t) \<longleftrightarrow> covered (stack_of st t)" for t
    by (metis neutral_app)+
  then show "amount l st' q = amount l st q" "covered (stack_of st' t) \<longleftrightarrow> covered (stack_of st t)"
    using assms by (cases q; simp add: keeps_def)+
qed

lemma keeps_lock_inv: "keeps st st' \<Longrightarrow> lock_inv st \<Longrightarrow> lock_inv st'"
  using keeps_amount one_token_same unfolding lock_inv_def by metis

lemma keeps_refl [simp]: "keeps st st"
  by (auto simp: keeps_def)

lemma keeps_trans [trans]:
  assumes "keeps a b" "keeps b c"
  shows "keeps a c"
proof -
  have "\<exists>gs. stack_of c t = gs @ stack_of a t \<and> list_all neutral gs" for t
  proof -
    obtain gs where "stack_of b t = gs @ stack_of a t" "list_all neutral gs" using keeps_stack [OF assms(1)] .
    moreover obtain hs where "stack_of c t = hs @ stack_of b t" "list_all neutral hs"
      using keeps_stack [OF assms(2)] .
    ultimately show ?thesis by (intro exI [of _ "hs @ gs"]) simp
  qed
  then show ?thesis using assms by (simp add: keeps_def)
qed

lemma keeps_same:
  assumes "threads st' = threads st" "holder st' = holder st"
    "\<And>l. semaval (semas st' (Lock_sema l)) = semaval (semas st (Lock_sema l))"
  shows "keeps st st'"
  using assms by (simp add: keeps_def stack_of_def)

lemma keeps_put: "threads st t = Some r \<Longrightarrow> stack r' = stack r \<Longrightarrow> keeps st (put_thread t r' st)"
  by (simp add: keeps_def stack_of_def)

lemma keeps_pushed: "run_ok st \<Longrightarrow> neutral f \<Longrightarrow> keeps st (pushed f st)"
  by (auto simp: keeps_def stack_of_def pushed_def run_ok_def cur_stack_def)

lemma keeps_disable [simp]: "keeps st (intr_disable st)"
  by (simp add: keeps_same intr_disable_def)

lemma keeps_level: "intr_set_level b st = Some st' \<Longrightarrow> keeps st st'"
  by (auto simp: intr_set_level_def intr_enable_def intr_disable_def intro!: keeps_same split: if_splits)

lemma keeps_push_disable: "run_ok st \<Longrightarrow> neutral f \<Longrightarrow> keeps st (intr_disable (pushed f st))"
  using keeps_trans [OF keeps_pushed keeps_disable] .

lemma keeps_set_value: "keeps st st' \<Longrightarrow> keeps (set_value s v st) (set_value s v st')"
  by (simp add: keeps_def set_value_def stack_of_def)

lemma schedule_keeps:
  assumes co: "core st" and s: "schedule st = Some st'"
  shows "keeps st st'"
proof -
  obtain n r st2 where r: "threads st n = Some r"
      and st2: "st2 = (put_thread n (r\<lparr>status := THREAD_RUNNING\<rparr>)
        (st\<lparr>ready_list := tl (ready_list st), running := n\<rparr>))\<lparr>thread_ticks := 0\<rparr>"
      and st': "st' = st2 \<or> (\<exists>p x. threads st2 p = Some x \<and> status x = THREAD_DYING \<and> p \<noteq> running st2 \<and>
        st' = st2\<lparr>threads := (threads st2)(p := None)\<rparr>)"
    using schedule_cases [OF s] .
  have k2: "keeps st st2" using r by (simp add: keeps_def stack_of_def st2)
  have "keeps st2 st'" if p: "threads st2 p = Some x" "status x = THREAD_DYING"
    "st' = st2\<lparr>threads := (threads st2)(p := None)\<rparr>" for p x
  proof -
    have "threads st p = Some x" using p(1,2) by (auto simp: st2 split: if_splits)
    then have "stack x = []" using coreD(3) [OF co] p(2) by (auto simp: thread_ok_def)
    then show ?thesis using p by (simp add: keeps_def stack_of_def)
  qed
  then show ?thesis using st' k2 keeps_trans by blast
qed

lemma keeps_fields [simp]:
  "keeps st (st\<lparr>intr_on := b\<rparr>)" "keeps st (st\<lparr>cond_waiters := c\<rparr>)" "keeps st (st\<lparr>idle_thread := i\<rparr>)"
  "keeps st (st\<lparr>next_tid := n\<rparr>)" "keeps st (st\<lparr>in_external_intr := b\<rparr>)" "keeps st (st\<lparr>waiting_list := ts\<rparr>)"
  "keeps st (st\<lparr>timer_count := x\<rparr>)" "keeps st (st\<lparr>ready_list := ts\<rparr>)" "keeps st (set_waiters s ts st)"
  "keeps st (sema_init (Sema k) v st)" "keeps st (set_value (Sema k) v st)"
  by (auto intro!: keeps_same simp: set_waiters_def sema_init_def set_value_def)

lemma thread_yield_keeps:
  assumes i: "sched_inv st" and y: "thread_yield st = Some st'"
  shows "keeps st st'"
proof -
  have ro: "run_ok st" using i by (simp add: sched_inv_def)
  obtain r st2 rl where r: "threads (pushed (Set_level (intr_on st)) st) (running st) = Some r"
      and st2: "st2 = put_thread (running st) (r\<lparr>status := THREAD_READY\<rparr>)
        (intr_disable (pushed (Set_level (intr_on st)) st)\<lparr>ready_list := rl\<rparr>)"
      and s: "core st2" "schedule st2 = Some st'"
    using thread_yield_cases [OF i y] .
  have "keeps (pushed (Set_level (intr_on st)) st) st2"
    using r by (simp add: st2 keeps_def stack_of_def)
  from keeps_trans [OF keeps_trans [OF keeps_pushed [OF ro] this] schedule_keeps [OF s]] show ?thesis by simp
qed

lemma specific_keeps:
  assumes i: "sched_inv st" and s: "specific_thread_set_priority p t st = Some st'"
  shows "keeps st st'"
proof -
  obtain r st1 rl where r: "threads st t = Some r"
      and st1: "st1 = put_thread t (r\<lparr>priority := p\<rparr>) (intr_disable st)\<lparr>ready_list := rl\<rparr>"
      and si: "sched_inv st1"
      and c: "st' = st1 \<or> st' = pushed (Set_level (intr_on st)) st1 \<or>
        thread_yield (pushed (Set_level (intr_on st)) st1) = Some st'"
    using specific_set_priority_cases [OF i s] .
  let ?u = "pushed (Set_level (intr_on st)) st1"
  have k1: "keeps st st1" using r by (simp add: st1 keeps_def stack_of_def)
  have ku: "keeps st1 ?u" using si by (intro keeps_pushed) (simp_all add: sched_inv_def)
  have "sched_inv ?u" using si by (simp add: pushed_idle_frame)
  from c thread_yield_keeps [OF this] k1 ku show ?thesis by (meson keeps_trans)
qed

lemma recalculate_keeps:
  assumes i: "sched_inv st" and s: "recalculate_priority st = Some st'"
  shows "keeps st st'"
proof -
  obtain p t b where sp: "specific_thread_set_priority p t (st\<lparr>intr_on := b\<rparr>) = Some st'"
    using recalculate_cases [OF i s] .
  have "sched_inv (st\<lparr>intr_on := b\<rparr>)" using i by simp
  from keeps_trans [OF _ specific_keeps [OF this sp]] show ?thesis by simp
qed

lemma unblock_keeps: "thread_unblock t st = Some st' \<Longrightarrow> keeps st st'"
  by (elim thread_unblock_cases) (simp add: keeps_def stack_of_def)

lemma sema_wake_keeps:
  assumes "sema_wake s st = Some st'"
  shows "keeps st st'"
proof (cases "waiters (semas st s) = []")
  case False
  then obtain t ws vs where "thread_unblock t (set_waiters s ws (set_waiters s vs st)) = Some st' \<or>
      thread_unblock t (set_waiters s ws st) = Some st'"
    using assms by (auto simp: sema_wake_def Let_def split: if_splits)
  then show ?thesis using keeps_trans [OF keeps_trans [OF keeps_fields(9) keeps_fields(9)] unblock_keeps]
      keeps_trans [OF keeps_fields(9) unblock_keeps] by blast
qed (use assms in \<open>simp add: sema_wake_def\<close>)

lemma wake_loop_keeps: "wake_loop ts st = Some st' \<Longrightarrow> keeps st st'"
proof (induction ts arbitrary: st)
  case (Cons t ts)
  show ?case
  proof (cases "wakeup_due st t")
    case True
    with Cons.prems obtain st1 where "thread_unblock t (st\<lparr>waiting_list := ts\<rparr>) = Some st1" "wake_loop ts st1 = Some st'"
      by (auto simp: panic_simps)
    with keeps_trans [OF keeps_trans [OF keeps_fields(6) unblock_keeps] Cons.IH] show ?thesis by blast
  qed (use Cons.prems in simp)
qed simp

lemma sema_wake_value:
  assumes "sema_wake s st = Some st'"
  shows "semaval (semas st' x) = semaval (semas st x)"
proof (cases "waiters (semas st s) = []")
  case False
  have u: "semaval (semas b x) = semaval (semas a x)" if "thread_unblock t a = Some b" for t a b
    using that by (elim thread_unblock_cases) simp
  from False obtain t ws vs where "thread_unblock t (set_waiters s ws (set_waiters s vs st)) = Some st' \<or>
      thread_unblock t (set_waiters s ws st) = Some st'"
    using assms by (auto simp: sema_wake_def Let_def split: if_splits)
  then show ?thesis using u by fastforce
qed (use assms in \<open>simp add: sema_wake_def\<close>)

text \<open>\<open>sema_up\<close> adds one to the value of its semaphore and does nothing else to the tokens.\<close>

lemma sema_up_keeps:
  assumes i: "sched_inv st" and s: "sema_up s st = Some st'"
  shows "keeps (set_value s (semaval (semas st s) + 1) st) st'"
proof -
  let ?p = "intr_disable (pushed (Set_level (intr_on st)) st)"
  have ro: "run_ok st" using i by (simp add: sched_inv_def)
  with s obtain st1 where w: "sema_wake s ?p = Some st1"
      and rc: "recalculate_priority (set_value s (semaval (semas st1 s) + 1) st1) = Some st'"
    by (auto simp: sema_up_def panic_simps Let_def)
  have ip: "sched_inv ?p" using i by (simp add: pushed_idle_frame)
  from sema_wake_inv [OF this w] have i1: "sched_inv st1" by auto
  have v: "semaval (semas st1 s) = semaval (semas st s)"
    using sema_wake_value [OF w] by simp
  have k: "keeps st st1" using keeps_trans [OF keeps_push_disable [OF ro] sema_wake_keeps [OF w]] by simp
  have "sched_inv (set_value s (semaval (semas st1 s) + 1) st1)" using i1 by simp
  from keeps_trans [OF keeps_set_value [OF k] recalculate_keeps [OF this rc, unfolded v]] show ?thesis .
qed

section \<open>Operations that move a token\<close>

lemma sema_down_loop_keeps:
  assumes i: "sched_inv st" and pc: "plain_cur st" and v: "semaval (semas st s) = 0"
    and d: "sema_down_loop s st = Some st'"
  shows "keeps (pushed (Sema_down_loop s) st) st'"
proof -
  let ?w = "set_waiters s (waiters (semas st s) @ [running st]) st"
  have "run_ok ?w" "run_ok st" using i by (auto simp: run_ok_def sched_inv_def)
  with d v have b: "thread_block (pushed (Sema_down_loop s) ?w) = Some st'"
    by (simp add: sema_down_loop_def Let_def)
  obtain r st2 where r: "threads st (running st) = Some r" and s2: "core st2" "schedule st2 = Some st'"
    and st2: "st2 = put_thread (running st) (r\<lparr>stack := Sema_down_loop s # stack r, status := THREAD_BLOCKED\<rparr>)
        (pushed (Sema_down_loop s) ?w)"
    using push_block_cases [OF i b sema_down_blocks_at [OF i pc]] .
  have "keeps (pushed (Sema_down_loop s) st) st2"
    using r by (simp add: keeps_def stack_of_def st2 pushed_def cur_stack_def)
  from keeps_trans [OF this schedule_keeps [OF s2]] show ?thesis .
qed

lemma stack_of_put [simp]: "stack_of (put_thread t r st) u = (if u = t then stack r else stack_of st u)"
  by (simp add: stack_of_def)

lemma stack_of_pushed [simp]:
  "run_ok st \<Longrightarrow> stack_of (pushed f st) u = (if u = running st then f # stack_of st u else stack_of st u)"
  by (auto simp: pushed_def stack_of_def cur_stack_def run_ok_def)

lemma set_value_sel [simp]:
  "stack_of (set_value s v st) = stack_of st" "holder (set_value s v st) = holder st"
  "semaval (semas (set_value s v st) s') = (if s' = s then v else semaval (semas st s'))"
  "running (set_value s v st) = running st"
  by (simp_all add: set_value_def stack_of_def fun_eq_iff)

lemma uint_pred:
  fixes v :: u32
  assumes "v \<noteq> 0"
  shows "uint (v - 1) = uint v - 1"
proof -
  have "uint v \<noteq> 0" using assms by (simp add: uint_0_iff)
  then have "1 \<le> uint v" using uint_ge_0 [of v] by linarith
  then show ?thesis by (simp add: uint_sub_if')
qed

lemma down_lock_inv:
  assumes li: "lock_inv st" and r: "threads st (running st) = Some r" and fs: "stack r = f # fs"
    and f: "\<And>k. tok k f = (if k = l then - 1 else 0)"
    and k: "keeps (put_thread (running st) (r\<lparr>stack := fs\<rparr>) st) q"
    and i: "sched_inv q" "plain_cur q" and rq: "running q = running st"
    and d: "sema_down_loop (Lock_sema l) q = Some st'"
  shows "lock_inv st' \<and> holder st' = holder st"
proof -
  let ?p = "put_thread (running st) (r\<lparr>stack := fs\<rparr>) st"
  have so: "stack_of st (running st) = f # fs" using r fs by (simp add: stack_of_def)
  have cov: "covered (stack_of st t)" and one: "one_token k st" for t k using li by (auto simp: lock_inv_def)
  have hq: "holder q = holder st" "semaval (semas q (Lock_sema k)) = semaval (semas st (Lock_sema k))" for k
    using k by (simp_all add: keeps_def)
  have tq: "tokens k (stack_of q t) = tokens k (stack_of ?p t)" "covered (stack_of q t) = covered (stack_of ?p t)" for k t
    using keeps_amount(1) [OF k, of k "In_stack t"] keeps_amount(2) [OF k, of t] by simp_all
  show ?thesis
  proof (cases "semaval (semas q (Lock_sema l)) = 0")
    case True
    note kd = sema_down_loop_keeps [OF i True d]
    have ro: "run_ok q" using i by (simp add: sched_inv_def)
    let ?u = "pushed (Sema_down_loop (Lock_sema l)) q"
    have tu: "tokens k (stack_of ?u t) = tokens k (stack_of st t)" for k t
      using ro so f [of k] by (simp add: rq tq)
    have "amount k ?u x = amount k st x" for k x using tu hq by (cases x) simp_all
    moreover have "covered (stack_of ?u t)" for t
    proof (cases "t = running st")
      case True
      have "covered (stack_of q t)" using cov [of "running st"] so by (simp add: tq True)
      moreover have "tokens k (stack_of ?u t) \<ge> 0" for k unfolding tu by (rule covered_nonneg [OF cov])
      ultimately show ?thesis using True ro rq by simp
    qed (use cov [of t] ro rq tq in simp)
    ultimately have "lock_inv ?u" using one one_token_same unfolding lock_inv_def by blast
    then show ?thesis using keeps_lock_inv [OF kd] kd hq by (simp add: keeps_def)
  next
    case False
    then have st': "st' = set_value (Lock_sema l) (semaval (semas q (Lock_sema l)) - 1) q"
      using d by (simp add: sema_down_loop_def)
    have t': "tokens k (stack_of st' t) = tokens k (stack_of st t) + (if t = running st \<and> k = l then 1 else 0)" for k t
      using so by (simp add: st' tq f)
    have nz: "semaval (semas st (Lock_sema l)) \<noteq> 0" using False hq by simp
    have "one_token k st'" for k
    proof (cases "k = l")
      case True
      show ?thesis unfolding True
      proof (rule one_token_move [OF one, of In_sema "In_stack (running st)"])
        show "amount l st' x = amount l st x" if "x \<noteq> In_sema" "x \<noteq> In_stack (running st)" for x
          using that t' hq by (cases x) (auto simp: st')
      qed (use covered_nonneg [OF cov] t' hq nz uint_ge_0 in \<open>auto simp: st' uint_pred [OF nz, symmetric]\<close>)
    next
      case False
      have "amount k st' x = amount k st x" for x using False t' hq by (cases x) (auto simp: st')
      then show ?thesis by (rule one_token_same [OF one])
    qed
    moreover have "covered (stack_of st' t)" for t using cov [of t] so by (auto simp: st' tq)
    ultimately show ?thesis using hq by (simp add: lock_inv_def st')
  qed
qed

lemma acquired_lock_inv:
  assumes li: "lock_inv st" and r: "threads st (running st) = Some r" and fs: "stack r = Acquired l # fs"
    and d: "lock_acquired l (put_thread (running st) (r\<lparr>stack := fs\<rparr>) st) = Some st'"
  shows "lock_inv st' \<and> holder st l = None \<and> holder st' = (holder st)(l := Some (running st))"
proof -
  have so: "stack_of st (running st) = Acquired l # fs" using r fs by (simp add: stack_of_def)
  have cov: "covered (stack_of st t)" and one: "one_token k st" for t k using li by (auto simp: lock_inv_def)
  have "covered fs" using cov [of "running st"] so by simp
  then have nn: "tokens k fs \<ge> 0" for k using covered_nonneg by blast
  have h: "holder st l = None"
  proof (rule ccontr)
    assume "holder st l \<noteq> None"
    from holder_value(2) [OF li this, of "running st"] so nn [of l] show False by simp
  qed
  have st': "holder st' = (holder st)(l := Some (running st))" "semas st' = semas st"
      "stack_of st' t = (if t = running st then fs else stack_of st t)" for t
    using d r by (auto simp: lock_acquired_def get_thread_def stack_of_def)
  have "one_token k st'" for k
  proof (cases "k = l")
    case True
    show ?thesis unfolding True
    proof (rule one_token_move [OF one, of "In_stack (running st)" In_holder])
      show "amount l st' x = amount l st x" if "x \<noteq> In_stack (running st)" "x \<noteq> In_holder" for x
        using that by (cases x) (auto simp: st')
    qed (use h nn [of l] so in \<open>auto simp: st'\<close>)
  next
    case False
    have "amount k st' x = amount k st x" for x using False so by (cases x) (auto simp: st')
    then show ?thesis by (rule one_token_same [OF one])
  qed
  moreover have "covered (stack_of st' t)" for t using cov [of t] so by (auto simp: st')
  ultimately show ?thesis using h by (simp add: lock_inv_def st')
qed

lemma release_lock_inv:
  assumes li: "lock_inv st" and i: "sched_inv st" and s: "lock_release l st = Some st'"
  shows "lock_inv st' \<and> holder st l = Some (running st) \<and> holder st' = (holder st)(l := None)"
proof -
  let ?p = "(intr_disable (pushed (Set_level (intr_on st)) st))\<lparr>holder := (holder st)(l := None)\<rparr>"
  have ro: "run_ok st" using i by (simp add: sched_inv_def)
  have p: "sched_inv ?p" using i by (simp add: pushed_idle_frame)
  obtain r where r: "threads ?p (running ?p) = Some r" using running_thread [OF p] .
  let ?r = "put_thread (running st) (r\<lparr>lock_own_list := remove1 l (lock_own_list r)\<rparr>) ?p"
  from s ro r have u: "sema_up (Lock_sema l) ?r = Some st'" and h: "holder st l = Some (running st)"
    by (auto simp: lock_release_def lock_held_by_current_thread_def get_thread_def panic_simps Let_def
        split: if_splits)
  have ir: "sched_inv ?r" by (rule inv_put [OF p]) (use r in auto)
  let ?v = "set_value (Lock_sema l) (semaval (semas ?r (Lock_sema l)) + 1) ?r"
  note k = sema_up_keeps [OF ir u]
  have v0: "semaval (semas st (Lock_sema l)) = 0" using holder_value(1) [OF li] h by simp
  have so: "stack_of ?v t = (if t = running st then [Set_level (intr_on st)] else []) @ stack_of st t" for t
    using r ro by (auto simp: stack_of_def pushed_def cur_stack_def run_ok_def)
  have cov: "covered (stack_of st t)" and one: "one_token x st" for t x using li by (auto simp: lock_inv_def)
  have tv: "tokens x (stack_of ?v t) = tokens x (stack_of st t)" for x t unfolding so by simp
  have "one_token x ?v" for x
  proof (cases "x = l")
    case True
    show ?thesis unfolding True
    proof (rule one_token_move [OF one, of In_holder In_sema])
      show "amount l ?v y = amount l st y" if "y \<noteq> In_holder" "y \<noteq> In_sema" for y
        using that tv by (cases y) (simp_all del: set_value_sel)
    qed (use h v0 in auto)
  next
    case False
    have "amount x ?v y = amount x st y" for y using False tv by (cases y) (simp_all del: set_value_sel(1))
    then show ?thesis by (rule one_token_same [OF one])
  qed
  moreover have "covered (stack_of ?v t)" for t
    using cov covered_nonneg [OF cov] unfolding so by simp
  ultimately have "lock_inv ?v" by (simp add: lock_inv_def)
  then show ?thesis using keeps_lock_inv [OF k] k h by (simp add: keeps_def)
qed

lemma donate_keeps:
  assumes i: "sched_inv st" and pc: "plain_cur st" and s: "lock_priority_donate l p st = Some st'"
  shows "keeps st st'"
proof -
  have ro: "run_ok st" using i by (simp add: sched_inv_def)
  with s obtain t where "st' = st \<or> specific_thread_set_priority p t (pushed (Donated t p) st) = Some st'"
    by (auto simp: lock_priority_donate_def panic_simps split: if_splits)
  moreover have "sched_inv (pushed (Donated t p) st)" by (rule pushed_plain [OF i pc]) auto
  moreover have "keeps st (pushed (Donated t p) st)" using ro by (intro keeps_pushed) auto
  ultimately show ?thesis by (metis keeps_refl specific_keeps keeps_trans)
qed

lemma acquire_lock_inv:
  assumes li: "lock_inv st" and i: "sched_inv st" and pc: "plain_cur st" and s: "lock_acquire l st = Some st'"
  shows "lock_inv st' \<and> holder st' = holder st"
proof -
  obtain q r x where q: "sched_inv q" "plain_cur q"
      "st' = q \<or> (\<exists>p. lock_priority_donate l p q = Some st')" and r: "threads st (running st) = Some r"
      and tq: "threads q = (threads st)(running st \<mapsto>
        r\<lparr>stack := [Down (Lock_sema l), Acquired l, Set_level (intr_on st)] @ stack r, plock_acq := x\<rparr>)"
      and qh: "holder q = holder st" "semas q = semas st"
    using lock_acquire_cases [OF i pc s] .
  have so: "stack_of q t = (if t = running st then [Down (Lock_sema l), Acquired l, Set_level (intr_on st)]
      else []) @ stack_of st t" for t
    using r tq by (simp add: stack_of_def)
  have cov: "covered (stack_of st t)" and one: "one_token x st" for t x using li by (auto simp: lock_inv_def)
  have tq: "tokens x (stack_of q t) = tokens x (stack_of st t)" for x t unfolding so by simp
  have "amount x q y = amount x st y" for x y using tq by (cases y) (simp_all add: qh)
  moreover have "covered (stack_of q t)" for t
    using cov covered_nonneg [OF cov] unfolding so by (auto simp: add_nonneg_nonneg)
  ultimately have lq: "lock_inv q" using one one_token_same unfolding lock_inv_def by blast
  from q(3) have k: "keeps q st'" using donate_keeps [OF q(1,2)] by auto
  from keeps_lock_inv [OF this lq] k show ?thesis by (simp add: keeps_def qh)
qed

lemma try_acquire_lock_inv:
  assumes li: "lock_inv st" and s: "lock_try_acquire l st = Some (b, st')"
  shows "lock_inv st' \<and> (holder st' = holder st \<or> holder st l = None \<and> holder st' = (holder st)(l := Some (running st)))"
proof -
  let ?v = "semaval (semas st (Lock_sema l))"
  from s obtain c where "st' = st\<lparr>intr_on := c\<rparr> \<or> ?v \<noteq> 0 \<and>
      st' = set_value (Lock_sema l) (?v - 1) st\<lparr>intr_on := c, holder := (holder st)(l := Some (running st))\<rparr>"
    by (auto simp: lock_try_acquire_def sema_try_down_def panic_simps Let_def intr_set_level_def
        intr_enable_def intr_disable_def set_value_def word_gt_0 split: if_splits)
  then show ?thesis
  proof
    assume "st' = st\<lparr>intr_on := c\<rparr>"
    then show ?thesis using keeps_lock_inv [OF keeps_fields(1)] li by simp
  next
    assume a: "?v \<noteq> 0 \<and>
      st' = set_value (Lock_sema l) (?v - 1) st\<lparr>intr_on := c, holder := (holder st)(l := Some (running st))\<rparr>"
    then have h: "holder st l = None" using holder_value(1) [OF li, of l] by blast
    have so: "stack_of st' = stack_of st" using a by (simp add: stack_of_def set_value_def fun_eq_iff)
    have one: "one_token x st" for x using li by (auto simp: lock_inv_def)
    have "one_token x st'" for x
    proof (cases "x = l")
      case True
      show ?thesis unfolding True
      proof (rule one_token_move [OF one, of In_sema In_holder])
        show "amount l st' y = amount l st y" if "y \<noteq> In_sema" "y \<noteq> In_holder" for y
          using that so by (cases y) simp_all
      qed (use a h uint_ge_0 in \<open>auto simp: uint_pred [symmetric]\<close>)
    next
      case False
      have "amount x st' y = amount x st y" for y using False so a by (cases y) (auto simp: set_value_def)
      then show ?thesis by (rule one_token_same [OF one])
    qed
    moreover have "covered (stack_of st' t)" for t using li by (simp add: lock_inv_def so)
    moreover have "holder st' = (holder st)(l := Some (running st))" using a by simp
    ultimately show ?thesis using h unfolding lock_inv_def by blast
  qed
qed

section \<open>Steps\<close>

definition locks_step :: "kernel \<Rightarrow> kernel \<Rightarrow> bool" where
  "locks_step st st' \<longleftrightarrow> lock_inv st' \<and>
     (\<forall>l t. holder st l = Some t \<longrightarrow> holder st' l = Some t \<or> holder st' l = None \<and> t = running st)"

lemma locks_stepI:
  assumes "lock_inv st' \<and> holder st' = h" "h = holder st \<or> (\<exists>l. h = (holder st)(l := None) \<and> holder st l = Some (running st)) \<or>
    (\<exists>l. holder st l = None \<and> h = (holder st)(l := Some (running st)))"
  shows "locks_step st st'"
  using assms by (auto simp: locks_step_def split: if_splits)

lemma keeps_locks_step:
  assumes "keeps st st'" "lock_inv st"
  shows "locks_step st st'"
proof -
  have "lock_inv st'" "holder st' = holder st" using keeps_lock_inv [OF assms] assms(1) by (simp_all add: keeps_def)
  then show ?thesis by (simp add: locks_step_def)
qed

lemma donated_keeps: "sched_inv st \<Longrightarrow> plain_cur st \<Longrightarrow> lock_donated t p st = Some st' \<Longrightarrow> keeps st st'"
  using donate_keeps by (auto simp: lock_donated_def panic_simps split: option.split_asm)

lemma sema_up_plain_keeps: "sched_inv st \<Longrightarrow> sema_up (Sema n) st = Some st' \<Longrightarrow> keeps st st'"
  using keeps_trans [OF keeps_fields(11) sema_up_keeps] .

lemma sema_down_loop_plain_keeps:
  assumes i: "sched_inv st" and pc: "plain_cur st" and d: "sema_down_loop (Sema n) st = Some st'"
  shows "keeps st st'"
proof (cases "semaval (semas st (Sema n)) = 0")
  case True
  have "run_ok st" using i by (simp add: sched_inv_def)
  then have "keeps st (pushed (Sema_down_loop (Sema n)) st)" by (rule keeps_pushed) simp
  from keeps_trans [OF this sema_down_loop_keeps [OF i pc True d]] show ?thesis .
next
  case False
  then have "st' = set_value (Sema n) (semaval (semas st (Sema n)) - 1) st" using d by (simp add: sema_down_loop_def)
  then show ?thesis by simp
qed

lemma sema_down_split:
  assumes i: "sched_inv st" and pc: "plain_cur st" and d: "sema_down s st = Some st'"
  obtains q where "keeps st q" "sched_inv q" "plain_cur q" "running q = running st" "sema_down_loop s q = Some st'"
proof -
  let ?p = "intr_disable (pushed (Set_level (intr_on st)) st)"
  have ro: "run_ok st" using i by (simp add: sched_inv_def)
  have "sched_inv ?p" "plain_cur ?p" using pushed_plain [OF i pc, of "Set_level (intr_on st)"]
    by (simp_all add: plain_cur_def)
  moreover have "keeps st ?p" by (rule keeps_push_disable [OF ro]) simp
  moreover have "sema_down_loop s ?p = Some st'" using d ro by (auto simp: sema_down_def Let_def)
  ultimately show ?thesis using that by simp
qed

lemma sema_down_plain_keeps:
  assumes "sched_inv st" "plain_cur st" "sema_down (Sema n) st = Some st'"
  shows "keeps st st'"
proof -
  obtain q where "keeps st q" "sched_inv q" "plain_cur q" "sema_down_loop (Sema n) q = Some st'"
    using sema_down_split [OF assms] .
  then show ?thesis using sema_down_loop_plain_keeps keeps_trans by blast
qed

lemma cond_signal_keeps:
  assumes i: "sched_inv st" and c: "cond_signal c l st = Some st'"
  shows "keeps st st'"
proof -
  from c obtain n h where "st' = st \<or> sema_up (Sema n) (st\<lparr>cond_waiters := h\<rparr>) = Some st'"
    by (auto simp: cond_signal_def panic_simps Let_def split: if_splits)
  moreover have "sched_inv (st\<lparr>cond_waiters := h\<rparr>)" using i by simp
  ultimately show ?thesis by (metis keeps_refl keeps_fields(2) sema_up_plain_keeps keeps_trans)
qed

lemma cond_broadcast_keeps:
  assumes i: "sched_inv st" and pc: "plain_cur st" and c: "cond_broadcast c l st = Some st'"
  shows "keeps st st'"
proof -
  let ?p = "pushed (Broadcast c l) st"
  have ro: "run_ok st" using i by (simp add: sched_inv_def)
  with c have "st' = st \<or> cond_signal c l ?p = Some st'" by (auto simp: cond_broadcast_def split: if_splits)
  moreover have "sched_inv ?p" by (rule pushed_plain [OF i pc]) auto
  moreover have "keeps st ?p" using ro by (intro keeps_pushed) auto
  ultimately show ?thesis by (metis keeps_refl cond_signal_keeps keeps_trans)
qed

lemma locks_step_after:
  assumes "keeps st p" "running p = running st" "locks_step p st'"
  shows "locks_step st st'"
  using assms by (simp add: locks_step_def keeps_def)

lemma release_locks_step: "lock_inv st \<Longrightarrow> sched_inv st \<Longrightarrow> lock_release l st = Some st' \<Longrightarrow> locks_step st st'"
  using release_lock_inv by (fastforce simp: locks_step_def)

lemma acquire_locks_step:
  "lock_inv st \<Longrightarrow> sched_inv st \<Longrightarrow> plain_cur st \<Longrightarrow> lock_acquire l st = Some st' \<Longrightarrow> locks_step st st'"
  using acquire_lock_inv by (fastforce simp: locks_step_def)

lemma cond_wait_locks_step:
  assumes li: "lock_inv st" and i: "sched_inv st" and pc: "plain_cur st"
    and w: "waiters (semas st (Sema n)) = []" and c: "cond_wait c l n st = Some st'"
  shows "locks_step st st'"
proof -
  let ?i = "sema_init (Sema n) 0 st"
  let ?c = "?i\<lparr>cond_waiters := (cond_waiters ?i)(c := cond_waiters ?i c @ [n])\<rparr>"
  have v: "same_view st ?c" using w by (simp add: same_view_def sema_init_def)
  have c1: "sched_inv ?c" "plain_cur ?c" using i pc same_view(3,5) [OF v] by (simp_all add: plain_cur_def)
  let ?q = "pushed (Cond_reacquire l) ?c"
  have q: "sched_inv ?q" "plain_cur ?q" by (rule pushed_plain [OF c1]; simp)+
  have q2: "sched_inv (pushed (Down (Sema n)) ?q)" by (rule pushed_plain [OF q]; simp)
  have ro: "run_ok ?c" "run_ok ?q" using c1 q by (simp_all add: sched_inv_def)
  with c have r: "lock_release l (pushed (Down (Sema n)) ?q) = Some st'"
    by (auto simp: cond_wait_def panic_simps Let_def split: if_splits)
  have k: "keeps st (pushed (Down (Sema n)) ?q)"
    using keeps_trans [OF keeps_trans [OF keeps_trans [OF keeps_fields(10) keeps_fields(2)] keeps_pushed [OF ro(1)]]
      keeps_pushed [OF ro(2)]] by simp
  from release_locks_step [OF keeps_lock_inv [OF k li] q2 r] same_view(6) [OF v] show ?thesis
    by (intro locks_step_after [OF k]) simp_all
qed

lemma init_thread_keeps:
  assumes n: "threads st t = None" and s: "init_thread t p st = Some st'"
  shows "keeps st st'"
proof -
  define r where "r = \<lparr>tid = 0, status = THREAD_BLOCKED, priority = p, wakeup_tick = 0,
    lock_own_list = [], plock_acq = None, origin_priority = p,
    tparent = (if is_thread (running st) st then running st else t), user_pagedir = False, stack = []\<rparr>"
  from s obtain q where q: "threads (put_thread t r st) (initial_thread st) = Some q"
      and st': "st' = put_thread (initial_thread st) (q\<lparr>wakeup_tick := 0\<rparr>) (put_thread t r st)"
    by (auto simp: init_thread_def get_thread_def panic_simps Let_def r_def split: if_splits)
  have "stack r = []" by (simp add: r_def)
  then have "keeps st (put_thread t r st)" using n by (simp add: keeps_def stack_of_def)
  from keeps_trans [OF this keeps_put [OF q]] show ?thesis by (simp add: st')
qed

lemma thread_create_locks_step:
  assumes li: "lock_inv st" and i: "sched_inv st" and pc: "plain_cur st"
    and n: "\<forall>t. page = Some t \<longrightarrow> threads st t = None" and s: "thread_create page p f st = Some st'"
  shows "locks_step st st'"
proof (cases page)
  case None
  then show ?thesis using s li keeps_locks_step [OF keeps_refl] by (simp add: thread_create_def)
next
  case (Some t)
  then have nt: "threads st t = None" and c: "thread_create (Some t) p f st = Some st'" using n s by simp_all
  obtain st1 st2 where 1: "init_thread t p st = Some st1" "sched_inv st1" "running st1 = running st"
      and st2: "st2 = pushed (Create_tid t f) st1" and 2: "sched_inv st2" "plain_cur st2"
      and a: "lock_acquire tid_lock st2 = Some st'"
    using thread_create_cases [OF i pc nt c] .
  have "keeps st1 st2" unfolding st2 using 1(2) by (intro keeps_pushed) (simp_all add: sched_inv_def)
  then have k: "keeps st st2" using keeps_trans [OF init_thread_keeps [OF nt 1(1)]] by blast
  from acquire_locks_step [OF keeps_lock_inv [OF k li] 2 a] show ?thesis
    by (intro locks_step_after [OF k]) (simp_all add: st2 1(3))
qed

lemma create_tid_locks_step:
  assumes li: "lock_inv st" and a: "sched_inv st" "plain_cur st" "child_ok st (running st) t"
    "t \<notin> set (creating (cur_stack st))" "create_tid t f st = Some st'"
  shows "locks_step st st'"
proof -
  obtain r p q where r: "threads st t = Some r"
      and p: "p = put_thread t (r\<lparr>tid := next_tid st\<rparr>) (st\<lparr>next_tid := next_tid st + 1\<rparr>)" "run_ok p"
      and q: "q = pushed (Create_run t f) p" "sched_inv q" "lock_release tid_lock q = Some st'"
    using create_tid_cases [OF a] .
  have "keeps st p" using r by (simp add: p(1) keeps_def stack_of_def)
  moreover have "keeps p q" unfolding q(1) by (rule keeps_pushed [OF p(2)]) simp
  ultimately have k: "keeps st q" using keeps_trans by blast
  from release_locks_step [OF keeps_lock_inv [OF k li] q(2,3)] show ?thesis
    by (intro locks_step_after [OF k]) (simp_all add: q(1) p(1))
qed

lemma create_run_keeps:
  assumes "sched_inv st" "child_ok st (running st) t" "t \<notin> set (creating (cur_stack st))"
    "create_run t f st = Some st'"
  shows "keeps st st'"
proof -
  obtain r st1 p where r: "threads st t = Some r" "stack r = []"
      and st1: "threads st1 = (threads st)(t \<mapsto> r\<lparr>stack := [Kernel_thread f], status := THREAD_READY\<rparr>)"
      "holder st1 = holder st" "semas st1 = semas st" "sched_inv st1"
      and sp: "specific_thread_set_priority p (running st1) st1 = Some st'"
    using create_run_cases [OF assms] .
  have "keeps st st1" using r st1 by (simp add: keeps_def stack_of_def)
  from keeps_trans [OF this specific_keeps [OF st1(4) sp]] show ?thesis .
qed

lemma thread_start_locks_step:
  assumes li: "lock_inv st" and a: "sched_inv st" "plain_cur st"
    "\<forall>t. page = Some t \<longrightarrow> threads st t = None" "waiters (semas st (Sema n)) = []"
    "thread_start page n st = Some st'"
  shows "locks_step st st'"
proof -
  obtain a q where a: "a = sema_init (Sema n) 0 st" "sched_inv a"
      and q: "q = pushed Enable (pushed (Down (Sema n)) a)" "running q = running st" "sched_inv q" "plain_cur q"
        "\<forall>t. page = Some t \<longrightarrow> threads q t = None"
      and c: "thread_create page PRI_MIN (Idle n) q = Some st'"
    using thread_start_cases [OF a] .
  have ro: "run_ok a" using a(2) by (simp add: sched_inv_def)
  have "keeps a q" unfolding q(1)
    using keeps_trans [OF keeps_pushed [OF ro] keeps_pushed [OF pushed_run_ok [OF ro]]] by simp
  moreover have "keeps st a" by (simp add: a(1))
  ultimately have k: "keeps st q" using keeps_trans by blast
  from thread_create_locks_step [OF keeps_lock_inv [OF k li] q(3,4,5) c] show ?thesis
    by (rule locks_step_after [OF k q(2)])
qed

lemma idle_keeps:
  assumes "sched_inv st" "list_all idle_frame (cur_stack st)" "idle n st = Some st'"
  shows "keeps st st'"
proof -
  obtain j q where j: "j = st\<lparr>idle_thread := Some (running st)\<rparr>" "run_ok j"
      and q: "q = pushed Idle_loop j" "sched_inv q" "sema_up (Sema n) q = Some st'"
    using idle_cases [OF assms] .
  have "keeps st q" unfolding q(1) j(1)
    using keeps_trans [OF keeps_fields(3) keeps_pushed [OF j(2) [unfolded j(1)]]] by simp
  from keeps_trans [OF this sema_up_plain_keeps [OF q(2,3)]] show ?thesis .
qed

lemma timer_sleep_keeps:
  assumes "sched_inv st" "plain_cur st" "timer_sleep n st = Some st'"
  shows "keeps st st'"
proof -
  obtain r st2 where r: "threads st (running st) = Some r" and s: "core st2" "schedule st2 = Some st'"
    and st2: "threads st2 = (threads st)(running st \<mapsto> r\<lparr>wakeup_tick := ucast (timer_ticks st + n),
      stack := Slept (intr_on st) # stack r, status := THREAD_BLOCKED\<rparr>)"
    "holder st2 = holder st" "semas st2 = semas st"
    using timer_sleep_cases [OF assms] .
  have "keeps st st2" using r st2 by (simp add: keeps_def stack_of_def)
  from keeps_trans [OF this schedule_keeps [OF s]] show ?thesis .
qed

lemma thread_tick_keeps:
  assumes "thread_tick st = Some st'"
  shows "keeps st st'"
proof -
  have v: "keeps st a \<Longrightarrow> intr_yield_on_return a = Some b \<Longrightarrow> keeps st b" for a b
    by (auto simp: intr_yield_on_return_def keeps_def stack_of_def)
  have w: "keeps st ((if c then st\<lparr>idle_ticks := x\<rparr> else if d then st\<lparr>user_ticks := y\<rparr>
      else st\<lparr>kernel_ticks := z\<rparr>)\<lparr>thread_ticks := n\<rparr>)" for c d x y z n
    by (rule keeps_same) simp_all
  show ?thesis using thread_tick_cases [OF assms] v w by metis
qed

lemma intr_handler_keeps:
  assumes i: "sched_inv st" and s: "intr_handler st = Some st'"
  shows "keeps st st'"
proof -
  obtain p st1 where p: "p = (intr_disable (pushed Iret st))\<lparr>in_external_intr := True, yield_on_return := False\<rparr>"
      "sched_inv p" and t: "timer_interrupt p = Some st1" and i1: "sched_inv st1"
      and y: "st' = st1\<lparr>in_external_intr := False\<rparr> \<or> thread_yield (st1\<lparr>in_external_intr := False\<rparr>) = Some st'"
    using intr_handler_cases [OF assms] .
  have ro: "run_ok st" using i by (simp add: sched_inv_def)
  have k0: "keeps st p" unfolding p(1)
    by (rule keeps_trans [OF keeps_push_disable [OF ro, of Iret]]) (simp_all add: keeps_same)
  from t obtain a where "thread_tick (p\<lparr>timer_count := timer_count p + 1\<rparr>) = Some a" "wake_loop (waiting_list a) a = Some st1"
    by (auto simp: timer_interrupt_def panic_simps)
  then have k1: "keeps p st1" using keeps_trans [OF keeps_fields(7) keeps_trans [OF thread_tick_keeps wake_loop_keeps]]
    by blast
  have "sched_inv (st1\<lparr>in_external_intr := False\<rparr>)" using i1 by simp
  with y have "keeps st1 st'" by (metis keeps_fields(5) thread_yield_keeps keeps_trans)
  then show ?thesis using k0 k1 keeps_trans by blast
qed

lemma idle_loop_keeps:
  assumes "sched_inv st" "threads st (running st) = Some r" "stack r = Idle_loop # fs"
    "idle_loop (put_thread (running st) (r\<lparr>stack := fs\<rparr>) st) = Some st'"
  shows "keeps st st'"
proof -
  obtain st2 where s: "core st2" "schedule st2 = Some st'"
      and st2: "holder st2 = holder st" "semas st2 = semas st"
        "threads st2 = (threads st)(running st \<mapsto> r\<lparr>stack := Sti_hlt # stack r, status := THREAD_BLOCKED\<rparr>)"
    using idle_loop_cases [OF assms] .
  have "keeps st st2" using assms(2) st2 by (simp add: keeps_def stack_of_def)
  from keeps_trans [OF this schedule_keeps [OF s]] show ?thesis .
qed

lemma thread_exit_keeps:
  assumes "sched_inv st" "cur_stack st = []" "thread_exit st = Some st'"
  shows "keeps st st'"
proof -
  obtain r st2 where r: "threads st (running st) = Some r"
      and st2: "st2 = put_thread (running st) (r\<lparr>status := THREAD_DYING\<rparr>) (intr_disable st)"
      and s: "core st2" "schedule st2 = Some st'"
    using thread_exit_cases [OF assms] .
  have "keeps st st2" using r by (simp add: st2 keeps_def stack_of_def)
  from keeps_trans [OF this schedule_keeps [OF s]] show ?thesis .
qed

lemma set_priority_keeps:
  assumes i: "sched_inv st" and s: "thread_set_priority p st = Some st'" and e: "cur_stack st = []"
  shows "keeps st st'"
proof -
  obtain st2 where "keeps st st2" "sched_inv st2" "specific_thread_set_priority p (running st) st2 = Some st'"
  proof -
    obtain r st1 where r: "threads st (running st) = Some r"
        and l: "intr_set_level (intr_on st) (put_thread (running st) (r\<lparr>origin_priority := p\<rparr>) (intr_disable st)) = Some st1"
        and 1: "sched_inv st1" "run_ok st1" "sched_inv (pushed Recalculate st1)"
        and sp: "specific_thread_set_priority p (running st) (pushed Recalculate st1) = Some st'"
      using set_priority_cases [OF i s e] .
    have "keeps st (put_thread (running st) (r\<lparr>origin_priority := p\<rparr>) (intr_disable st))"
      using r by (simp add: keeps_def stack_of_def)
    then have "keeps st (pushed Recalculate st1)"
      using keeps_trans [OF keeps_trans [OF _ keeps_level [OF l]] keeps_pushed [OF 1(2)]] by simp
    with that 1 sp show ?thesis by blast
  qed
  then show ?thesis using specific_keeps keeps_trans by blast
qed

lemma pop_amount:
  assumes "threads st (running st) = Some r" "stack r = f # fs" "neutral f"
  shows "lock_inv (put_thread (running st) (r\<lparr>stack := fs\<rparr>) st) = lock_inv st"
proof -
  let ?p = "put_thread (running st) (r\<lparr>stack := fs\<rparr>) st"
  have so: "stack_of st (running st) = f # fs" using assms by (simp add: stack_of_def)
  have "keeps ?p st" using so assms(3) by (auto simp: keeps_def)
  then have "covered (stack_of ?p t) = covered (stack_of st t)" "amount l ?p q = amount l st q" for t l q
    using keeps_amount by metis+
  then show ?thesis using one_token_same unfolding lock_inv_def by metis
qed

lemma neutral_exec_locks_step:
  assumes li: "lock_inv p" and ip: "sched_inv p" and e: "exec f p = Some st'" and f: "f \<noteq> Idle_loop" "neutral f"
    and pc: "\<not> idle_frame f \<Longrightarrow> plain_cur p" and bf: "base_frame f \<Longrightarrow> list_all idle_frame (cur_stack p)"
    and ch: "\<And>t. creating [f] = [t] \<Longrightarrow> child_ok p (running p) t \<and> t \<notin> set (creating (cur_stack p))"
  shows "locks_step p st'"
proof -
  note k = keeps_locks_step [OF _ li]
  show ?thesis
  proof (cases f)
    case (Down s)
    then obtain n where "s = Sema n" using f by (cases s) auto
    then show ?thesis using Down e pc sema_down_plain_keeps [OF ip] by (auto intro: k)
  next
    case (Sema_down_loop s)
    then obtain n where "s = Sema n" using f by (cases s) auto
    then show ?thesis using Sema_down_loop e pc sema_down_loop_plain_keeps [OF ip] by (auto intro: k)
  next
    case (Acquired l)
    then show ?thesis using f by simp
  next
    case (Create_tid t g)
    then show ?thesis using e pc ch [of t] create_tid_locks_step [OF li ip] by auto
  next
    case (Create_run t g)
    then show ?thesis using e ch [of t] create_run_keeps [OF ip] by (auto intro: k)
  next
    case (Kernel_thread g)
    have "run_ok (p\<lparr>intr_on := True\<rparr>)" using ip by (simp add: sched_inv_def)
    then have "keeps (p\<lparr>intr_on := True\<rparr>) st'" using Kernel_thread e
      by (auto simp: kernel_thread_def intr_enable_def intro!: keeps_pushed split: thread_func.splits)
    then show ?thesis using keeps_trans [OF keeps_fields(1)] by (blast intro: k)
  next
    case Enable
    then show ?thesis using e keeps_level [of True p] by (auto intro: k simp: intr_set_level_def)
  next
    case (Cond_reacquire l)
    then show ?thesis using e pc acquire_locks_step [OF li ip] by auto
  qed (use e f pc bf keeps_level [of _ p] donated_keeps [OF ip] recalculate_keeps [OF ip]
      cond_broadcast_keeps [OF ip] idle_keeps [OF ip] in \<open>auto intro!: k\<close>)
qed

lemma resume_locks_step:
  assumes li: "lock_inv st" and i: "sched_inv st" and s: "resume st = Some st'"
  shows "locks_step st st'"
proof -
  from s obtain r f fs where r: "threads st (running st) = Some r" "stack r = f # fs"
      and e: "exec f (put_thread (running st) (r\<lparr>stack := fs\<rparr>) st) = Some st'"
    by (rule resume_cases)
  define p where "p = put_thread (running st) (r\<lparr>stack := fs\<rparr>) st"
  note pp = popped [OF i r, folded p_def] and e = e [folded p_def]
  have hp: "holder p = holder st" by (simp add: p_def)
  consider "f = Idle_loop" | l where "f = Acquired l" | l where "f = Down (Lock_sema l)"
    | l where "f = Sema_down_loop (Lock_sema l)" | "f \<noteq> Idle_loop" "neutral f"
    by (cases f) (auto, (metis sema_ptr.exhaust neutral_frames(4,5))+)
  then show ?thesis
  proof cases
    case 1
    then show ?thesis using idle_loop_keeps [OF i r(1)] r(2) e keeps_locks_step [OF _ li] by (simp add: p_def)
  next
    case (2 l)
    then show ?thesis using acquired_lock_inv [OF li r(1)] r(2) e by (intro locks_stepI) (auto simp: p_def)
  next
    case (3 l)
    then have ip: "sched_inv p" "plain_cur p" and d: "sema_down (Lock_sema l) p = Some st'" using pp e by auto
    obtain q where "keeps p q" "sched_inv q" "plain_cur q" "running q = running p" "sema_down_loop (Lock_sema l) q = Some st'"
      using sema_down_split [OF ip d] .
    then show ?thesis using down_lock_inv [OF li r, of l q] 3 pp(4) by (intro locks_stepI) (auto simp: p_def)
  next
    case (4 l)
    then have ip: "sched_inv p" "plain_cur p" and d: "sema_down_loop (Lock_sema l) p = Some st'" using pp e by auto
    then show ?thesis using down_lock_inv [OF li r, of l p] 4 pp(4) by (intro locks_stepI) (auto simp: p_def)
  next
    case 5
    have lp: "lock_inv p" using pop_amount [OF r 5(2)] li by (simp add: p_def)
    have ip: "sched_inv p" using pp(1) 5 by simp
    have "locks_step p st'" using neutral_exec_locks_step [OF lp ip _ 5] pp(2,3,5) e by blast
    then show ?thesis using pp(4) hp by (simp add: locks_step_def)
  qed
qed

lemma call_locks_step:
  assumes li: "lock_inv st" and i: "sched_inv st" and e: "cur_stack st = []" and ok: "call_ok c st"
    and s: "do_call c st = Some st'"
  shows "locks_step st st'"
proof -
  note k = keeps_locks_step [OF _ li]
  have pc: "plain_cur st" using e by (simp add: plain_cur_def)
  show ?thesis
  proof (cases c)
    case (Call_sema_try_down n)
    have "keeps st st1" if "intr_set_level l (if b then set_value (Sema n) v (intr_disable st) else intr_disable st) = Some st1"
      for l b v st1
    proof -
      have "keeps st (if b then set_value (Sema n) v (intr_disable st) else intr_disable st)"
        using keeps_trans [OF keeps_disable keeps_fields(11)] by simp
      from keeps_trans [OF this keeps_level [OF that]] show ?thesis .
    qed
    then show ?thesis using s Call_sema_try_down
      by (auto intro!: k simp: sema_try_down_def panic_simps Let_def)
  next
    case (Call_lock_try_acquire l)
    then obtain b where "lock_try_acquire l st = Some (b, st')" using s by auto
    from try_acquire_lock_inv [OF li this] show ?thesis by (intro locks_stepI [of _ "holder st'"]) blast+
  next
    case (Call_create page p)
    then have "\<forall>t. page = Some t \<longrightarrow> threads st t = None" using ok by (simp add: fresh_page_def split: option.split_asm)
    then show ?thesis using thread_create_locks_step [OF li i pc] s Call_create by simp
  next
    case (Call_start page n)
    then show ?thesis using thread_start_locks_step [OF li i pc, of page n st'] s ok
      by (simp add: fresh_page_def split: option.split_asm)
  next
    case Call_enable
    then show ?thesis using s keeps_level [of True st] by (auto intro!: k simp: intr_set_level_def)
  qed (use s ok sema_down_plain_keeps [OF i pc] sema_up_plain_keeps [OF i] acquire_locks_step [OF li i pc]
      release_locks_step [OF li i] cond_wait_locks_step [OF li i pc] cond_signal_keeps [OF i]
      cond_broadcast_keeps [OF i pc] set_priority_keeps [OF i _ e] thread_exit_keeps [OF i e]
      timer_sleep_keeps [OF i pc] thread_yield_keeps [OF i] in \<open>auto intro: k\<close>)
qed

lemma step_locks:
  assumes "step st st'" "sched_inv st" "lock_inv st"
  shows "locks_step st st'"
  using assms
  by cases (auto intro: resume_locks_step call_locks_step keeps_locks_step intr_handler_keeps simp: cur_stack_def)

lemma boot_lock_inv: "lock_inv (boot main tails)"
proof -
  have s: "stack_of (boot main tails) t = []" for t by (simp add: stack_of_def boot_def)
  have "amount l (boot main tails) q = (if q = In_sema then 1 else 0)" for l q
    by (cases q) (simp_all add: s, simp_all add: boot_def)
  then show ?thesis unfolding lock_inv_def one_token_def using s by (metis covered.simps(1) ext)
qed

lemma reachable_lock_inv: "reachable st \<Longrightarrow> lock_inv st"
  by (induction rule: reachable.induct) (auto simp: boot_lock_inv locks_step_def dest: step_locks reachable_inv)

end
