(* ===== verification/Sched.thy ===== *)
theory Sched
  imports Lock_Inv
begin

text \<open>
  What the scheduler guarantees in every reachable state, and the places where it does not do
  what its callers rely on.  The states are those of the step relation of \<open>Synch\<close>: any number of
  threads, any interleaving at the switch points, timer interrupts wherever interrupts are on.
\<close>

section \<open>Traces\<close>

text \<open>\<open>run_trace\<close> follows one interleaving: \<open>None\<close> resumes the running thread, \<open>Some c\<close> is a call.\<close>

fun run_trace :: "call option list \<Rightarrow> kernel \<Rightarrow> kernel option" where
  "run_trace [] st = Some st"
| "run_trace (None # as) st = Option.bind (resume st) (run_trace as)"
| "run_trace (Some c # as) st =
     (if is_thread (running st) st \<and> cur_stack st = [] \<and> call_ok c st
      then Option.bind (do_call c st) (run_trace as) else None)"

lemma run_trace_reachable:
  "reachable st \<Longrightarrow> run_trace as st = Some st' \<Longrightarrow> reachable st'"
proof (induction as arbitrary: st)
  case (Cons a as)
  from Cons.prems(2) obtain st1 where "step st st1" "run_trace as st1 = Some st'"
    by (cases a) (auto simp: panic_simps is_thread_def cur_stack_def split: if_splits intro: step.intros)
  then show ?case using Cons reach_step by blast
qed simp

text \<open>
  The example: the initial thread 7 takes lock 5 and creates thread 9 with priority 40, which
  preempts it and calls \<open>lock_acquire\<close> on the same lock.  It donates its priority, so that thread
  7 runs again.
\<close>

definition demo_trace :: "call option list" where
  "demo_trace = Some (Call_lock_acquire 5) # replicate 4 None @
     Some (Call_create (Some 9) 40) # replicate 9 None @ [Some (Call_lock_acquire 5)]"

definition demo_kernel :: kernel where
  "demo_kernel = the (run_trace demo_trace (boot 7 (\<lambda>_. 0xc0000000)))"

text \<open>The second example: thread 9 goes to sleep for one tick, and thread 7 enables interrupts.\<close>

definition sleep_trace :: "call option list" where
  "sleep_trace = Some (Call_create (Some 9) 40) # replicate 9 None @
     [Some (Call_sleep 1), None, None, Some Call_enable]"

definition sleep_kernel :: kernel where
  "sleep_kernel = the (run_trace sleep_trace (boot 7 (\<lambda>_. 0xc0000000)))"

lemma demo_reachable: "reachable demo_kernel"
proof -
  have "\<not> Option.is_none (run_trace demo_trace (boot 7 (\<lambda>_. 0xc0000000)))" by code_simp
  then obtain st where "run_trace demo_trace (boot 7 (\<lambda>_. 0xc0000000)) = Some st"
    by (auto simp: Option.is_none_def)
  then show ?thesis using run_trace_reachable [OF reach_boot] by (simp add: demo_kernel_def)
qed

lemma demo_facts:
  "running demo_kernel = 7" "ready_list demo_kernel = [9]" "prio demo_kernel 7 = 40"
  "holder demo_kernel 5 = Some 7" "\<not> Option.is_none (resume demo_kernel)"
  by code_simp+

lemma demo_step: "step demo_kernel (the (resume demo_kernel))"
proof -
  obtain st where "resume demo_kernel = Some st" using demo_facts(5) by (auto simp: Option.is_none_def)
  then show ?thesis using step_resume by simp
qed

section \<open>The timer\<close>

lemma wakeup_due_iff:
  "wakeup_due st t \<longleftrightarrow> sint (wakeup_tick (the (threads st t))) \<le> sint (timer_count st)"
proof -
  have "sint (scast w :: u64) = sint w" for w :: u32
    by (rule sint_up_scast) (simp add: is_up_def target_size source_size word_size)
  then show ?thesis by (simp add: wakeup_due_def word_sle_eq)
qed

definition woken :: "kernel \<Rightarrow> thread_ptr list \<Rightarrow> kernel \<Rightarrow> bool" where
  "woken st ts st' \<longleftrightarrow> timer_count st' = timer_count st \<and>
     (\<forall>t. wakeup_tick (the (threads st' t)) = wakeup_tick (the (threads st t))) \<and>
     waiting_list st' = dropWhile (wakeup_due st) ts \<and>
     (\<forall>t \<in> set (takeWhile (wakeup_due st) ts). \<exists>r. threads st' t = Some r \<and> status r = THREAD_READY) \<and>
     (\<forall>t r. threads st t = Some r \<longrightarrow> status r = THREAD_READY \<longrightarrow>
        (\<exists>r'. threads st' t = Some r' \<and> status r' = THREAD_READY))"

lemma wake_loop_woken:
  "waiting_list st = ts \<Longrightarrow> wake_loop ts st = Some st' \<Longrightarrow> woken st ts st'"
proof (induction ts arbitrary: st)
  case (Cons t ts)
  show ?case
  proof (cases "wakeup_due st t")
    case True
    with Cons.prems(2) obtain st1 where u: "thread_unblock t (st\<lparr>waiting_list := ts\<rparr>) = Some st1"
        and w: "wake_loop ts st1 = Some st'"
      by (auto simp: panic_simps)
    from u obtain r rl b where r: "threads st t = Some r"
        and st1: "st1 = put_thread t (r\<lparr>status := THREAD_READY\<rparr>) (st\<lparr>waiting_list := ts, ready_list := rl\<rparr>)\<lparr>intr_on := b\<rparr>"
      by (rule thread_unblock_cases) auto
    have d: "wakeup_due st1 = wakeup_due st" using r by (auto simp: wakeup_due_def st1 put_thread_def fun_eq_iff)
    have sel: "timer_count st1 = timer_count st" "threads st1 = (threads st)(t \<mapsto> r\<lparr>status := THREAD_READY\<rparr>)"
        "waiting_list st1 = ts"
      by (simp_all add: st1 put_thread_def)
    from Cons.IH [OF sel(3) w] have "woken st1 ts st'" .
    then show ?thesis using True r by (auto simp: woken_def d sel split: if_splits)
  qed (use Cons.prems in \<open>auto simp: woken_def\<close>)
qed (simp add: woken_def)

lemma schedule_ready:
  assumes s: "schedule st = Some st'"
  shows "waiting_list st' = waiting_list st"
    "threads st t = Some r \<Longrightarrow> status r = THREAD_READY \<Longrightarrow>
      \<exists>r'. threads st' t = Some r' \<and> status r' \<in> {THREAD_READY, THREAD_RUNNING}"
proof -
  obtain n q st2 where q: "threads st n = Some q"
      and st2: "st2 = (put_thread n (q\<lparr>status := THREAD_RUNNING\<rparr>)
        (st\<lparr>ready_list := tl (ready_list st), running := n\<rparr>))\<lparr>thread_ticks := 0\<rparr>"
      and st': "st' = st2 \<or> (\<exists>p x. threads st2 p = Some x \<and> status x = THREAD_DYING \<and> p \<noteq> running st2 \<and>
        st' = st2\<lparr>threads := (threads st2)(p := None)\<rparr>)"
    using schedule_cases [OF s] .
  have "waiting_list st2 = waiting_list st" by (simp add: st2)
  then show "waiting_list st' = waiting_list st" using st' by auto
  assume r: "threads st t = Some r" "status r = THREAD_READY"
  have "\<exists>r'. threads st2 t = Some r' \<and> status r' \<in> {THREAD_READY, THREAD_RUNNING}"
    using r by (auto simp: st2)
  then show "\<exists>r'. threads st' t = Some r' \<and> status r' \<in> {THREAD_READY, THREAD_RUNNING}" using st' by auto
qed

lemma thread_yield_waiting:
  assumes i: "sched_inv st" and y: "thread_yield st = Some st'"
  shows "waiting_list st' = waiting_list st"
    "threads st t = Some r \<Longrightarrow> status r = THREAD_READY \<Longrightarrow>
      \<exists>r'. threads st' t = Some r' \<and> status r' \<in> {THREAD_READY, THREAD_RUNNING}"
proof -
  obtain q st2 rl where q: "threads (pushed (Set_level (intr_on st)) st) (running st) = Some q"
      and st2: "st2 = put_thread (running st) (q\<lparr>status := THREAD_READY\<rparr>)
        (intr_disable (pushed (Set_level (intr_on st)) st)\<lparr>ready_list := rl\<rparr>)"
      and s: "schedule st2 = Some st'"
    using thread_yield_cases [OF i y] .
  show "waiting_list st' = waiting_list st" using schedule_ready(1) [OF s] by (simp add: st2)
  assume r: "threads st t = Some r" "status r = THREAD_READY"
  have "t \<noteq> running st" using r i by (auto simp: sched_inv_def run_ok_def)
  then have "threads st2 t = Some r" using r by (simp add: st2 pushed_def)
  from schedule_ready(2) [OF s this r(2)]
  show "\<exists>r'. threads st' t = Some r' \<and> status r' \<in> {THREAD_READY, THREAD_RUNNING}" .
qed

lemma thread_tick_count:
  assumes "thread_tick st = Some st'"
  shows "timer_count st' = timer_count st"
proof -
  have v: "intr_yield_on_return a = Some b \<Longrightarrow> timer_count b = timer_count a" for a b
    by (auto simp: intr_yield_on_return_def)
  have w: "timer_count ((if c then st\<lparr>idle_ticks := x\<rparr> else if d then st\<lparr>user_ticks := y\<rparr>
      else st\<lparr>kernel_ticks := z\<rparr>)\<lparr>thread_ticks := n\<rparr>) = timer_count st" for c d x y z n
    by simp
  obtain a where "timer_count a = timer_count st" "st' = a \<or> intr_yield_on_return a = Some st'"
    using thread_tick_cases [OF assms] w by metis
  then show ?thesis using v by auto
qed

definition sleep_over :: "kernel \<Rightarrow> thread_ptr \<Rightarrow> bool" where
  "sleep_over st t \<longleftrightarrow> sint (wakeup_tick (the (threads st t))) \<le> sint (timer_count st + 1)"

lemma dropWhile_sleepers:
  assumes "sorted_wrt (\<lambda>x y. \<not> less_wakeup_tick st y x) ts"
  shows "dropWhile (sleep_over st) ts = filter (\<lambda>t. \<not> sleep_over st t) ts"
  using assms
proof (induction ts)
  case (Cons t ts)
  have "filter (\<lambda>t. \<not> sleep_over st t) ts = ts" if "\<not> sleep_over st t"
    using that Cons.prems
    by (intro filter_True) (auto simp: sleep_over_def less_wakeup_tick_def word_sless_alt)
  then show ?case using Cons by auto
qed simp

lemma intr_handler_wakes:
  assumes i: "sched_inv st" and s: "intr_handler st = Some st'"
  shows "waiting_list st' = dropWhile (sleep_over st) (waiting_list st)"
    "t \<in> set (takeWhile (sleep_over st) (waiting_list st)) \<Longrightarrow>
      \<exists>r. threads st' t = Some r \<and> status r \<in> {THREAD_READY, THREAD_RUNNING}"
proof -
  obtain p st1 where p: "p = (intr_disable (pushed Iret st))\<lparr>in_external_intr := True, yield_on_return := False\<rparr>"
      and t: "timer_interrupt p = Some st1" and i1: "sched_inv st1"
      and y: "st' = st1\<lparr>in_external_intr := False\<rparr> \<or> thread_yield (st1\<lparr>in_external_intr := False\<rparr>) = Some st'"
    using intr_handler_cases [OF assms] .
  let ?c = "p\<lparr>timer_count := timer_count p + 1\<rparr>"
  from t obtain a where a: "thread_tick ?c = Some a" "wake_loop (waiting_list a) a = Some st1"
    by (auto simp: timer_interrupt_def panic_simps)
  have v: "same_view ?c a" using thread_tick_view [OF a(1)] .
  have tc: "timer_count a = timer_count st + 1"
    using thread_tick_count [OF a(1)] by (simp add: p pushed_def put_thread_def intr_disable_def)
  have d: "wakeup_due a = sleep_over st" using v
    by (auto simp: fun_eq_iff wakeup_due_iff sleep_over_def tc same_view_def p pushed_def put_thread_def)
  have w: "waiting_list a = waiting_list st" using v by (simp add: same_view_def p)
  have wk: "woken a (waiting_list st) st1" using wake_loop_woken [OF refl a(2)] by (simp add: w)
  have i2: "sched_inv (st1\<lparr>in_external_intr := False\<rparr>)" using i1 by simp
  show "waiting_list st' = dropWhile (sleep_over st) (waiting_list st)"
    using y thread_yield_waiting(1) [OF i2] wk by (auto simp: woken_def d)
  assume "t \<in> set (takeWhile (sleep_over st) (waiting_list st))"
  then obtain r where "threads st1 t = Some r" "status r = THREAD_READY" using wk by (auto simp: woken_def d)
  then show "\<exists>r. threads st' t = Some r \<and> status r \<in> {THREAD_READY, THREAD_RUNNING}"
    using y thread_yield_waiting(2) [OF i2, of st' t r] by auto
qed

section \<open>Properties\<close>

text \<open>
  C19. In every reachable state a thread is where its status says: it is the running thread, or on
  the ready list, or blocked at the point of \<open>sema_down\<close> or \<open>timer_sleep\<close> whose list it is on, and
  on no other list.  No list has duplicates or dead threads.
\<close>

theorem thread_lists_invariant:
  assumes "reachable st" "threads st t = Some r"
  shows "(status r = THREAD_RUNNING \<longleftrightarrow> t = running st) \<and>
    (t \<in> set (ready_list st) \<longrightarrow> status r = THREAD_READY) \<and>
    (status r = THREAD_READY \<longrightarrow> t \<in> set (ready_list st) \<or> Idle_loop \<in> set (stack r)) \<and>
    (\<forall>s. t \<in> set (waiters (semas st s)) \<longleftrightarrow>
      status r = THREAD_BLOCKED \<and> (\<exists>fs. stack r = Sema_down_loop s # fs)) \<and>
    (t \<in> set (waiting_list st) \<longleftrightarrow> status r = THREAD_BLOCKED \<and> (\<exists>b fs. stack r = Slept b # fs)) \<and>
    distinct (ready_list st) \<and> distinct (waiting_list st) \<and> (\<forall>s. distinct (waiters (semas st s))) \<and>
    set (ready_list st) \<union> set (waiting_list st) \<union> (\<Union>s. set (waiters (semas st s))) \<subseteq> dom (threads st)"
proof -
  have i: "sched_inv st" using reachable_inv [OF assms(1)] .
  then have co: "core st" by (simp add: sched_inv_def)
  obtain q where q: "threads st (running st) = Some q" "status q = THREAD_RUNNING" using running_thread [OF i] .
  have "status r = THREAD_RUNNING \<longleftrightarrow> t = running st"
    using coreD(3) [OF co assms(2)] q assms(2) by (auto simp: thread_ok_def)
  then show ?thesis using coreD(1) [OF co] coreD(3) [OF co assms(2)]
    unfolding thread_ok_def lists_ok_def waits_on_def sleeps_def by blast
qed

theorem thread_lists_invariant_witness:
  "status (the (threads demo_kernel 9)) = THREAD_READY \<and> 9 \<notin> set (waiters (semas demo_kernel (Lock_sema 5)))"
proof -
  have n: "\<not> Option.is_none (threads demo_kernel 9)" by code_simp
  then obtain r where r: "threads demo_kernel 9 = Some r" by (auto simp: Option.is_none_def)
  show ?thesis using thread_lists_invariant [OF demo_reachable r] r demo_facts(2) by auto
qed

text \<open>
  C21. The scheduler runs the thread of highest priority: the ready list is in decreasing order of
  priority in every reachable state, and a step that switches threads leaves no ready thread with
  a higher priority than the one it switched to.
\<close>

theorem scheduler_picks_highest:
  assumes "reachable st" "step st st'"
  shows "sorted_wrt (\<lambda>x y. prio st' x \<ge> prio st' y) (ready_list st') \<and>
    (running st' \<noteq> running st \<longrightarrow> (\<forall>t \<in> set (ready_list st'). prio st' t \<le> prio st' (running st')))"
  using step_moved [OF assms(2) reachable_inv [OF assms(1)]]
  by (auto simp: moved_def sched_inv_def core_def lists_ok_def top_prio_def)

theorem scheduler_picks_highest_witness:
  "let st' = the (resume demo_kernel)
   in sorted_wrt (\<lambda>x y. prio st' x \<ge> prio st' y) (ready_list st') \<and> ready_list st' = [9]"
proof -
  have "ready_list (the (resume demo_kernel)) = [9]" by code_simp
  with scheduler_picks_highest [OF demo_reachable demo_step] show ?thesis by (simp add: Let_def)
qed

text \<open>
  C20. Mutual exclusion: while a thread holds a lock the lock's semaphore is 0, and no step of the
  system takes the lock away from it or gives it to another thread; only the holder itself can end
  up without it, by releasing it.
\<close>

theorem lock_mutual_exclusion:
  assumes "reachable st" "step st st'" "holder st l = Some t"
  shows "semaval (semas st (Lock_sema l)) = 0 \<and>
    (holder st' l = Some t \<or> holder st' l = None \<and> t = running st)"
proof -
  have li: "lock_inv st" using reachable_lock_inv [OF assms(1)] .
  from step_locks [OF assms(2) reachable_inv [OF assms(1)] li] show ?thesis
    using holder_value(1) [OF li, of l] assms(3) by (auto simp: locks_step_def)
qed

theorem lock_mutual_exclusion_witness:
  "semaval (semas demo_kernel (Lock_sema 5)) = 0 \<and> holder (the (resume demo_kernel)) 5 = Some 7"
proof -
  have "holder (the (resume demo_kernel)) 5 \<noteq> None" by code_simp
  with lock_mutual_exclusion [OF demo_reachable demo_step demo_facts(4)] show ?thesis by auto
qed

text \<open>
  C22. The timer interrupt ends the sleep of exactly the threads at the front of the sleepers whose
  wake-up time has come: they are ready or already running afterwards, and the others stay on the
  list.  If the list is sorted by wake-up time, as \<open>timer_sleep\<close> keeps it, no thread that is due
  stays asleep.
\<close>

theorem timer_interrupt_wakes:
  assumes "reachable st" "intr_on st" "intr_handler st = Some st'"
  shows "waiting_list st' = dropWhile (sleep_over st) (waiting_list st) \<and>
    (\<forall>t \<in> set (takeWhile (sleep_over st) (waiting_list st)).
      \<exists>r. threads st' t = Some r \<and> status r \<in> {THREAD_READY, THREAD_RUNNING}) \<and>
    (sorted_wrt (\<lambda>x y. \<not> less_wakeup_tick st y x) (waiting_list st) \<longrightarrow>
      waiting_list st' = filter (\<lambda>t. \<not> sleep_over st t) (waiting_list st))"
  using intr_handler_wakes [OF reachable_inv [OF assms(1)] assms(3)] dropWhile_sleepers by auto

theorem timer_interrupt_wakes_witness:
  "waiting_list sleep_kernel = [9] \<and> waiting_list (the (intr_handler sleep_kernel)) = []"
proof -
  have "\<not> Option.is_none (run_trace sleep_trace (boot 7 (\<lambda>_. 0xc0000000)))" by code_simp
  then obtain st where "run_trace sleep_trace (boot 7 (\<lambda>_. 0xc0000000)) = Some st"
    by (auto simp: Option.is_none_def)
  then have r: "reachable sleep_kernel" using run_trace_reachable [OF reach_boot] by (simp add: sleep_kernel_def)
  have f: "waiting_list sleep_kernel = [9]" "intr_on sleep_kernel" "sleep_over sleep_kernel 9"
      "\<not> Option.is_none (intr_handler sleep_kernel)"
    by code_simp+
  from f(4) obtain st' where "intr_handler sleep_kernel = Some st'" by (auto simp: Option.is_none_def)
  with timer_interrupt_wakes [OF r f(2) this] f show ?thesis by simp
qed

text \<open>
  C23. An error path of \<open>thread_set_priority\<close>: when the calling thread is the only one that could
  run, so that the ready list is empty, the call returns with interrupts disabled although they
  were enabled before, because \<open>specific_thread_set_priority\<close> returns early without restoring the
  interrupt level.
\<close>

theorem set_priority_loses_interrupts:
  assumes "reachable st" "intr_on st" "\<not> in_external_intr st" "ready_list st = []"
    "threads st (running st) = Some r" "stack r = []" "lock_own_list r = []"
  shows "\<exists>st1 st2 r2. thread_set_priority p st = Some st1 \<and> resume st1 = Some st2 \<and>
    running st2 = running st \<and> threads st2 (running st2) = Some r2 \<and> stack r2 = [] \<and> priority r2 = p \<and>
    \<not> intr_on st2"
proof -
  have s: "status r = THREAD_RUNNING" and ro: "run_ok st"
    using reachable_inv [OF assms(1)] assms(5) by (auto simp: sched_inv_def run_ok_def)
  define r1 where "r1 = r\<lparr>origin_priority := p, stack := [Recalculate], priority := p\<rparr>"
  define st1 where "st1 = st\<lparr>intr_on := False, threads := (threads st)(running st \<mapsto> r1)\<rparr>"
  define st2 where "st2 = st1\<lparr>threads := (threads st)(running st \<mapsto> r1\<lparr>stack := [], priority := p\<rparr>)\<rparr>"
  have "thread_set_priority p st = Some st1" using assms ro s
    by (simp add: thread_set_priority_def get_thread_def intr_set_level_def intr_enable_def intr_disable_def
        specific_thread_set_priority_def Let_def push_def put_thread_def st1_def r1_def)
  moreover have "resume st1 = Some st2" using assms s
    by (simp add: resume_def get_thread_def recalculate_priority_def specific_thread_set_priority_def
        intr_set_level_def intr_disable_def Let_def put_thread_def st1_def st2_def r1_def run_ok_def)
  moreover have "running st2 = running st" "threads st2 (running st2) = Some (r1\<lparr>stack := [], priority := p\<rparr>)"
      "\<not> intr_on st2"
    by (simp_all add: st2_def st1_def)
  moreover have "stack (r1\<lparr>stack := [], priority := p\<rparr>) = []" "priority (r1\<lparr>stack := [], priority := p\<rparr>) = p"
    by simp_all
  ultimately show ?thesis by blast
qed

theorem set_priority_loses_interrupts_witness:
  "\<exists>st1 st2. thread_set_priority 20 (boot 7 (\<lambda>_. 0)\<lparr>intr_on := True\<rparr>) = Some st1 \<and>
    resume st1 = Some st2 \<and> \<not> intr_on st2"
proof -
  let ?b = "boot 7 (\<lambda>_. 0)"
  have "do_call Call_enable ?b = Some (?b\<lparr>intr_on := True\<rparr>)" by (simp add: intr_enable_def boot_def)
  then have "step ?b (?b\<lparr>intr_on := True\<rparr>)"
    by (intro step_call [of ?b _ Call_enable]) (auto simp: boot_def)
  then have r: "reachable (?b\<lparr>intr_on := True\<rparr>)" using reach_boot reach_step by blast
  show ?thesis using set_priority_loses_interrupts [OF r, of _ 20] by (simp add: boot_def) blast
qed

end
