(* ===== verification/Cache.thy ===== *)
theory Cache
  imports Prelude
begin

text \<open>
  The disk (devices/disk.c) and the buffer cache of the file system (filesys/cache.c).

  A disk is the array of sectors that the ATA device holds, with the capacity and the
  statistics of \<open>struct disk\<close>; \<open>disk_read\<close> and \<open>disk_write\<close> keep the assertions of
  \<open>select_sector\<close>, and their port input and output is the access to the array.  The cache is
  the array \<open>buffer_cache\<close> of 64 slots with the clock hand \<open>lookup_start_index\<close>.  The lock of a
  slot is the flag \<open>buffer_lock\<close>: taking a held lock again panics, as \<open>lock_acquire\<close> asserts.
  The clock loop of \<open>buffer_cache_find_victim\<close> has no bound in the source, so it is a partial
  function, and that it returns is proved.

  The lemmas show that the cache is transparent: what it returns for any sequence of reads,
  writes, releases and write-backs is what a plain array of sectors would return.
\<close>

subsection \<open>Disks\<close>

definition DISK_SECTOR_SIZE :: nat where
  "DISK_SECTOR_SIZE = 512"

record disk =
  capacity :: u32
  read_cnt :: u64
  write_cnt :: u64
  sectors :: "u32 \<Rightarrow> byte list"

definition disk_size :: "disk \<Rightarrow> u32" where
  "disk_size d = capacity d"

definition select_sector :: "disk \<Rightarrow> u32 \<Rightarrow> unit option" where
  "select_sector d sec_no = do {
     ASSERT (sec_no < capacity d);
     ASSERT (sec_no < push_bit 28 1)
   }"

definition disk_read :: "disk \<Rightarrow> u32 \<Rightarrow> (disk \<times> byte list) option" where
  "disk_read d sec_no = do {
     select_sector d sec_no;
     Some (d\<lparr>read_cnt := read_cnt d + 1\<rparr>, sectors d sec_no)
   }"

definition disk_write :: "disk \<Rightarrow> u32 \<Rightarrow> byte list \<Rightarrow> disk option" where
  "disk_write d sec_no buffer = do {
     select_sector d sec_no;
     ASSERT (length buffer = DISK_SECTOR_SIZE);
     Some (d\<lparr>write_cnt := write_cnt d + 1, sectors := (sectors d)(sec_no := buffer)\<rparr>)
   }"

subsection \<open>The cache\<close>

record file_cache =
  allocated :: bool
  sector_no :: u32
  accessed :: bool
  dirty :: bool
  buffer_lock :: bool
  data :: "byte list"

record cache_state =
  buffer_cache :: "file_cache list"
  lookup_start_index :: u32
  filesys_disk :: disk

definition BUFFER_CACHE_SIZE :: u32 where
  "BUFFER_CACHE_SIZE = 64"

definition slot :: "cache_state \<Rightarrow> u32 \<Rightarrow> file_cache option" where
  "slot st i = arr_get (buffer_cache st) (unat i)"

definition set_slot :: "u32 \<Rightarrow> file_cache \<Rightarrow> cache_state \<Rightarrow> cache_state" where
  "set_slot i c st = st\<lparr>buffer_cache := (buffer_cache st)[unat i := c]\<rparr>"

definition slot_acquire :: "u32 \<Rightarrow> cache_state \<Rightarrow> cache_state option" where
  "slot_acquire i st = do {
     c \<leftarrow> slot st i;
     ASSERT (\<not> buffer_lock c);
     Some (set_slot i (c\<lparr>buffer_lock := True\<rparr>) st)
   }"

definition slot_release :: "u32 \<Rightarrow> cache_state \<Rightarrow> cache_state option" where
  "slot_release i st = do {
     c \<leftarrow> slot st i;
     ASSERT (buffer_lock c);
     Some (set_slot i (c\<lparr>buffer_lock := False\<rparr>) st)
   }"

definition slot_write_out :: "u32 \<Rightarrow> cache_state \<Rightarrow> cache_state option" where
  "slot_write_out i st = do {
     c \<leftarrow> slot st i;
     d \<leftarrow> disk_write (filesys_disk st) (sector_no c) (data c);
     Some (st\<lparr>filesys_disk := d\<rparr>)
   }"

definition buffer_cache_init :: "cache_state \<Rightarrow> cache_state" where
  "buffer_cache_init st = st\<lparr>
     buffer_cache := map (\<lambda>c. c\<lparr>sector_no := 0, allocated := False, buffer_lock := False\<rparr>)
       (buffer_cache st),
     lookup_start_index := 0\<rparr>"

fun slot_loop :: "(file_cache \<Rightarrow> bool) \<Rightarrow> file_cache list \<Rightarrow> u32 \<Rightarrow> u32 option" where
  "slot_loop P [] i = None"
| "slot_loop P (c # cs) i = (if P c then Some i else slot_loop P cs (i + 1))"

definition slot_of :: "u32 \<Rightarrow> file_cache \<Rightarrow> bool" where
  "slot_of sec_no c \<longleftrightarrow> sector_no c = sec_no \<and> allocated c"

definition evict :: "u32 \<Rightarrow> cache_state \<Rightarrow> cache_state option" where
  "evict i st = do {
     st \<leftarrow> slot_acquire i st;
     c \<leftarrow> slot st i;
     st \<leftarrow> (if dirty c then slot_write_out i st else Some st);
     slot_release i (set_slot i (c\<lparr>allocated := False\<rparr>) st)
   }"

definition buffer_cache_release :: "u32 \<Rightarrow> cache_state \<Rightarrow> (cache_state \<times> bool) option" where
  "buffer_cache_release sec_no st =
     (case slot_loop (slot_of sec_no) (buffer_cache st) 0 of
        None \<Rightarrow> Some (st, False)
      | Some i \<Rightarrow> do {
          st \<leftarrow> evict i st;
          Some (st, True)
        })"

partial_function (option) victim_loop :: "u32 \<Rightarrow> cache_state \<Rightarrow> (cache_state \<times> u32) option" where
  "victim_loop i st = do {
     c \<leftarrow> slot st i;
     if accessed c
     then do {
       st \<leftarrow> slot_acquire i st;
       c \<leftarrow> slot st i;
       st \<leftarrow> slot_release i (set_slot i (c\<lparr>accessed := False\<rparr>) st);
       victim_loop ((i + 1) mod BUFFER_CACHE_SIZE) st
     }
     else do {
       let st = st\<lparr>lookup_start_index := (i + 1) mod BUFFER_CACHE_SIZE\<rparr>;
       st \<leftarrow> evict i st;
       Some (st, i)
     }
   }"

definition buffer_cache_find_victim :: "cache_state \<Rightarrow> (cache_state \<times> u32) option" where
  "buffer_cache_find_victim st =
     (case slot_loop (\<lambda>c. \<not> allocated c) (buffer_cache st) 0 of
        Some i \<Rightarrow> Some (st, i)
      | None \<Rightarrow> victim_loop (lookup_start_index st) st)"

definition fill_slot :: "u32 \<Rightarrow> u32 \<Rightarrow> cache_state \<Rightarrow> cache_state option" where
  "fill_slot ans sec_no st = do {
     st \<leftarrow> slot_acquire ans st;
     c \<leftarrow> slot st ans;
     (d, bytes) \<leftarrow> disk_read (filesys_disk st) sec_no;
     let c = c\<lparr>data := bytes, allocated := True, accessed := True, sector_no := sec_no\<rparr>;
     slot_release ans (set_slot ans c (st\<lparr>filesys_disk := d\<rparr>))
   }"

definition fetch_sector :: "u32 \<Rightarrow> cache_state \<Rightarrow> (cache_state \<times> u32) option" where
  "fetch_sector sec_no st =
     (case slot_loop (slot_of sec_no) (buffer_cache st) 0 of
        Some ans \<Rightarrow> Some (st, ans)
      | None \<Rightarrow> do {
          (st, ans) \<leftarrow> buffer_cache_find_victim st;
          st \<leftarrow> fill_slot ans sec_no st;
          Some (st, ans)
        })"

definition buffer_cache_read ::
  "u32 \<Rightarrow> u32 \<Rightarrow> u32 \<Rightarrow> cache_state \<Rightarrow> (cache_state \<times> byte list) option" where
  "buffer_cache_read sec_no sz offset st = do {
     (st, ans) \<leftarrow> fetch_sector sec_no st;
     c \<leftarrow> slot st ans;
     ASSERT (unat offset + unat sz \<le> length (data c));
     Some (st, take (unat sz) (drop (unat offset) (data c)))
   }"

definition overwrite :: "byte list \<Rightarrow> nat \<Rightarrow> byte list \<Rightarrow> byte list" where
  "overwrite bs k ns = take k bs @ ns @ drop (k + length ns) bs"

definition buffer_cache_write ::
  "u32 \<Rightarrow> byte list \<Rightarrow> u32 \<Rightarrow> u32 \<Rightarrow> cache_state \<Rightarrow> cache_state option" where
  "buffer_cache_write sec_no buffer sz offset st = do {
     (st, ans) \<leftarrow> fetch_sector sec_no st;
     c \<leftarrow> slot st ans;
     ASSERT (unat offset + unat sz \<le> length (data c) \<and> unat sz \<le> length buffer);
     let c = c\<lparr>data := overwrite (data c) (unat offset) (take (unat sz) buffer)\<rparr>;
     Some (set_slot ans (c\<lparr>dirty := True\<rparr>) st)
   }"

definition write_back_slot :: "u32 \<Rightarrow> cache_state \<Rightarrow> cache_state option" where
  "write_back_slot i st = do {
     c \<leftarrow> slot st i;
     if allocated c \<and> dirty c
     then do {
       st \<leftarrow> slot_acquire i st;
       st \<leftarrow> slot_write_out i st;
       slot_release i st
     }
     else Some st
   }"

definition buffer_cache_write_back :: "cache_state \<Rightarrow> cache_state option" where
  "buffer_cache_write_back = fold_opt write_back_slot (map of_nat [0..<unat BUFFER_CACHE_SIZE])"

text \<open>Calls of the cache, one after the other, and the bytes that the reads return.\<close>

datatype cache_op =
    Cache_read u32 u32 u32
  | Cache_write u32 "byte list" u32 u32
  | Cache_release u32
  | Cache_write_back

fun run_cache :: "cache_op list \<Rightarrow> cache_state \<Rightarrow> (cache_state \<times> byte list list) option" where
  "run_cache [] st = Some (st, [])"
| "run_cache (Cache_read s sz offset # ops) st = do {
     (st, bytes) \<leftarrow> buffer_cache_read s sz offset st;
     (st, out) \<leftarrow> run_cache ops st;
     Some (st, bytes # out)
   }"
| "run_cache (Cache_write s buffer sz offset # ops) st = do {
     st \<leftarrow> buffer_cache_write s buffer sz offset st;
     run_cache ops st
   }"
| "run_cache (Cache_release s # ops) st = do {
     (st, _) \<leftarrow> buffer_cache_release s st;
     run_cache ops st
   }"
| "run_cache (Cache_write_back # ops) st = do {
     st \<leftarrow> buffer_cache_write_back st;
     run_cache ops st
   }"

subsection \<open>Invariant and view\<close>

definition sector_ok :: "disk \<Rightarrow> u32 \<Rightarrow> bool" where
  "sector_ok d s \<longleftrightarrow> s < capacity d \<and> s < push_bit 28 1"

definition disk_ok :: "disk \<Rightarrow> bool" where
  "disk_ok d \<longleftrightarrow> (\<forall>s. length (sectors d s) = DISK_SECTOR_SIZE)"

definition slot_ok :: "disk \<Rightarrow> file_cache \<Rightarrow> bool" where
  "slot_ok d c \<longleftrightarrow> \<not> buffer_lock c \<and> length (data c) = DISK_SECTOR_SIZE \<and>
     (allocated c \<longrightarrow> sector_ok d (sector_no c) \<and> (dirty c \<or> data c = sectors d (sector_no c)))"

definition cache_inv :: "cache_state \<Rightarrow> bool" where
  "cache_inv st \<longleftrightarrow> length (buffer_cache st) = 64 \<and> lookup_start_index st < 64 \<and>
     disk_ok (filesys_disk st) \<and> list_all (slot_ok (filesys_disk st)) (buffer_cache st) \<and>
     (\<forall>i<64. \<forall>j<64. slot_of (sector_no (buffer_cache st ! i)) (buffer_cache st ! j) \<longrightarrow>
        allocated (buffer_cache st ! i) \<longrightarrow> i = j)"

definition cache_view :: "cache_state \<Rightarrow> u32 \<Rightarrow> byte list" where
  "cache_view st s =
     (case find (slot_of s) (buffer_cache st) of
        Some c \<Rightarrow> data c | None \<Rightarrow> sectors (filesys_disk st) s)"

definition flat_read :: "(u32 \<Rightarrow> byte list) \<Rightarrow> u32 \<Rightarrow> u32 \<Rightarrow> u32 \<Rightarrow> byte list" where
  "flat_read D s sz offset = take (unat sz) (drop (unat offset) (D s))"

definition flat_write ::
  "(u32 \<Rightarrow> byte list) \<Rightarrow> u32 \<Rightarrow> byte list \<Rightarrow> u32 \<Rightarrow> u32 \<Rightarrow> u32 \<Rightarrow> byte list" where
  "flat_write D s buffer sz offset = D(s := overwrite (D s) (unat offset) (take (unat sz) buffer))"


fun run_flat :: "cache_op list \<Rightarrow> (u32 \<Rightarrow> byte list) \<Rightarrow> (u32 \<Rightarrow> byte list) \<times> byte list list" where
  "run_flat [] D = (D, [])"
| "run_flat (Cache_read s sz offset # ops) D =
     (let (D', out) = run_flat ops D in (D', flat_read D s sz offset # out))"
| "run_flat (Cache_write s buffer sz offset # ops) D = run_flat ops (flat_write D s buffer sz offset)"
| "run_flat (Cache_release s # ops) D = run_flat ops D"
| "run_flat (Cache_write_back # ops) D = run_flat ops D"

fun cache_op_ok :: "disk \<Rightarrow> cache_op \<Rightarrow> bool" where
  "cache_op_ok d (Cache_read s sz offset) \<longleftrightarrow> sector_ok d s \<and> unat offset + unat sz \<le> 512"
| "cache_op_ok d (Cache_write s buffer sz offset) \<longleftrightarrow>
     sector_ok d s \<and> unat offset + unat sz \<le> 512 \<and> unat sz \<le> length buffer"
| "cache_op_ok d (Cache_release s) \<longleftrightarrow> True"
| "cache_op_ok d Cache_write_back \<longleftrightarrow> True"

definition cache_at_boot :: "cache_state \<Rightarrow> bool" where
  "cache_at_boot st \<longleftrightarrow> length (buffer_cache st) = 64 \<and> disk_ok (filesys_disk st) \<and>
     list_all (\<lambda>c. length (data c) = DISK_SECTOR_SIZE) (buffer_cache st)"

definition clock_victim :: "cache_state \<Rightarrow> nat" where
  "clock_victim st =
     (case find (\<lambda>k. \<not> accessed (buffer_cache st ! ((unat (lookup_start_index st) + k) mod 64))) [0..<64] of
        Some k \<Rightarrow> (unat (lookup_start_index st) + k) mod 64
      | None \<Rightarrow> unat (lookup_start_index st))"

subsection \<open>Slots\<close>

lemma sector_size [simp]: "DISK_SECTOR_SIZE = 512"
  by (simp add: DISK_SECTOR_SIZE_def)

lemma length_overwrite [simp]: "k + length ns \<le> length bs \<Longrightarrow> length (overwrite bs k ns) = length bs"
  by (simp add: overwrite_def)

lemma select_sector_ok [simp]: "select_sector d s = (if sector_ok d s then Some () else None)"
  by (auto simp: select_sector_def sector_ok_def ASSERT_def)

lemma cache_invD:
  assumes "cache_inv st"
  shows "length (buffer_cache st) = 64" "lookup_start_index st < 64" "disk_ok (filesys_disk st)"
    "i < 64 \<Longrightarrow> slot_ok (filesys_disk st) (buffer_cache st ! i)"
    "slot_of s (buffer_cache st ! i) \<Longrightarrow> slot_of s (buffer_cache st ! j) \<Longrightarrow>
     i < 64 \<Longrightarrow> j < 64 \<Longrightarrow> i = j"
  using assms by (auto simp: cache_inv_def list_all_length slot_of_def)

lemma cache_invI:
  assumes "length (buffer_cache st) = 64" "lookup_start_index st < 64" "disk_ok (filesys_disk st)"
    "\<And>i. i < 64 \<Longrightarrow> slot_ok (filesys_disk st) (buffer_cache st ! i)"
    "\<And>s i j. slot_of s (buffer_cache st ! i) \<Longrightarrow> slot_of s (buffer_cache st ! j) \<Longrightarrow>
     i < 64 \<Longrightarrow> j < 64 \<Longrightarrow> i = j"
  shows "cache_inv st"
  using assms by (auto simp: cache_inv_def list_all_length slot_of_def)


lemma slot_loop_Some:
  assumes "slot_loop P cs i = Some r" "unat i + length cs < 2 ^ 32"
  shows "\<exists>k<length cs. unat r = unat i + k \<and> P (cs ! k) \<and> (\<forall>j<k. \<not> P (cs ! j))"
  using assms
proof (induction P cs i rule: slot_loop.induct)
  case (2 P c cs i)
  show ?case
  proof (cases "P c")
    case True
    with 2 show ?thesis by (intro exI [of _ 0]) auto
  next
    case False
    have s: "unat (i + 1) = Suc (unat i)"
      using 2(3) by (simp add: unat_word_ariths)
    with 2 False obtain k where "k < length cs" "unat r = unat (i + 1) + k" "P (cs ! k)"
      "\<forall>j<k. \<not> P (cs ! j)" by auto
    with False s show ?thesis
      by (intro exI [of _ "Suc k"]) (auto simp: nth_Cons split: nat.splits)
  qed
qed simp

lemma slot_loop_None: "slot_loop P cs i = None \<longleftrightarrow> (\<forall>c\<in>set cs. \<not> P c)"
  by (induction P cs i rule: slot_loop.induct) auto

lemma slot_search:
  assumes "length (buffer_cache st) = 64"
  shows "(slot_loop P (buffer_cache st) 0 = None \<and> (\<forall>j<64. \<not> P (buffer_cache st ! j))) \<or>
    (\<exists>r. slot_loop P (buffer_cache st) 0 = Some r \<and> r < 64 \<and> P (buffer_cache st ! unat r) \<and>
       (\<forall>j<unat r. \<not> P (buffer_cache st ! j)))"
proof (cases "slot_loop P (buffer_cache st) 0")
  case None
  with assms show ?thesis by (auto simp: slot_loop_None all_set_conv_all_nth)
next
  case (Some r)
  with slot_loop_Some [OF Some] assms show ?thesis by (auto simp: word_less_nat_alt)
qed

lemma view_cached:
  assumes "cache_inv st" "i < 64" "slot_of s (buffer_cache st ! i)"
  shows "cache_view st s = data (buffer_cache st ! i)"
proof -
  have "find (slot_of s) (buffer_cache st) = Some (buffer_cache st ! i)"
    unfolding find_Some_iff
  proof (intro exI conjI allI impI)
    show "i < length (buffer_cache st)" using assms cache_invD(1) [OF assms(1)] by simp
    show "\<not> slot_of s (buffer_cache st ! j)" if "j < i" for j
      using cache_invD(5) [OF assms(1,3), of j] assms(2) that by auto
  qed (use assms in auto)
  then show ?thesis by (simp add: cache_view_def)
qed

lemma view_uncached:
  assumes "cache_inv st" "\<And>j. j < 64 \<Longrightarrow> \<not> slot_of s (buffer_cache st ! j)"
  shows "cache_view st s = sectors (filesys_disk st) s"
proof -
  have "find (slot_of s) (buffer_cache st) = None"
    using assms cache_invD(1) [OF assms(1)] by (auto simp: find_None_iff in_set_conv_nth)
  then show ?thesis by (simp add: cache_view_def)
qed

lemma view_eqI:
  assumes "cache_inv st"
    "\<And>s j. j < 64 \<Longrightarrow> slot_of s (buffer_cache st ! j) \<Longrightarrow> data (buffer_cache st ! j) = D s"
    "\<And>s. (\<And>j. j < 64 \<Longrightarrow> \<not> slot_of s (buffer_cache st ! j)) \<Longrightarrow> sectors (filesys_disk st) s = D s"
  shows "cache_view st = D"
proof
  fix s
  show "cache_view st s = D s"
  proof (cases "\<exists>j<64. slot_of s (buffer_cache st ! j)")
    case True
    then obtain j where "j < 64" "slot_of s (buffer_cache st ! j)" by blast
    with view_cached [OF assms(1) this] assms(2) [OF this] show ?thesis by simp
  next
    case False
    with view_uncached [OF assms(1), of s] assms(3) [of s] show ?thesis by simp
  qed
qed

lemma length_view:
  assumes "cache_inv st"
  shows "length (cache_view st s) = 512"
proof (cases "\<exists>j<64. slot_of s (buffer_cache st ! j)")
  case True
  then obtain j where "j < 64" "slot_of s (buffer_cache st ! j)" by blast
  with view_cached [OF assms this] cache_invD(4) [OF assms, of j] show ?thesis
    by (simp add: slot_ok_def)
next
  case False
  with view_uncached [OF assms, of s] cache_invD(3) [OF assms] show ?thesis
    by (simp add: disk_ok_def)
qed

lemma slot_eq [simp]:
  "length (buffer_cache st) = 64 \<Longrightarrow> slot st i = (if i < 64 then Some (buffer_cache st ! unat i) else None)"
  by (auto simp: slot_def word_less_nat_alt arr_get_def)

lemma set_slot_sel [simp]:
  "buffer_cache (set_slot i c st) = (buffer_cache st)[unat i := c]"
  "filesys_disk (set_slot i c st) = filesys_disk st"
  "lookup_start_index (set_slot i c st) = lookup_start_index st"
  by (simp_all add: set_slot_def)

lemma set_slot_twice [simp]: "set_slot i c (set_slot i c' st) = set_slot i c st"
  by (simp add: set_slot_def)

lemma set_slot_disk [simp]:
  "(set_slot i c st)\<lparr>filesys_disk := d\<rparr> = set_slot i c (st\<lparr>filesys_disk := d\<rparr>)"
  by (simp add: set_slot_def)

lemma hold_slot:
  assumes "length (buffer_cache st) = 64" "i < 64" "\<not> buffer_lock (buffer_cache st ! unat i)"
  shows "slot_acquire i st = Some (set_slot i ((buffer_cache st ! unat i)\<lparr>buffer_lock := True\<rparr>) st)"
  using assms by (simp add: slot_acquire_def)

lemma drop_slot:
  assumes "length (buffer_cache st) = 64" "i < 64"
  shows "buffer_lock c \<Longrightarrow>
    slot_release i (set_slot i c st) = Some (set_slot i (c\<lparr>buffer_lock := False\<rparr>) st)"
  using assms by (simp add: slot_release_def word_less_nat_alt)

subsection \<open>Operations on a slot\<close>

definition same_cache :: "cache_state \<Rightarrow> cache_state \<Rightarrow> bool" where
  "same_cache st st' \<longleftrightarrow> cache_inv st' \<and> cache_view st' = cache_view st \<and>
     capacity (filesys_disk st') = capacity (filesys_disk st)"

definition shrunk :: "cache_state \<Rightarrow> cache_state \<Rightarrow> bool" where
  "shrunk st st' \<longleftrightarrow> same_cache st st' \<and>
     (\<forall>s. \<forall>j<64. slot_of s (buffer_cache st' ! j) \<longrightarrow> slot_of s (buffer_cache st ! j))"

lemma shrunk_trans: "shrunk st st' \<Longrightarrow> shrunk st' st'' \<Longrightarrow> shrunk st st''"
  by (simp add: shrunk_def same_cache_def)

lemma unlocked: "cache_inv st \<Longrightarrow> i < 64 \<Longrightarrow> \<not> buffer_lock (buffer_cache st ! unat i)"
  for i :: u32
  using cache_invD(4) [of st "unat i"] by (simp add: slot_ok_def word_less_nat_alt)

lemma clear_lock: "\<not> buffer_lock c \<Longrightarrow> c\<lparr>buffer_lock := False\<rparr> = c"
  by (cases c) simp

lemma inv_set_slot:
  assumes "cache_inv st" "i < 64" "slot_ok (filesys_disk st) c"
    "\<And>j. allocated c \<Longrightarrow> j < 64 \<Longrightarrow> j \<noteq> unat i \<Longrightarrow> \<not> slot_of (sector_no c) (buffer_cache st ! j)"
  shows "cache_inv (set_slot i c st)"
proof (rule cache_invI)
  note inv = cache_invD [OF assms(1)]
  have i: "unat i < 64" using assms(2) by (simp add: word_less_nat_alt)
  show "length (buffer_cache (set_slot i c st)) = 64" "lookup_start_index (set_slot i c st) < 64"
    "disk_ok (filesys_disk (set_slot i c st))" using inv by simp_all
  show "slot_ok (filesys_disk (set_slot i c st)) (buffer_cache (set_slot i c st) ! k)" if "k < 64" for k
    using assms(3) inv(1,4) i that by (simp add: nth_list_update)
  show "k = j" if "slot_of s (buffer_cache (set_slot i c st) ! k)"
    "slot_of s (buffer_cache (set_slot i c st) ! j)" "k < 64" "j < 64" for s k j
    using that inv(1) inv(5) [of s k j] assms(4) i
    by (auto simp: nth_list_update slot_of_def split: if_splits)
qed

lemma inv_set_disk:
  assumes "cache_inv st" "disk_ok d" "\<And>j. j < 64 \<Longrightarrow> slot_ok d (buffer_cache st ! j)"
  shows "cache_inv (st\<lparr>filesys_disk := d\<rparr>)"
  using assms cache_invD [OF assms(1)] by (intro cache_invI) auto

definition spill :: "file_cache \<Rightarrow> disk \<Rightarrow> disk" where
  "spill c d = (if dirty c
     then d\<lparr>write_cnt := write_cnt d + 1, sectors := (sectors d)(sector_no c := data c)\<rparr> else d)"

lemma spill_sel [simp]:
  "capacity (spill c d) = capacity d"
  "sectors (spill c d) = (if dirty c then (sectors d)(sector_no c := data c) else sectors d)"
  by (simp_all add: spill_def)

lemma spill_ok:
  assumes "cache_inv st" "i < 64" "allocated (buffer_cache st ! i)"
  defines "d \<equiv> spill (buffer_cache st ! i) (filesys_disk st)"
  shows "disk_ok d" "j < 64 \<Longrightarrow> slot_ok d (buffer_cache st ! j)"
    "sectors d s = (if s = sector_no (buffer_cache st ! i) then data (buffer_cache st ! i)
                    else sectors (filesys_disk st) s)"
proof -
  note inv = cache_invD [OF assms(1)]
  show "disk_ok d" using inv(3) inv(4) [of i] assms(2) by (simp add: d_def disk_ok_def slot_ok_def)
  show "sectors d s = (if s = sector_no (buffer_cache st ! i) then data (buffer_cache st ! i)
                    else sectors (filesys_disk st) s)"
    using inv(4) [of i] assms(2,3) by (auto simp: d_def slot_ok_def)
  show "slot_ok d (buffer_cache st ! j)" if "j < 64"
    using inv(4) [of j] inv(5) [of "sector_no (buffer_cache st ! i)" i j] assms(2,3) that
    by (auto simp: d_def slot_ok_def sector_ok_def slot_of_def)
qed

lemma slot_write_out_eq:
  assumes "cache_inv st" "i < 64" "allocated (buffer_cache st ! unat i)"
    "c = (buffer_cache st ! unat i)\<lparr>buffer_lock := True\<rparr>" "dirty c"
  shows "slot_write_out i (set_slot i c st) =
    Some (set_slot i c (st\<lparr>filesys_disk := spill (buffer_cache st ! unat i) (filesys_disk st)\<rparr>))"
  using assms cache_invD(1) [OF assms(1)] cache_invD(4) [OF assms(1), of "unat i"]
  by (simp add: slot_write_out_def disk_write_def slot_ok_def word_less_nat_alt spill_def)

lemma evict_eq:
  assumes "cache_inv st" "i < 64" "allocated (buffer_cache st ! unat i)"
  shows "evict i st = Some (set_slot i ((buffer_cache st ! unat i)\<lparr>allocated := False\<rparr>)
    (st\<lparr>filesys_disk := spill (buffer_cache st ! unat i) (filesys_disk st)\<rparr>))"
proof -
  note inv = cache_invD [OF assms(1)]
  define c where "c = (buffer_cache st ! unat i)\<lparr>buffer_lock := True\<rparr>"
  define d where "d = spill (buffer_cache st ! unat i) (filesys_disk st)"
  have "slot_acquire i st = Some (set_slot i c st)"
    unfolding c_def by (rule hold_slot [OF inv(1) assms(2) unlocked [OF assms(1,2)]])
  moreover have "slot (set_slot i c st) i = Some c"
    using inv(1) assms(2) by (simp add: word_less_nat_alt)
  moreover have "(if dirty c then slot_write_out i (set_slot i c st) else Some (set_slot i c st)) =
      Some (set_slot i c (st\<lparr>filesys_disk := d\<rparr>))"
    using slot_write_out_eq [OF assms c_def] by (simp add: c_def d_def spill_def)
  moreover have "slot_release i (set_slot i (c\<lparr>allocated := False\<rparr>) (st\<lparr>filesys_disk := d\<rparr>)) =
      Some (set_slot i (c\<lparr>allocated := False, buffer_lock := False\<rparr>) (st\<lparr>filesys_disk := d\<rparr>))"
    using drop_slot [of "st\<lparr>filesys_disk := d\<rparr>" i "c\<lparr>allocated := False\<rparr>"] inv(1) assms(2)
    by (simp add: c_def)
  moreover have "c\<lparr>allocated := False, buffer_lock := False\<rparr> =
      (buffer_cache st ! unat i)\<lparr>allocated := False\<rparr>"
    using unlocked [OF assms(1,2)] by (simp add: c_def clear_lock)
  ultimately show ?thesis by (simp add: evict_def d_def)
qed

lemma evict_ok:
  assumes "cache_inv st" "i < 64" "allocated (buffer_cache st ! unat i)"
  shows "\<exists>st'. evict i st = Some st' \<and> shrunk st st' \<and> \<not> allocated (buffer_cache st' ! unat i)"
proof -
  note inv = cache_invD [OF assms(1)]
  have i: "unat i < 64" using assms(2) by (simp add: word_less_nat_alt)
  note ok = spill_ok [OF assms(1) i assms(3)]
  let ?c = "(buffer_cache st ! unat i)\<lparr>allocated := False\<rparr>"
  let ?d = "spill (buffer_cache st ! unat i) (filesys_disk st)"
  let ?st' = "set_slot i ?c (st\<lparr>filesys_disk := ?d\<rparr>)"
  have inv': "cache_inv ?st'"
    using ok inv(4) [OF i]
    by (intro inv_set_slot inv_set_disk assms) (auto simp: slot_ok_def)
  moreover have "cache_view ?st' = cache_view st"
  proof (rule view_eqI [OF inv'])
    show "data (buffer_cache ?st' ! j) = cache_view st s"
      if "j < 64" "slot_of s (buffer_cache ?st' ! j)" for s j
      using that inv(1) i view_cached [OF assms(1) that(1), of s]
      by (auto simp: nth_list_update slot_of_def split: if_splits)
    show "sectors (filesys_disk ?st') s = cache_view st s"
      if none: "\<And>j. j < 64 \<Longrightarrow> \<not> slot_of s (buffer_cache ?st' ! j)" for s
    proof (cases "s = sector_no (buffer_cache st ! unat i)")
      case True
      with view_cached [OF assms(1) i, of s] ok(3) [of s] assms(3) show ?thesis
        by (simp add: slot_of_def)
    next
      case False
      have "\<not> slot_of s (buffer_cache st ! j)" if "j < 64" for j
        using False none [OF that] inv(1) i
        by (auto simp: nth_list_update slot_of_def split: if_splits)
      with False ok(3) [of s] view_uncached [OF assms(1), of s] show ?thesis by simp
    qed
  qed
  moreover have "slot_of s (buffer_cache ?st' ! j) \<Longrightarrow> slot_of s (buffer_cache st ! j)" if "j < 64" for s j
    using that inv(1) i by (auto simp: nth_list_update slot_of_def split: if_splits)
  ultimately show ?thesis
    using evict_eq [OF assms] inv(1) i by (simp add: shrunk_def same_cache_def)
qed

subsection \<open>The clock\<close>

definition spare :: "u32 \<Rightarrow> cache_state \<Rightarrow> cache_state" where
  "spare i st = set_slot i ((buffer_cache st ! unat i)\<lparr>accessed := False\<rparr>) st"

lemma unat_advance: "i < 64 \<Longrightarrow> unat ((i + 1) mod BUFFER_CACHE_SIZE) = Suc (unat i) mod 64"
  by (simp add: BUFFER_CACHE_SIZE_def unat_mod_distrib unat_inc_less)

lemma advance_bound [simp]: "(i + 1) mod BUFFER_CACHE_SIZE < 64"
  by (simp add: BUFFER_CACHE_SIZE_def word_less_nat_alt unat_mod_distrib)

lemma spare_slot:
  assumes "cache_inv st" "i < 64" "j < 64"
  shows "buffer_cache (spare i st) ! j =
    (if j = unat i then (buffer_cache st ! j)\<lparr>accessed := False\<rparr> else buffer_cache st ! j)"
  using assms cache_invD(1) [OF assms(1)] by (simp add: spare_def nth_list_update word_less_nat_alt)

lemma spare_disk [simp]: "filesys_disk (spare i st) = filesys_disk st"
  by (simp add: spare_def)

lemma spare_inv:
  assumes "cache_inv st" "i < 64"
  shows "cache_inv (spare i st)"
proof -
  have i: "unat i < 64" using assms(2) by (simp add: word_less_nat_alt)
  show ?thesis
    unfolding spare_def
    using cache_invD(4) [OF assms(1) i] cache_invD(5) [OF assms(1), of _ "unat i"] i
    by (intro inv_set_slot [OF assms]) (auto simp: slot_ok_def slot_of_def)
qed

lemma spare_view:
  assumes "cache_inv st" "i < 64"
  shows "cache_view (spare i st) = cache_view st"
proof (rule view_eqI [OF spare_inv [OF assms]])
  show "data (buffer_cache (spare i st) ! j) = cache_view st s"
    if "j < 64" "slot_of s (buffer_cache (spare i st) ! j)" for s j
    using that view_cached [OF assms(1) that(1), of s]
    by (auto simp: spare_slot [OF assms] slot_of_def split: if_splits)
  show "sectors (filesys_disk (spare i st)) s = cache_view st s"
    if none: "\<And>j. j < 64 \<Longrightarrow> \<not> slot_of s (buffer_cache (spare i st) ! j)" for s
  proof -
    have "\<not> slot_of s (buffer_cache st ! j)" if "j < 64" for j
      using none [OF that] by (auto simp: spare_slot [OF assms that] slot_of_def split: if_splits)
    then show ?thesis using view_uncached [OF assms(1), of s] by simp
  qed
qed

lemma spare_shrunk: "cache_inv st \<Longrightarrow> i < 64 \<Longrightarrow> shrunk st (spare i st)"
  by (auto simp: shrunk_def same_cache_def spare_inv spare_view spare_slot slot_of_def split: if_splits)

lemma victim_skip:
  assumes "cache_inv st" "i < 64" "accessed (buffer_cache st ! unat i)"
  shows "victim_loop i st = victim_loop ((i + 1) mod BUFFER_CACHE_SIZE) (spare i st)"
proof -
  note inv = cache_invD [OF assms(1)]
  define c where "c = (buffer_cache st ! unat i)\<lparr>buffer_lock := True\<rparr>"
  have "slot_acquire i st = Some (set_slot i c st)"
    unfolding c_def by (rule hold_slot [OF inv(1) assms(2) unlocked [OF assms(1,2)]])
  moreover have "slot (set_slot i c st) i = Some c"
    using inv(1) assms(2) by (simp add: word_less_nat_alt)
  moreover have "slot_release i (set_slot i (c\<lparr>accessed := False\<rparr>) st) = Some (spare i st)"
    using drop_slot [OF inv(1) assms(2), of "c\<lparr>accessed := False\<rparr>"] unlocked [OF assms(1,2)]
    by (simp add: c_def clear_lock spare_def)
  ultimately show ?thesis
    using inv(1) assms(2,3) by (subst victim_loop.simps) simp
qed

lemma victim_stop:
  assumes "cache_inv st" "i < 64" "\<not> accessed (buffer_cache st ! unat i)"
    "allocated (buffer_cache st ! unat i)"
  shows "\<exists>st'. victim_loop i st = Some (st', i) \<and> shrunk st st' \<and> \<not> allocated (buffer_cache st' ! unat i)"
proof -
  note inv = cache_invD [OF assms(1)]
  let ?st = "st\<lparr>lookup_start_index := (i + 1) mod BUFFER_CACHE_SIZE\<rparr>"
  have inv': "cache_inv ?st"
    using inv by (intro cache_invI) auto
  have "cache_view ?st = cache_view st"
    by (rule ext) (simp add: cache_view_def split: option.split)
  with evict_ok [OF inv' assms(2)] assms(4) obtain st' where
    "evict i ?st = Some st' \<and> shrunk st st' \<and> \<not> allocated (buffer_cache st' ! unat i)"
    by (auto simp: shrunk_def same_cache_def)
  then show ?thesis
    using inv(1) assms(2,3) by (subst victim_loop.simps) simp
qed

lemma advance_shift:
  assumes "i < 64"
  shows "(unat ((i + 1) mod BUFFER_CACHE_SIZE) + k) mod 64 = (unat i + Suc k) mod 64"
  by (simp add: unat_advance [OF assms] mod_simps)

lemma spare_other:
  assumes "cache_inv st" "i < 64" "k < 63"
  shows "buffer_cache (spare i st) ! ((unat i + Suc k) mod 64) = buffer_cache st ! ((unat i + Suc k) mod 64)"
proof -
  have "(unat i + Suc k) mod 64 \<noteq> unat i"
    using assms(2,3) by (cases "unat i + Suc k < 64") (auto simp: le_mod_geq word_less_nat_alt)
  then show ?thesis by (simp add: spare_slot [OF assms(1,2)])
qed

lemma victim_walk:
  assumes "cache_inv st" "i < 64" "n < 64"
    "\<And>k. k < n \<Longrightarrow> accessed (buffer_cache st ! ((unat i + k) mod 64))"
    "\<not> accessed (buffer_cache st ! ((unat i + n) mod 64))"
    "\<And>j. j < 64 \<Longrightarrow> allocated (buffer_cache st ! j)"
  shows "\<exists>st' v. victim_loop i st = Some (st', v) \<and> unat v = (unat i + n) mod 64 \<and> shrunk st st' \<and>
    \<not> allocated (buffer_cache st' ! unat v)"
  using assms
proof (induction n arbitrary: i st)
  case 0
  have i: "unat i < 64" using 0(2) by (simp add: word_less_nat_alt)
  with victim_stop [OF 0(1,2)] 0(5,6) show ?case by auto
next
  case (Suc n)
  let ?i = "(i + 1) mod BUFFER_CACHE_SIZE"
  let ?st = "spare i st"
  have i: "unat i < 64" using Suc.prems(2) by (simp add: word_less_nat_alt)
  have acc: "accessed (buffer_cache st ! unat i)"
    using Suc.prems(4) [of 0] i by simp
  note shift = advance_shift [OF Suc.prems(2)]
  note other = spare_other [OF Suc.prems(1,2)]
  have "\<exists>st' v. victim_loop ?i ?st = Some (st', v) \<and> unat v = (unat ?i + n) mod 64 \<and>
    shrunk ?st st' \<and> \<not> allocated (buffer_cache st' ! unat v)"
  proof (rule Suc.IH [OF spare_inv [OF Suc.prems(1,2)]])
    show "?i < 64" "n < 64" using Suc.prems(3) by simp_all
    show "accessed (buffer_cache ?st ! ((unat ?i + k) mod 64))" if "k < n" for k
      using other [of k] Suc.prems(3) Suc.prems(4) [of "Suc k"] that unfolding shift by simp
    show "\<not> accessed (buffer_cache ?st ! ((unat ?i + n) mod 64))"
      using other [of n] Suc.prems(3) Suc.prems(5) unfolding shift by simp
    show "allocated (buffer_cache ?st ! j)" if "j < 64" for j
      using Suc.prems(6) [OF that] by (auto simp: spare_slot [OF Suc.prems(1,2) that])
  qed
  then show ?case
    using shrunk_trans [OF spare_shrunk [OF Suc.prems(1,2)]]
    by (auto simp: victim_skip [OF Suc.prems(1,2) acc] shift)
qed

lemma victim_loop_clock:
  assumes "cache_inv st" "\<And>j. j < 64 \<Longrightarrow> allocated (buffer_cache st ! j)"
  shows "\<exists>st' v. victim_loop (lookup_start_index st) st = Some (st', v) \<and> unat v = clock_victim st \<and>
    shrunk st st' \<and> \<not> allocated (buffer_cache st' ! unat v)"
proof -
  let ?i = "lookup_start_index st"
  let ?P = "\<lambda>k. \<not> accessed (buffer_cache st ! ((unat ?i + k) mod 64))"
  have i: "?i < 64" "unat ?i < 64" using cache_invD(2) [OF assms(1)] by (simp_all add: word_less_nat_alt)
  show ?thesis
  proof (cases "find ?P [0..<64]")
    case (Some n)
    then have "n < 64 \<and> ?P n \<and> (\<forall>k<n. \<not> ?P k)"
      by (auto simp: find_Some_iff simp del: upt_rec_numeral)
    then have n: "n < 64" "?P n" "\<And>k. k < n \<Longrightarrow> \<not> ?P k" by auto
    have "clock_victim st = (unat ?i + n) mod 64" using Some by (simp add: clock_victim_def)
    with victim_walk [OF assms(1) i(1) n(1) _ n(2) assms(2)] n(3) show ?thesis by simp
  next
    case None
    then have "\<not> ?P k" if "k < 64" for k
      using that by (auto simp: find_None_iff simp del: upt_rec_numeral)
    then have acc: "accessed (buffer_cache st ! ((unat ?i + k) mod 64))" if "k < 64" for k
      using that by simp
    let ?j = "(?i + 1) mod BUFFER_CACHE_SIZE"
    note shift = advance_shift [OF i(1)]
    have "\<exists>st' v. victim_loop ?j (spare ?i st) = Some (st', v) \<and> unat v = (unat ?j + 63) mod 64 \<and>
      shrunk (spare ?i st) st' \<and> \<not> allocated (buffer_cache st' ! unat v)"
    proof (rule victim_walk [OF spare_inv [OF assms(1) i(1)]])
      show "?j < 64" "(63::nat) < 64" by simp_all
      show "accessed (buffer_cache (spare ?i st) ! ((unat ?j + k) mod 64))" if "k < 63" for k
        using spare_other [OF assms(1) i(1) that] acc [of "Suc k"] that unfolding shift by simp
      show "\<not> accessed (buffer_cache (spare ?i st) ! ((unat ?j + 63) mod 64))"
        unfolding shift using i(2) by (simp add: spare_slot [OF assms(1) i(1)])
      show "allocated (buffer_cache (spare ?i st) ! j)" if "j < 64" for j
        using assms(2) [OF that] by (auto simp: spare_slot [OF assms(1) i(1) that])
    qed
    moreover have "clock_victim st = (unat ?j + 63) mod 64"
      unfolding shift using None i(2) by (simp add: clock_victim_def)
    moreover have "accessed (buffer_cache st ! unat ?i)" using acc [of 0] i(2) by simp
    ultimately show ?thesis
      using shrunk_trans [OF spare_shrunk [OF assms(1) i(1)]]
      by (auto simp: victim_skip [OF assms(1) i(1)])
  qed
qed

subsection \<open>Transparency\<close>

lemma find_victim_ok:
  assumes "cache_inv st"
  shows "\<exists>st' v. buffer_cache_find_victim st = Some (st', v) \<and> v < 64 \<and> shrunk st st' \<and>
    \<not> allocated (buffer_cache st' ! unat v)"
  using slot_search [OF cache_invD(1) [OF assms], of "\<lambda>c. \<not> allocated c"]
proof (elim disjE conjE exE)
  assume none: "slot_loop (\<lambda>c. \<not> allocated c) (buffer_cache st) 0 = None"
    "\<forall>j<64. \<not> \<not> allocated (buffer_cache st ! j)"
  then obtain st' v where v: "victim_loop (lookup_start_index st) st = Some (st', v)"
    "unat v = clock_victim st" "shrunk st st'" "\<not> allocated (buffer_cache st' ! unat v)"
    using victim_loop_clock [OF assms] by auto
  have "clock_victim st < 64"
    using cache_invD(2) [OF assms] by (simp add: clock_victim_def word_less_nat_alt split: option.split)
  with v none show ?thesis
    by (auto simp: buffer_cache_find_victim_def word_less_nat_alt)
qed (use assms in \<open>auto simp: buffer_cache_find_victim_def shrunk_def same_cache_def\<close>)

lemma fill_eq:
  assumes "cache_inv st" "v < 64" "sector_ok (filesys_disk st) s"
  defines "c \<equiv> buffer_cache st ! unat v"
  defines "d \<equiv> (filesys_disk st)\<lparr>read_cnt := read_cnt (filesys_disk st) + 1\<rparr>"
  shows "fill_slot v s st = Some (set_slot v (c\<lparr>data := sectors (filesys_disk st) s, allocated := True,
    accessed := True, sector_no := s\<rparr>) (st\<lparr>filesys_disk := d\<rparr>))"
proof -
  note inv = cache_invD [OF assms(1)]
  have v: "unat v < 64" using assms(2) by (simp add: word_less_nat_alt)
  have "\<not> buffer_lock c" unfolding c_def by (rule unlocked [OF assms(1,2)])
  then have "slot_acquire v st = Some (set_slot v (c\<lparr>buffer_lock := True\<rparr>) st)"
    unfolding c_def by (rule hold_slot [OF inv(1) assms(2)])
  moreover have "slot_release v (set_slot v (c\<lparr>buffer_lock := True, data := bytes, allocated := True,
      accessed := True, sector_no := s\<rparr>) (st\<lparr>filesys_disk := d\<rparr>)) =
    Some (set_slot v (c\<lparr>data := bytes, allocated := True, accessed := True, sector_no := s\<rparr>)
      (st\<lparr>filesys_disk := d\<rparr>))" for bytes
    using \<open>\<not> buffer_lock c\<close> inv(1) assms(2) by (subst drop_slot) (simp_all add: clear_lock)
  ultimately show ?thesis
    using inv(1) v assms(2,3) by (simp add: fill_slot_def disk_read_def d_def)
qed

lemma fill_ok:
  assumes "cache_inv st" "v < 64" "sector_ok (filesys_disk st) s"
    "\<not> allocated (buffer_cache st ! unat v)" "\<And>j. j < 64 \<Longrightarrow> \<not> slot_of s (buffer_cache st ! j)"
  defines "d \<equiv> (filesys_disk st)\<lparr>read_cnt := read_cnt (filesys_disk st) + 1\<rparr>"
  defines "st' \<equiv> set_slot v ((buffer_cache st ! unat v)\<lparr>data := sectors (filesys_disk st) s,
    allocated := True, accessed := True, sector_no := s\<rparr>) (st\<lparr>filesys_disk := d\<rparr>)"
  shows "same_cache st st' \<and> slot_of s (buffer_cache st' ! unat v)"
proof -
  note inv = cache_invD [OF assms(1)]
  have v: "unat v < 64" using assms(2) by (simp add: word_less_nat_alt)
  have inv': "cache_inv st'"
    unfolding st'_def
  proof (rule inv_set_slot [OF _ assms(2)])
    show "cache_inv (st\<lparr>filesys_disk := d\<rparr>)"
      by (rule inv_set_disk [OF assms(1)])
        (use inv(3,4) in \<open>auto simp: d_def disk_ok_def slot_ok_def sector_ok_def\<close>)
  qed (use inv(3) inv(4) [OF v] assms(3,5) in \<open>auto simp: slot_ok_def disk_ok_def d_def sector_ok_def\<close>)
  moreover have "cache_view st' = cache_view st"
  proof (rule view_eqI [OF inv'])
    show "data (buffer_cache st' ! j) = cache_view st t"
      if "j < 64" "slot_of t (buffer_cache st' ! j)" for t j
      using that inv(1) v view_cached [OF assms(1) that(1), of t] view_uncached [OF assms(1,5)]
      by (auto simp: st'_def nth_list_update slot_of_def split: if_splits)
    show "sectors (filesys_disk st') t = cache_view st t"
      if none: "\<And>j. j < 64 \<Longrightarrow> \<not> slot_of t (buffer_cache st' ! j)" for t
    proof -
      have "\<not> slot_of t (buffer_cache st ! j)" if "j < 64" for j
        using none [OF that] assms(4) inv(1) v
        by (auto simp: st'_def nth_list_update slot_of_def split: if_splits)
      then show ?thesis using view_uncached [OF assms(1), of t] by (simp add: st'_def d_def)
    qed
  qed
  ultimately show ?thesis
    using inv(1) v by (simp add: same_cache_def st'_def d_def slot_of_def)
qed

lemma fetch_sector_ok:
  assumes "cache_inv st" "sector_ok (filesys_disk st) s"
  shows "\<exists>st' v. fetch_sector s st = Some (st', v) \<and> v < 64 \<and> same_cache st st' \<and>
    slot_of s (buffer_cache st' ! unat v)"
  using slot_search [OF cache_invD(1) [OF assms(1)], of "slot_of s"]
proof (elim disjE conjE exE)
  assume none: "slot_loop (slot_of s) (buffer_cache st) 0 = None"
    "\<forall>j<64. \<not> slot_of s (buffer_cache st ! j)"
  from find_victim_ok [OF assms(1)] obtain st1 v where
    v: "buffer_cache_find_victim st = Some (st1, v)" "v < 64" "shrunk st st1"
      "\<not> allocated (buffer_cache st1 ! unat v)" by blast
  from v(3) none(2) have "cache_inv st1" "\<And>j. j < 64 \<Longrightarrow> \<not> slot_of s (buffer_cache st1 ! j)"
    and ok: "sector_ok (filesys_disk st1) s" and same: "\<And>st'. same_cache st1 st' \<Longrightarrow> same_cache st st'"
    using assms(2) by (auto simp: shrunk_def same_cache_def sector_ok_def)
  note fill = fill_ok [OF this(1) v(2) ok v(4) this(2)]
  show ?thesis
    using none(1) v(1,2) fill same
    by (auto simp: fetch_sector_def fill_eq [OF \<open>cache_inv st1\<close> v(2) ok])
qed (use assms in \<open>auto simp: fetch_sector_def same_cache_def\<close>)

lemma buffer_cache_read_ok:
  assumes "cache_inv st" "sector_ok (filesys_disk st) s" "unat offset + unat sz \<le> 512"
  shows "\<exists>st'. buffer_cache_read s sz offset st = Some (st', flat_read (cache_view st) s sz offset) \<and>
    same_cache st st'"
proof -
  from fetch_sector_ok [OF assms(1,2)] obtain st' v where
    v: "fetch_sector s st = Some (st', v)" "v < 64" "same_cache st st'"
      "slot_of s (buffer_cache st' ! unat v)" by blast
  from v(3) have inv: "cache_inv st'" and view: "cache_view st' = cache_view st"
    by (auto simp: same_cache_def)
  have "data (buffer_cache st' ! unat v) = cache_view st s"
    using view_cached [OF inv _ v(4)] v(2) view by (simp add: word_less_nat_alt)
  with v(1-3) cache_invD(1) [OF inv] length_view [OF assms(1), of s] assms(3) show ?thesis
    by (simp add: buffer_cache_read_def flat_read_def)
qed

lemma store_slot_ok:
  assumes inv: "cache_inv st" and v: "v < 64" "slot_of s (buffer_cache st ! unat v)"
    and len: "length bs = 512"
  defines "c \<equiv> (buffer_cache st ! unat v)\<lparr>data := bs, dirty := True\<rparr>"
  shows "cache_inv (set_slot v c st)" "cache_view (set_slot v c st) = (cache_view st)(s := bs)"
proof -
  have v': "unat v < 64" using v(1) by (simp add: word_less_nat_alt)
  have c: "sector_no c = s" "allocated c" "data c = bs" using v(2) by (simp_all add: c_def slot_of_def)
  have only: "\<not> slot_of s (buffer_cache st ! j)" if "j < 64" "j \<noteq> unat v" for j
    using cache_invD(5) [OF inv v(2), of j] v' that by auto
  show inv': "cache_inv (set_slot v c st)"
  proof (rule inv_set_slot [OF inv v(1)])
    show "slot_ok (filesys_disk st) c"
      using cache_invD(4) [OF inv v'] v(2) len by (simp add: c_def slot_ok_def slot_of_def)
  qed (use only c in simp)
  have at: "slot_of t (buffer_cache (set_slot v c st) ! j) \<longleftrightarrow> slot_of t (buffer_cache st ! j)"
    if "j < 64" for t j
    using cache_invD(1) [OF inv] v' v(2) c that by (auto simp: nth_list_update slot_of_def)
  show "cache_view (set_slot v c st) = (cache_view st)(s := bs)"
  proof (rule view_eqI [OF inv'])
    show "data (buffer_cache (set_slot v c st) ! j) = ((cache_view st)(s := bs)) t"
      if j: "j < 64" "slot_of t (buffer_cache (set_slot v c st) ! j)" for t j
    proof (cases "j = unat v")
      case True
      with j(2) at [OF j(1)] v(2) have "t = s" by (auto simp: slot_of_def)
      with True c cache_invD(1) [OF inv] v' show ?thesis by simp
    next
      case False
      with j at [OF j(1)] only [OF j(1)] have "t \<noteq> s" "slot_of t (buffer_cache st ! j)" by auto
      with False view_cached [OF inv j(1)] show ?thesis by simp
    qed
    show "sectors (filesys_disk (set_slot v c st)) t = ((cache_view st)(s := bs)) t"
      if none: "\<And>j. j < 64 \<Longrightarrow> \<not> slot_of t (buffer_cache (set_slot v c st) ! j)" for t
    proof -
      have "\<not> slot_of t (buffer_cache st ! j)" if "j < 64" for j
        using none [OF that] at [OF that] by simp
      with view_uncached [OF inv, of t] v(2) v' show ?thesis by auto
    qed
  qed
qed

lemma buffer_cache_write_ok:
  assumes "cache_inv st" "sector_ok (filesys_disk st) s" "unat offset + unat sz \<le> 512"
    "unat sz \<le> length buffer"
  shows "\<exists>st'. buffer_cache_write s buffer sz offset st = Some st' \<and> cache_inv st' \<and>
    cache_view st' = flat_write (cache_view st) s buffer sz offset \<and>
    capacity (filesys_disk st') = capacity (filesys_disk st)"
proof -
  from fetch_sector_ok [OF assms(1,2)] obtain st1 v where
    f: "fetch_sector s st = Some (st1, v)" and v: "v < 64" "same_cache st st1"
      "slot_of s (buffer_cache st1 ! unat v)" by blast
  from v(2) have inv: "cache_inv st1" and view: "cache_view st1 = cache_view st"
    and cap: "capacity (filesys_disk st1) = capacity (filesys_disk st)"
    by (auto simp: same_cache_def)
  have data: "data (buffer_cache st1 ! unat v) = cache_view st s"
    using view_cached [OF inv _ v(3)] v(1) view by (simp add: word_less_nat_alt)
  define bs where "bs = overwrite (cache_view st s) (unat offset) (take (unat sz) buffer)"
  have len: "length bs = 512"
    using assms(3,4) length_view [OF assms(1), of s] by (simp add: bs_def)
  have "buffer_cache_write s buffer sz offset st =
      Some (set_slot v ((buffer_cache st1 ! unat v)\<lparr>data := bs, dirty := True\<rparr>) st1)"
    using f v(1) data assms(3,4) cache_invD(1) [OF inv] length_view [OF assms(1), of s]
    by (simp add: buffer_cache_write_def bs_def)
  with store_slot_ok [OF inv v(1,3) len] cap view show ?thesis
    by (simp add: flat_write_def bs_def)
qed

lemma buffer_cache_release_ok:
  assumes "cache_inv st"
  shows "\<exists>st' r. buffer_cache_release s st = Some (st', r) \<and> same_cache st st'"
  using slot_search [OF cache_invD(1) [OF assms(1)], of "slot_of s"]
proof (elim disjE conjE exE)
  fix i assume i: "slot_loop (slot_of s) (buffer_cache st) 0 = Some i" "i < 64"
    "slot_of s (buffer_cache st ! unat i)"
  with evict_ok [OF assms i(2)] show ?thesis
    by (auto simp: buffer_cache_release_def shrunk_def slot_of_def)
qed (use assms in \<open>auto simp: buffer_cache_release_def same_cache_def\<close>)

lemma spilled_ok:
  assumes "cache_inv st" "i < 64" "allocated (buffer_cache st ! i)"
  defines "st' \<equiv> st\<lparr>filesys_disk := spill (buffer_cache st ! i) (filesys_disk st)\<rparr>"
  shows "same_cache st st'"
proof -
  note ok = spill_ok [OF assms(1-3)]
  have inv': "cache_inv st'"
    unfolding st'_def by (rule inv_set_disk [OF assms(1) ok(1,2)])
  have "cache_view st' = cache_view st"
  proof (rule view_eqI [OF inv'])
    show "sectors (filesys_disk st') s = cache_view st s"
      if "\<And>j. j < 64 \<Longrightarrow> \<not> slot_of s (buffer_cache st' ! j)" for s
      using that [of i] that view_uncached [OF assms(1), of s] ok(3) [of s] assms(2,3)
      by (auto simp: st'_def slot_of_def)
  qed (use view_cached [OF assms(1)] in \<open>simp add: st'_def\<close>)
  with inv' show ?thesis by (simp add: same_cache_def st'_def)
qed

lemma write_back_slot_eq:
  assumes "cache_inv st" "i < 64"
  defines "c \<equiv> buffer_cache st ! unat i"
  shows "write_back_slot i st =
    Some (st\<lparr>filesys_disk := (if allocated c then spill c (filesys_disk st) else filesys_disk st)\<rparr>)"
proof (cases "allocated c \<and> dirty c")
  case True
  note inv = cache_invD [OF assms(1)]
  have i: "unat i < 64" using assms(2) by (simp add: word_less_nat_alt)
  have free: "\<not> buffer_lock c" unfolding c_def by (rule unlocked [OF assms(1,2)])
  let ?st = "st\<lparr>filesys_disk := spill c (filesys_disk st)\<rparr>"
  have "slot_acquire i st = Some (set_slot i (c\<lparr>buffer_lock := True\<rparr>) st)"
    using hold_slot [OF inv(1) assms(2)] free by (simp add: c_def)
  moreover have "slot_write_out i (set_slot i (c\<lparr>buffer_lock := True\<rparr>) st) =
      Some (set_slot i (c\<lparr>buffer_lock := True\<rparr>) ?st)"
    using slot_write_out_eq [OF assms(1,2)] True by (simp add: c_def)
  moreover have "slot_release i (set_slot i (c\<lparr>buffer_lock := True\<rparr>) ?st) = Some (set_slot i c ?st)"
    using free inv(1) assms(2) by (subst drop_slot) (simp_all add: clear_lock)
  moreover have "set_slot i c ?st = ?st"
    by (simp add: set_slot_def c_def)
  ultimately show ?thesis
    using True inv(1) assms(2) by (simp add: write_back_slot_def c_def)
qed (use cache_invD(1) [OF assms(1)] assms(2) in \<open>auto simp: write_back_slot_def c_def spill_def\<close>)

lemma write_back_loop:
  assumes "cache_inv st" "n \<le> 64"
  shows "\<exists>d. fold_opt write_back_slot (map of_nat [0..<n]) st = Some (st\<lparr>filesys_disk := d\<rparr>) \<and>
    same_cache st (st\<lparr>filesys_disk := d\<rparr>) \<and>
    (\<forall>i<n. allocated (buffer_cache st ! i) \<longrightarrow>
       sectors d (sector_no (buffer_cache st ! i)) = data (buffer_cache st ! i))"
  using assms(2)
proof (induction n)
  case 0
  show ?case
    using assms(1) by (intro exI [of _ "filesys_disk st"]) (simp add: same_cache_def)
next
  case (Suc n)
  then obtain d where d: "fold_opt write_back_slot (map of_nat [0..<n]) st = Some (st\<lparr>filesys_disk := d\<rparr>)"
    "same_cache st (st\<lparr>filesys_disk := d\<rparr>)"
    "\<And>i. i < n \<Longrightarrow> allocated (buffer_cache st ! i) \<Longrightarrow>
       sectors d (sector_no (buffer_cache st ! i)) = data (buffer_cache st ! i)"
    by auto
  let ?c = "buffer_cache st ! n"
  let ?d = "if allocated ?c then spill ?c d else d"
  from d(2) have inv: "cache_inv (st\<lparr>filesys_disk := d\<rparr>)" by (simp add: same_cache_def)
  have n: "(of_nat n :: u32) < 64" "unat (of_nat n :: u32) = n"
    using Suc.prems by (simp_all add: word_less_nat_alt unat_of_nat)
  have "fold_opt write_back_slot (map of_nat [0..<Suc n]) st = Some (st\<lparr>filesys_disk := ?d\<rparr>)"
    using d(1) write_back_slot_eq [OF inv n(1)] n(2) by (simp add: fold_opt_append)
  moreover have "same_cache st (st\<lparr>filesys_disk := ?d\<rparr>)"
    using spilled_ok [OF inv, of n] Suc.prems d(2) by (auto simp: same_cache_def)
  moreover have "sectors ?d (sector_no (buffer_cache st ! i)) = data (buffer_cache st ! i)"
    if "i < Suc n" "allocated (buffer_cache st ! i)" for i
  proof (cases "i = n")
    case True
    with spill_ok(3) [OF inv, of n] Suc.prems that(2) show ?thesis by simp
  next
    case False
    with that Suc.prems cache_invD(5) [OF assms(1), of "sector_no ?c" n i] d(3) [of i] show ?thesis
      by (auto simp: slot_of_def)
  qed
  ultimately show ?case by blast
qed

lemma buffer_cache_write_back_ok:
  assumes "cache_inv st"
  shows "\<exists>st'. buffer_cache_write_back st = Some st' \<and> same_cache st st' \<and>
    sectors (filesys_disk st') = cache_view st"
proof -
  from write_back_loop [OF assms order_refl] obtain d where
    d: "fold_opt write_back_slot (map of_nat [0..<64]) st = Some (st\<lparr>filesys_disk := d\<rparr>)"
      "same_cache st (st\<lparr>filesys_disk := d\<rparr>)"
      "\<And>i. i < 64 \<Longrightarrow> allocated (buffer_cache st ! i) \<Longrightarrow>
         sectors d (sector_no (buffer_cache st ! i)) = data (buffer_cache st ! i)"
    by (auto simp del: upt_rec_numeral)
  from d(2) have inv': "cache_inv (st\<lparr>filesys_disk := d\<rparr>)"
    and view: "cache_view (st\<lparr>filesys_disk := d\<rparr>) = cache_view st" by (simp_all add: same_cache_def)
  have "sectors d s = cache_view st s" for s
  proof (cases "\<exists>j<64. slot_of s (buffer_cache st ! j)")
    case True
    then obtain j where "j < 64" "slot_of s (buffer_cache st ! j)" by blast
    with d(3) [of j] view_cached [OF assms this] show ?thesis by (simp add: slot_of_def)
  next
    case False
    with view_uncached [OF inv', of s] view show ?thesis by simp
  qed
  with d(1,2) show ?thesis
    by (auto simp: buffer_cache_write_back_def BUFFER_CACHE_SIZE_def simp del: upt_rec_numeral)
qed

lemma buffer_cache_init_ok:
  assumes "cache_at_boot st"
  shows "cache_inv (buffer_cache_init st)"
    "cache_view (buffer_cache_init st) = sectors (filesys_disk st)"
    "filesys_disk (buffer_cache_init st) = filesys_disk st"
proof -
  let ?st = "buffer_cache_init st"
  have free: "j < 64 \<Longrightarrow> \<not> slot_of s (buffer_cache ?st ! j)" for s j
    using assms by (simp add: cache_at_boot_def buffer_cache_init_def slot_of_def)
  show inv: "cache_inv ?st"
    by (rule cache_invI)
      (use assms free in \<open>auto simp: cache_at_boot_def buffer_cache_init_def slot_ok_def list_all_length\<close>)
  show "filesys_disk ?st = filesys_disk st" by (simp add: buffer_cache_init_def)
  then show "cache_view ?st = sectors (filesys_disk st)"
    by (intro view_eqI [OF inv]) (use free in auto)
qed

lemma cache_op_ok_cong: "capacity d' = capacity d \<Longrightarrow> cache_op_ok d' = cache_op_ok d"
proof
  show "capacity d' = capacity d \<Longrightarrow> cache_op_ok d' op = cache_op_ok d op" for op
    by (cases op) (simp_all add: sector_ok_def)
qed

lemma run_cache_ok:
  assumes "cache_inv st" "list_all (cache_op_ok (filesys_disk st)) ops"
  shows "\<exists>st'. run_cache ops st = Some (st', snd (run_flat ops (cache_view st))) \<and> cache_inv st' \<and>
    cache_view st' = fst (run_flat ops (cache_view st))"
  using assms
proof (induction ops arbitrary: st)
  case (Cons op ops)
  from Cons.prems have op: "cache_op_ok (filesys_disk st) op"
    and rest: "list_all (cache_op_ok (filesys_disk st)) ops" by simp_all
  have IH: "\<exists>st'. run_cache ops st1 = Some (st', snd (run_flat ops (cache_view st1))) \<and> cache_inv st' \<and>
      cache_view st' = fst (run_flat ops (cache_view st1))"
    if "cache_inv st1" "capacity (filesys_disk st1) = capacity (filesys_disk st)" for st1
    using Cons.IH [OF that(1)] cache_op_ok_cong [OF that(2)] rest by simp
  show ?case
  proof (cases op)
    case (Cache_read s sz offset)
    with op buffer_cache_read_ok [OF Cons.prems(1), of s offset sz] obtain st1 where
      st1: "buffer_cache_read s sz offset st = Some (st1, flat_read (cache_view st) s sz offset)"
        "same_cache st st1" by auto
    with IH [of st1] Cache_read show ?thesis by (auto simp: same_cache_def split_beta)
  next
    case (Cache_write s buffer sz offset)
    with op buffer_cache_write_ok [OF Cons.prems(1), of s offset sz buffer] obtain st1 where
      st1: "buffer_cache_write s buffer sz offset st = Some st1" "cache_inv st1"
        "cache_view st1 = flat_write (cache_view st) s buffer sz offset"
        "capacity (filesys_disk st1) = capacity (filesys_disk st)" by auto
    with IH [of st1] Cache_write show ?thesis by simp
  next
    case (Cache_release s)
    with buffer_cache_release_ok [OF Cons.prems(1), of s] obtain st1 r where
      st1: "buffer_cache_release s st = Some (st1, r)" "same_cache st st1" by auto
    with IH [of st1] Cache_release show ?thesis by (simp add: same_cache_def)
  next
    case Cache_write_back
    with buffer_cache_write_back_ok [OF Cons.prems(1)] obtain st1 where
      st1: "buffer_cache_write_back st = Some st1" "same_cache st st1" by auto
    with IH [of st1] Cache_write_back show ?thesis by (simp add: same_cache_def)
  qed
qed simp

subsection \<open>Properties\<close>

text \<open>
  C24. The buffer cache is transparent and persistent: after \<open>buffer_cache_init\<close>, any sequence of
  reads, writes, releases and write-backs of sectors of the disk runs without a panic, every read
  returns what a plain array of sectors would return, and a final \<open>buffer_cache_write_back\<close> leaves
  on the disk exactly the contents of that array.\<close>

theorem cache_refines_disk:
  assumes "cache_at_boot st" "list_all (cache_op_ok (filesys_disk st)) ops"
  shows "\<exists>st' st''. run_cache ops (buffer_cache_init st) =
      Some (st', snd (run_flat ops (sectors (filesys_disk st)))) \<and>
    buffer_cache_write_back st' = Some st'' \<and>
    sectors (filesys_disk st'') = fst (run_flat ops (sectors (filesys_disk st)))"
proof -
  note boot = buffer_cache_init_ok [OF assms(1)]
  from run_cache_ok [OF boot(1)] assms(2) boot(2,3) obtain st' where
    "run_cache ops (buffer_cache_init st) = Some (st', snd (run_flat ops (sectors (filesys_disk st))))"
    "cache_inv st'" "cache_view st' = fst (run_flat ops (sectors (filesys_disk st)))"
    by auto
  with buffer_cache_write_back_ok [of st'] show ?thesis by auto
qed

definition blank_cache :: cache_state where
  "blank_cache = \<lparr>buffer_cache = replicate 64 \<lparr>allocated = False, sector_no = 0, accessed = False,
       dirty = False, buffer_lock = False, data = replicate 512 0\<rparr>,
     lookup_start_index = 0,
     filesys_disk = \<lparr>capacity = 100, read_cnt = 0, write_cnt = 0, sectors = (\<lambda>_. replicate 512 7)\<rparr>\<rparr>"

theorem cache_refines_disk_witness:
  "\<exists>st' st''. run_cache [Cache_write 3 [1, 2] 2 0, Cache_release 3, Cache_read 3 3 0]
      (buffer_cache_init blank_cache) = Some (st', [[1, 2, 7]]) \<and>
    buffer_cache_write_back st' = Some st'' \<and> take 3 (sectors (filesys_disk st'') 3) = [1, 2, 7]"
proof -
  let ?ops = "[Cache_write 3 [1, 2] 2 0, Cache_release 3, Cache_read 3 3 0]"
  have "cache_at_boot blank_cache"
    by (simp add: cache_at_boot_def blank_cache_def disk_ok_def list_all_length)
  moreover have "list_all (cache_op_ok (filesys_disk blank_cache)) ?ops"
    by (simp add: blank_cache_def sector_ok_def)
  moreover have "snd (run_flat ?ops (sectors (filesys_disk blank_cache))) = [[1, 2, 7]]"
    "take 3 (fst (run_flat ?ops (sectors (filesys_disk blank_cache))) 3) = [1, 2, 7]"
    by code_simp+
  ultimately show ?thesis
    using cache_refines_disk [of blank_cache ?ops] by metis
qed

text \<open>
  C25. \<open>buffer_cache_find_victim\<close> always returns, although its clock loop has no bound: it gives the
  first free slot, or else the first slot from the clock hand on whose accessed bit is clear, or
  the slot under the hand when every bit is set.  The slot it returns is free, and no sector's
  contents change: a dirty victim has been written to the disk.\<close>

theorem find_victim_terminates:
  assumes "cache_inv st"
  shows "\<exists>st' v. buffer_cache_find_victim st = Some (st', v) \<and>
    unat v = (case find (\<lambda>j. \<not> allocated (buffer_cache st ! j)) [0..<64] of
                Some j \<Rightarrow> j | None \<Rightarrow> clock_victim st) \<and>
    \<not> allocated (buffer_cache st' ! unat v) \<and> cache_inv st' \<and> cache_view st' = cache_view st"
  using slot_search [OF cache_invD(1) [OF assms], of "\<lambda>c. \<not> allocated c"]
proof (elim disjE conjE exE)
  assume none: "slot_loop (\<lambda>c. \<not> allocated c) (buffer_cache st) 0 = None"
    "\<forall>j<64. \<not> \<not> allocated (buffer_cache st ! j)"
  then have "find (\<lambda>j. \<not> allocated (buffer_cache st ! j)) [0..<64] = None"
    by (auto simp: find_None_iff simp del: upt_rec_numeral)
  with none victim_loop_clock [OF assms] show ?thesis
    by (auto simp: buffer_cache_find_victim_def shrunk_def same_cache_def)
next
  fix r assume r: "slot_loop (\<lambda>c. \<not> allocated c) (buffer_cache st) 0 = Some r" "r < 64"
    "\<not> allocated (buffer_cache st ! unat r)" "\<forall>j<unat r. \<not> \<not> allocated (buffer_cache st ! j)"
  then have "find (\<lambda>j. \<not> allocated (buffer_cache st ! j)) [0..<64] = Some (unat r)"
    by (auto simp: find_Some_iff word_less_nat_alt intro!: exI [of _ "unat r"] simp del: upt_rec_numeral)
  with r assms show ?thesis by (auto simp: buffer_cache_find_victim_def)
qed

theorem find_victim_terminates_witness:
  "cache_inv (buffer_cache_init blank_cache) \<and>
   (\<exists>st' v. buffer_cache_find_victim (buffer_cache_init blank_cache) = Some (st', v) \<and> unat v = 0)"
proof -
  have inv: "cache_inv (buffer_cache_init blank_cache)"
    by (rule buffer_cache_init_ok)
      (simp add: cache_at_boot_def blank_cache_def disk_ok_def list_all_length)
  moreover have "find (\<lambda>j. \<not> allocated (buffer_cache (buffer_cache_init blank_cache) ! j)) [0..<64] = Some 0"
    by (simp add: blank_cache_def buffer_cache_init_def upt_conv_Cons del: upt_rec_numeral)
  ultimately show ?thesis
    using find_victim_terminates [OF inv] by auto
qed

end
