(* ===== verification/Page_Table.thy ===== *)
theory Page_Table
  imports Hash_Table Pagedir
begin

text \<open>
  The supplementary page table (vm/page.c): a hash table of \<open>struct page\<close> keyed by the user
  virtual address of the page.

  A page record carries the address of its structure in the field \<open>elem\<close>, which is the structure's
  first member; the member \<open>f\<close> is the field \<open>load_f\<close>.  \<open>malloc (sizeof (struct page))\<close> is a parameter: None when it fails, or the new
  block with whatever it held before.  \<open>free\<close> is the list of the structures that a function frees.
  The table's lock is a flag of the thread.  The functions use of \<open>struct thread\<close> only the fields
  of \<open>vm_thread\<close>.

  The hash table's laws hold for \<open>page_hash\<close> and \<open>page_less\<close>, and the table then implements a
  finite map from page addresses to page records.
\<close>

record page =
  elem :: addr
  load_vaddr :: u32
  load_f :: addr
  load_filepos :: u32
  load_read_bytes :: u32
  load_zero_bytes :: u32
  writable :: bool
  swap_outed :: bool
  mmaped :: bool
  swap_index :: u32

record vm_thread =
  magic :: u32
  pagedir :: addr
  user_esp :: addr
  supplementary_page_table :: "page hash"
  supplementary_page_lock :: bool

definition THREAD_MAGIC :: u32 where
  "THREAD_MAGIC = 0xcd6abf4b"

definition page_hash :: "page \<Rightarrow> u32" where
  "page_hash p = hash_bytes (le_bytes (load_vaddr p))"

definition page_less :: "page \<Rightarrow> page \<Rightarrow> bool" where
  "page_less a b \<longleftrightarrow> load_vaddr a < load_vaddr b"

definition supplementary_lock_acquire :: "vm_thread \<Rightarrow> vm_thread option" where
  "supplementary_lock_acquire t = do {
     ASSERT (\<not> supplementary_page_lock t);
     Some (t\<lparr>supplementary_page_lock := True\<rparr>)
   }"

definition supplementary_lock_release :: "vm_thread \<Rightarrow> vm_thread option" where
  "supplementary_lock_release t = do {
     ASSERT (supplementary_page_lock t);
     Some (t\<lparr>supplementary_page_lock := False\<rparr>)
   }"

definition page_lookup ::
  "page option \<Rightarrow> addr \<Rightarrow> vm_thread \<Rightarrow> (vm_thread \<times> page option \<times> addr list) option" where
  "page_lookup mal address t = do {
     ASSERT (magic t = THREAD_MAGIC);
     t \<leftarrow> supplementary_lock_acquire t;
     case mal of
       None \<Rightarrow> do {
         t \<leftarrow> supplementary_lock_release t;
         Some (t, None, [])
       }
     | Some p \<Rightarrow> do {
         let p = p\<lparr>load_vaddr := pg_round_down address\<rparr>;
         e \<leftarrow> hash_find (supplementary_page_table t) p;
         t \<leftarrow> supplementary_lock_release t;
         Some (t, e, [elem p])
       }
   }"

text \<open>The first parameter of the functions that may resize the table is \<open>malloc\<close> in \<open>rehash\<close>.\<close>

definition page_swap_out_index ::
  "(size_t \<Rightarrow> bool) \<Rightarrow> page option \<Rightarrow> addr \<Rightarrow> bool \<Rightarrow> u32 \<Rightarrow> vm_thread \<Rightarrow>
   (vm_thread \<times> bool \<times> addr list) option" where
  "page_swap_out_index rmal mal address new_swap_outed new_index t = do {
     ASSERT (magic t = THREAD_MAGIC);
     ASSERT (\<not> hash_empty (supplementary_page_table t));
     t \<leftarrow> supplementary_lock_acquire t;
     case mal of
       None \<Rightarrow> do {
         t \<leftarrow> supplementary_lock_release t;
         Some (t, False, [])
       }
     | Some p \<Rightarrow> do {
         let p = p\<lparr>load_vaddr := pg_round_down address\<rparr>;
         e \<leftarrow> hash_find (supplementary_page_table t) p;
         case e of
           Some prev_p \<Rightarrow> do {
             let p = p\<lparr>load_filepos := load_filepos prev_p\<rparr>;
             let p = p\<lparr>load_read_bytes := load_read_bytes prev_p\<rparr>;
             let p = p\<lparr>load_zero_bytes := load_zero_bytes prev_p\<rparr>;
             let p = p\<lparr>writable := writable prev_p\<rparr>;
             let p = p\<lparr>swap_outed := new_swap_outed\<rparr>;
             let p = p\<lparr>swap_index := new_index\<rparr>;
             let p = p\<lparr>load_f := load_f prev_p\<rparr>;
             let p = p\<lparr>mmaped := mmaped prev_p\<rparr>;
             (_, h) \<leftarrow> hash_replace rmal (supplementary_page_table t) p;
             t \<leftarrow> supplementary_lock_release (t\<lparr>supplementary_page_table := h\<rparr>);
             Some (t, True, [elem prev_p])
           }
         | None \<Rightarrow> do {
             t \<leftarrow> supplementary_lock_release t;
             Some (t, False, [elem p])
           }
       }
   }"

definition remove_page :: "page \<Rightarrow> addr" where
  "remove_page target = elem target"

text \<open>Entering a new page in the table, as the page fault handler and the loader do.\<close>

definition page_enter :: "(size_t \<Rightarrow> bool) \<Rightarrow> page \<Rightarrow> vm_thread \<Rightarrow> vm_thread option" where
  "page_enter rmal pi t = do {
     t \<leftarrow> supplementary_lock_acquire t;
     (_, h) \<leftarrow> hash_replace rmal (supplementary_page_table t) pi;
     supplementary_lock_release (t\<lparr>supplementary_page_table := h\<rparr>)
   }"

text \<open>Removing a page from the table, as \<open>munmap_list\<close> does.\<close>

definition page_forget :: "(size_t \<Rightarrow> bool) \<Rightarrow> page \<Rightarrow> vm_thread \<Rightarrow> (vm_thread \<times> addr list) option" where
  "page_forget rmal pp t = do {
     t \<leftarrow> supplementary_lock_acquire t;
     (_, h) \<leftarrow> hash_delete rmal (supplementary_page_table t) pp;
     t \<leftarrow> supplementary_lock_release (t\<lparr>supplementary_page_table := h\<rparr>);
     Some (t, [elem pp])
   }"

definition set_new_dirty_page :: "addr \<Rightarrow> vm_thread \<Rightarrow> mmu \<Rightarrow> (vm_thread \<times> mmu) option" where
  "set_new_dirty_page new_esp t st =
     (if user_esp t \<noteq> new_esp \<and> is_user_vaddr new_esp
      then do {
        st \<leftarrow> pagedir_set_stack (pagedir t) (pg_round_down (user_esp t)) False st;
        let t = t\<lparr>user_esp := new_esp\<rparr>;
        st \<leftarrow> pagedir_set_stack (pagedir t) (pg_round_down (user_esp t)) True st;
        Some (t, st)
      }
      else Some (t, st))"

subsection \<open>The table as a map\<close>

definition page_map :: "vm_thread \<Rightarrow> u32 \<Rightarrow> page option" where
  "page_map t va = find (\<lambda>p. load_vaddr p = va) (elems (supplementary_page_table t))"

definition spt_ok :: "vm_thread \<Rightarrow> bool" where
  "spt_ok t \<longleftrightarrow> magic t = THREAD_MAGIC \<and> \<not> supplementary_page_lock t \<and>
     hash_wf (supplementary_page_table t) \<and> less_func (supplementary_page_table t) = page_less \<and>
     hash_func (supplementary_page_table t) = page_hash"

definition spt_room :: "vm_thread \<Rightarrow> bool" where
  "spt_room t \<longleftrightarrow> Suc (length (elems (supplementary_page_table t))) < 2 ^ 32"

interpretation pt: hash_key page_less page_hash
  by unfold_locales (auto simp: page_less_def page_hash_def)

lemma page_eqv:
  "less_func h = page_less \<Longrightarrow> eqv h p q \<longleftrightarrow> load_vaddr p = load_vaddr q"
  by (auto simp: eqv_def page_less_def)

lemma lookup_page_map:
  "spt_ok t \<Longrightarrow> lookup (supplementary_page_table t) p = page_map t (load_vaddr p)"
  by (simp add: lookup_def page_map_def page_eqv spt_ok_def)

lemma page_map_key: "page_map t va = Some p \<Longrightarrow> load_vaddr p = va"
  by (auto simp: page_map_def find_Some_iff)

lemma find_page:
  "spt_ok t \<Longrightarrow> hash_find (supplementary_page_table t) p = Some (page_map t (load_vaddr p))"
  using pt.hash_find_ok [of "supplementary_page_table t" p] lookup_page_map [of t p]
  by (simp add: spt_ok_def)

lemma replace_page:
  assumes "spt_ok t" "spt_room t"
  shows "\<exists>h. hash_replace rmal (supplementary_page_table t) p = Some (page_map t (load_vaddr p), h) \<and>
    spt_ok (t\<lparr>supplementary_page_table := h\<rparr>) \<and>
    page_map (t\<lparr>supplementary_page_table := h\<rparr>) = (page_map t)(load_vaddr p \<mapsto> p)"
proof -
  let ?h = "supplementary_page_table t"
  from assms have ok: "hash_wf ?h" "less_func ?h = page_less" "hash_func ?h = page_hash"
    by (simp_all add: spt_ok_def)
  from pt.hash_replace_ok [OF ok, of rmal p] assms(2) obtain h where
    h: "hash_replace rmal ?h p = Some (lookup ?h p, h)" "hash_wf h"
      "set (elems h) = insert p (set (elems ?h) - {x. eqv ?h x p})"
      "less_func h = page_less" "hash_func h = page_hash" by (auto simp: spt_room_def)
  let ?t = "t\<lparr>supplementary_page_table := h\<rparr>"
  have ok': "spt_ok ?t" using assms(1) h by (simp add: spt_ok_def)
  have "page_map ?t va = ((page_map t)(load_vaddr p \<mapsto> p)) va" for va
  proof -
    let ?q = "p\<lparr>load_vaddr := va\<rparr>"
    have "page_map ?t va = lookup h ?q" using lookup_page_map [OF ok', of ?q] by simp
    also have "\<dots> = (if eqv ?h p ?q then Some p else lookup ?h ?q)"
      by (rule pt.lookup_replaced [OF ok(1) h(2) ok(2) h(4,3)])
    also have "\<dots> = ((page_map t)(load_vaddr p \<mapsto> p)) va"
      using lookup_page_map [OF assms(1), of ?q] ok(2) by (auto simp: page_eqv)
    finally show ?thesis .
  qed
  with h(1) ok' lookup_page_map [OF assms(1), of p] show ?thesis by auto
qed

lemma delete_page:
  assumes "spt_ok t"
  shows "\<exists>h. hash_delete rmal (supplementary_page_table t) p = Some (page_map t (load_vaddr p), h) \<and>
    spt_ok (t\<lparr>supplementary_page_table := h\<rparr>) \<and>
    page_map (t\<lparr>supplementary_page_table := h\<rparr>) = (page_map t)(load_vaddr p := None)"
proof -
  let ?h = "supplementary_page_table t"
  from assms have ok: "hash_wf ?h" "less_func ?h = page_less" "hash_func ?h = page_hash"
    by (simp_all add: spt_ok_def)
  from pt.hash_delete_ok [OF ok, of rmal p] obtain h where
    h: "hash_delete rmal ?h p = Some (lookup ?h p, h)" "hash_wf h"
      "set (elems h) = set (elems ?h) - {x. eqv ?h x p}"
      "less_func h = page_less" "hash_func h = page_hash" by auto
  let ?t = "t\<lparr>supplementary_page_table := h\<rparr>"
  have ok': "spt_ok ?t" using assms(1) h by (simp add: spt_ok_def)
  have "page_map ?t va = Some q \<longleftrightarrow> ((page_map t)(load_vaddr p := None)) va = Some q" for va q
    using pt.lookup_Some [OF h(2,4), of "p\<lparr>load_vaddr := va\<rparr>" q]
      pt.lookup_Some [OF ok(1,2), of "p\<lparr>load_vaddr := va\<rparr>" q]
      lookup_page_map [OF ok', of "p\<lparr>load_vaddr := va\<rparr>"]
      lookup_page_map [OF assms, of "p\<lparr>load_vaddr := va\<rparr>"] h(3,4) ok(2)
    by (auto simp: page_eqv)
  then have "page_map ?t = (page_map t)(load_vaddr p := None)"
    by (intro ext) (metis not_Some_eq)
  with h(1) ok' lookup_page_map [OF assms(1), of p] show ?thesis by auto
qed

lemma lock_table:
  assumes "spt_ok t"
  shows "magic t = THREAD_MAGIC" "supplementary_lock_acquire t = Some (t\<lparr>supplementary_page_lock := True\<rparr>)"
    "supplementary_lock_release (t\<lparr>supplementary_page_lock := True\<rparr>) = Some t"
    "supplementary_lock_release (t\<lparr>supplementary_page_lock := True, supplementary_page_table := h\<rparr>) =
     Some (t\<lparr>supplementary_page_table := h\<rparr>)"
  using assms
  by (cases t; simp add: spt_ok_def supplementary_lock_acquire_def supplementary_lock_release_def)+

lemma table_empty:
  assumes "spt_ok t"
  shows "hash_empty (supplementary_page_table t) \<longleftrightarrow> page_map t = Map.empty"
proof -
  let ?h = "supplementary_page_table t"
  have "hash_empty ?h \<longleftrightarrow> elems ?h = []"
    using assms by (auto simp: hash_empty_def spt_ok_def hash_wf_def unsigned_eq_0_iff)
  also have "\<dots> \<longleftrightarrow> page_map t = Map.empty"
    unfolding page_map_def by (cases "elems ?h") (auto simp: fun_eq_iff)
  finally show ?thesis .
qed

lemma page_lookup_eq:
  "spt_ok t \<Longrightarrow> page_lookup (Some p) a t = Some (t, page_map t (pg_round_down a), [elem p])"
  "spt_ok t \<Longrightarrow> page_lookup None a t = Some (t, None, [])"
  using find_page [of t "p\<lparr>load_vaddr := pg_round_down a\<rparr>"]
  by (simp_all add: page_lookup_def lock_table)

lemma page_enter_ok:
  assumes "spt_ok t" "spt_room t"
  shows "\<exists>h. page_enter rmal p t = Some (t\<lparr>supplementary_page_table := h\<rparr>) \<and>
    spt_ok (t\<lparr>supplementary_page_table := h\<rparr>) \<and>
    page_map (t\<lparr>supplementary_page_table := h\<rparr>) = (page_map t)(load_vaddr p \<mapsto> p)"
  using replace_page [OF assms, of rmal p] lock_table [OF assms(1)] by (auto simp: page_enter_def)

lemma page_forget_ok:
  assumes "spt_ok t"
  shows "\<exists>h. page_forget rmal p t = Some (t\<lparr>supplementary_page_table := h\<rparr>, [elem p]) \<and>
    spt_ok (t\<lparr>supplementary_page_table := h\<rparr>) \<and>
    page_map (t\<lparr>supplementary_page_table := h\<rparr>) = (page_map t)(load_vaddr p := None)"
  using delete_page [OF assms, of rmal p] lock_table [OF assms(1)] by (auto simp: page_forget_def)

lemma page_swap_out_index_ok:
  assumes "spt_ok t" "spt_room t" "page_map t (pg_round_down a) = Some q"
  shows "\<exists>h. page_swap_out_index rmal (Some p) a b i t =
      Some (t\<lparr>supplementary_page_table := h\<rparr>, True, [elem q]) \<and>
    spt_ok (t\<lparr>supplementary_page_table := h\<rparr>) \<and>
    page_map (t\<lparr>supplementary_page_table := h\<rparr>) =
      (page_map t)(pg_round_down a \<mapsto> q\<lparr>elem := elem p, swap_outed := b, swap_index := i\<rparr>)"
proof -
  note lock = lock_table [OF assms(1)]
  let ?p = "q\<lparr>elem := elem p, swap_outed := b, swap_index := i\<rparr>"
  have key: "load_vaddr q = pg_round_down a" using page_map_key [OF assms(3)] .
  have new: "p\<lparr>load_vaddr := pg_round_down a, load_filepos := load_filepos q,
      load_read_bytes := load_read_bytes q, load_zero_bytes := load_zero_bytes q,
      writable := writable q, swap_outed := b, swap_index := i, load_f := load_f q,
      mmaped := mmaped q\<rparr> = ?p"
    using key by (cases p; cases q) simp
  have "hash_find (supplementary_page_table t) (p\<lparr>load_vaddr := pg_round_down a\<rparr>) = Some (Some q)"
    using find_page [OF assms(1), of "p\<lparr>load_vaddr := pg_round_down a\<rparr>"] assms(3) by simp
  moreover have "\<not> hash_empty (supplementary_page_table t)"
    using assms(3) by (auto simp: table_empty [OF assms(1)])
  moreover obtain h where "hash_replace rmal (supplementary_page_table t) ?p = Some (Some q, h)"
    "spt_ok (t\<lparr>supplementary_page_table := h\<rparr>)"
    "page_map (t\<lparr>supplementary_page_table := h\<rparr>) = (page_map t)(pg_round_down a \<mapsto> ?p)"
    using replace_page [OF assms(1,2), of rmal ?p] key assms(3) by auto
  ultimately show ?thesis
    using lock by (intro exI [of _ h]) (simp add: page_swap_out_index_def new)
qed

lemma page_swap_out_index_missing:
  assumes "spt_ok t" "page_map t (pg_round_down a) = None"
  shows "page_swap_out_index rmal (Some p) a b i t =
    (if page_map t = Map.empty then None else Some (t, False, [elem p]))"
  using find_page [OF assms(1), of "p\<lparr>load_vaddr := pg_round_down a\<rparr>"] assms lock_table [OF assms(1)]
  by (simp add: page_swap_out_index_def table_empty ASSERT_def)

subsection \<open>Properties\<close>

text \<open>
  C31. The supplementary page table implements a finite map from page addresses to page records.
  \<open>page_lookup\<close> returns the page that holds the given address and frees its key;
  entering a page (page fault handler, loader, mmap) and forgetting one (munmap) update the map at
  that page only; \<open>page_swap_out_index\<close> replaces the record by one with the new swap state and
  otherwise the same load information, freeing the old record, reports a missing page with false
  and panics on an empty table.  Every one leaves the table well formed and unlocked.\<close>

theorem page_table_is_map:
  assumes "spt_ok t" "spt_room t"
  defines "set_table h \<equiv> t\<lparr>supplementary_page_table := h\<rparr>"
  shows "page_lookup (Some p) a t = Some (t, page_map t (pg_round_down a), [elem p]) \<and>
    (\<exists>h. page_enter rmal p t = Some (set_table h) \<and> spt_ok (set_table h) \<and>
      page_map (set_table h) = (page_map t)(load_vaddr p \<mapsto> p)) \<and>
    (\<exists>h. page_forget rmal p t = Some (set_table h, [elem p]) \<and> spt_ok (set_table h) \<and>
      page_map (set_table h) = (page_map t)(load_vaddr p := None)) \<and>
    (case page_map t (pg_round_down a) of
       Some q \<Rightarrow> \<exists>h. page_swap_out_index rmal (Some p) a b i t = Some (set_table h, True, [elem q]) \<and>
         spt_ok (set_table h) \<and> page_map (set_table h) =
           (page_map t)(pg_round_down a \<mapsto> q\<lparr>elem := elem p, swap_outed := b, swap_index := i\<rparr>)
     | None \<Rightarrow> page_swap_out_index rmal (Some p) a b i t =
         (if page_map t = Map.empty then None else Some (t, False, [elem p])))"
  unfolding set_table_def
  using page_lookup_eq(1) [OF assms(1)] page_enter_ok [OF assms(1,2), of rmal p]
    page_forget_ok [OF assms(1), of rmal p] page_swap_out_index_ok [OF assms(1,2), of a _ rmal p b i]
    page_swap_out_index_missing [OF assms(1), of a rmal p b i]
  by (cases "page_map t (pg_round_down a)") simp_all

definition demo_page :: page where
  "demo_page = \<lparr>elem = 0xc0100000, load_vaddr = 0x8048000, load_f = 0, load_filepos = 0,
     load_read_bytes = 0, load_zero_bytes = 4096, writable = True, swap_outed = False, mmaped = False,
     swap_index = 0\<rparr>"

definition demo_vm :: vm_thread where
  "demo_vm = \<lparr>magic = THREAD_MAGIC, pagedir = 0, user_esp = 0xbffff000,
     supplementary_page_table = snd (hash_init (\<lambda>_. True) page_hash page_less),
     supplementary_page_lock = False\<rparr>"

lemma demo_vm_ok: "spt_ok demo_vm \<and> spt_room demo_vm \<and> page_map demo_vm = Map.empty"
  by (auto simp: demo_vm_def spt_ok_def spt_room_def page_map_def hash_init_def hash_clear_def elems_def
      hash_wf_def is_power_of_2_def turn_off_least_1bit_def intro!: placed_empty)

theorem page_table_is_map_witness:
  "\<exists>h. page_enter (\<lambda>_. False) demo_page demo_vm = Some (demo_vm\<lparr>supplementary_page_table := h\<rparr>) \<and>
     page_map (demo_vm\<lparr>supplementary_page_table := h\<rparr>) = [0x8048000 \<mapsto> demo_page]"
  using page_table_is_map [of demo_vm demo_page 0 "\<lambda>_. False" True 0] demo_vm_ok
  by (auto simp: demo_page_def)

end
