(* ===== verification/Swap.thy ===== *)
theory Swap
  imports Page_Table Cache
begin

text \<open>
  The swap table and the frame table (vm/swap.c).

  The swap table is a bitmap with one bit per page-sized slot of the swap disk; the frame table is
  the list of \<open>struct frame_elem\<close>, whose second-chance scan reads and clears the accessed bits of the
  page directories.  The two locks are flags; \<open>swap_table_scan_and_flip\<close> returns with the swap lock
  held, as the source does.  The scan has no bound in the source, so it is a partial function.
  The result of a list function is the list of the structures it frees, beside the new state.
\<close>

record frame_elem =
  fr_elem :: addr
  fr_thread :: addr
  fr_pd :: addr
  fr_vaddr :: addr

record vm =
  vm_mmu :: mmu
  frame_table :: "frame_elem list"
  swap_table :: "bitmap option"
  frame_lock :: bool
  swap_lock :: bool
  swap_disk :: disk

definition swap_lock_acquire :: "vm \<Rightarrow> vm option" where
  "swap_lock_acquire st = do {
     ASSERT (\<not> swap_lock st);
     Some (st\<lparr>swap_lock := True\<rparr>)
   }"

definition swap_lock_release :: "vm \<Rightarrow> vm option" where
  "swap_lock_release st = do {
     ASSERT (swap_lock st);
     Some (st\<lparr>swap_lock := False\<rparr>)
   }"

definition frame_lock_acquire :: "vm \<Rightarrow> vm option" where
  "frame_lock_acquire st = do {
     ASSERT (\<not> frame_lock st);
     Some (st\<lparr>frame_lock := True\<rparr>)
   }"

definition frame_lock_release :: "vm \<Rightarrow> vm option" where
  "frame_lock_release st = do {
     ASSERT (frame_lock st);
     Some (st\<lparr>frame_lock := False\<rparr>)
   }"

definition swap_table_bitmap_init ::
  "bool \<Rightarrow> (size_t \<Rightarrow> elem_type list option) \<Rightarrow> vm \<Rightarrow> vm option" where
  "swap_table_bitmap_init m_hdr m_bits st = do {
     let ss = disk_size (swap_disk st);
     let ss = ss div 8;
     b \<leftarrow> bitmap_create m_hdr m_bits ss;
     Some (st\<lparr>swap_table := b, swap_lock := False\<rparr>)
   }"

definition swap_table_bitmap_set :: "size_t \<Rightarrow> bool \<Rightarrow> vm \<Rightarrow> vm option" where
  "swap_table_bitmap_set idx toset st = do {
     st \<leftarrow> swap_lock_acquire st;
     b \<leftarrow> swap_table st;
     b \<leftarrow> bitmap_set b idx toset;
     swap_lock_release (st\<lparr>swap_table := Some b\<rparr>)
   }"

definition swap_table_scan_and_flip :: "vm \<Rightarrow> (size_t \<times> vm) option" where
  "swap_table_scan_and_flip st = do {
     st \<leftarrow> swap_lock_acquire st;
     b \<leftarrow> swap_table st;
     (ans, b) \<leftarrow> bitmap_scan_and_flip b 0 1 False;
     Some (ans, st\<lparr>swap_table := Some b\<rparr>)
   }"

definition frame_table_init :: "vm \<Rightarrow> vm" where
  "frame_table_init st = st\<lparr>frame_lock := False, frame_table := []\<rparr>"

definition frame_table_push_back :: "frame_elem \<Rightarrow> vm \<Rightarrow> vm option" where
  "frame_table_push_back e st = do {
     st \<leftarrow> frame_lock_acquire st;
     frame_lock_release (st\<lparr>frame_table := frame_table st @ [e]\<rparr>)
   }"

definition frame_table_size :: "vm \<Rightarrow> size_t" where
  "frame_table_size st = of_nat (length (frame_table st))"

definition frame_pop_front :: "vm \<Rightarrow> (frame_elem \<times> vm) option" where
  "frame_pop_front st =
     (case frame_table st of
        [] \<Rightarrow> None
      | e # es \<Rightarrow> Some (e, st\<lparr>frame_table := es\<rparr>))"

definition frame_busy :: "frame_elem \<Rightarrow> vm \<Rightarrow> bool option" where
  "frame_busy e st = do {
     a \<leftarrow> pagedir_is_accessed (fr_pd e) (fr_vaddr e) (vm_mmu st);
     if a then Some True else pagedir_is_stack (fr_pd e) (fr_vaddr e) (vm_mmu st)
   }"

partial_function (option) frame_scan :: "frame_elem \<Rightarrow> vm \<Rightarrow> (frame_elem \<times> vm) option" where
  "frame_scan totest st = do {
     busy \<leftarrow> frame_busy totest st;
     if busy
     then do {
       m \<leftarrow> pagedir_set_accessed (fr_pd totest) (fr_vaddr totest) False (vm_mmu st);
       let st = st\<lparr>vm_mmu := m\<rparr>;
       let st = st\<lparr>frame_table := frame_table st @ [totest]\<rparr>;
       (totest, st) \<leftarrow> frame_pop_front st;
       frame_scan totest st
     }
     else Some (totest, st)
   }"

definition frame_table_find_victim :: "vm \<Rightarrow> (frame_elem option \<times> vm) option" where
  "frame_table_find_victim st = do {
     st \<leftarrow> frame_lock_acquire st;
     let prev_size = frame_table_size st;
     if frame_table st = []
     then do {
       st \<leftarrow> frame_lock_release st;
       Some (None, st)
     }
     else do {
       (totest, st) \<leftarrow> frame_pop_front st;
       (totest, st) \<leftarrow> frame_scan totest st;
       let next_size = frame_table_size st;
       ASSERT (is_kernel_vaddr (fr_elem totest));
       ASSERT (is_user_vaddr (fr_vaddr totest));
       ASSERT (next_size = prev_size - 1);
       ASSERT (fr_thread totest \<noteq> 0);
       st \<leftarrow> frame_lock_release st;
       Some (Some totest, st)
     }
   }"

fun table_delete_loop :: "addr \<Rightarrow> frame_elem list \<Rightarrow> frame_elem list \<times> addr list" where
  "table_delete_loop pd [] = ([], [])"
| "table_delete_loop pd (i # es) =
     (let (kept, freed) = table_delete_loop pd es
      in if fr_pd i = pd then (kept, fr_elem i # freed) else (i # kept, freed))"

definition frame_table_delete :: "addr \<Rightarrow> vm \<Rightarrow> (vm \<times> addr list) option" where
  "frame_table_delete pd st = do {
     st \<leftarrow> frame_lock_acquire st;
     let (kept, freed) = table_delete_loop pd (frame_table st);
     st \<leftarrow> frame_lock_release (st\<lparr>frame_table := kept\<rparr>);
     Some (st, freed)
   }"

fun elem_delete_loop ::
  "addr \<Rightarrow> addr \<Rightarrow> frame_elem list \<Rightarrow> mmu \<Rightarrow> (frame_elem list \<times> addr list \<times> mmu) option" where
  "elem_delete_loop target_addr target_pd [] m = Some ([], [], m)"
| "elem_delete_loop target_addr target_pd (i # es) m =
     (if fr_vaddr i = target_addr \<and> fr_pd i = target_pd
      then do {
        (page, m) \<leftarrow> pagedir_get_page (fr_pd i) (fr_vaddr i) m;
        p \<leftarrow> palloc_free_page page (pal m);
        m \<leftarrow> pagedir_clear_page (fr_pd i) (fr_vaddr i) (m\<lparr>pal := p\<rparr>);
        (kept, freed, m) \<leftarrow> elem_delete_loop target_addr target_pd es m;
        Some (kept, fr_elem i # freed, m)
      }
      else do {
        (kept, freed, m) \<leftarrow> elem_delete_loop target_addr target_pd es m;
        Some (i # kept, freed, m)
      })"

definition frame_elem_delete :: "addr \<Rightarrow> addr \<Rightarrow> vm \<Rightarrow> (vm \<times> addr list) option" where
  "frame_elem_delete target_addr target_pd st = do {
     st \<leftarrow> frame_lock_acquire st;
     (kept, freed, m) \<leftarrow> elem_delete_loop target_addr target_pd (frame_table st) (vm_mmu st);
     st \<leftarrow> frame_lock_release (st\<lparr>frame_table := kept, vm_mmu := m\<rparr>);
     Some (st, freed)
   }"

subsection \<open>Several page directories\<close>

definition dir_pages :: "mmu \<Rightarrow> addr \<Rightarrow> addr set" where
  "dir_pages m pd = insert pd (user_tables m pd)"

definition dirs_ok :: "mmu \<Rightarrow> addr set \<Rightarrow> bool" where
  "dirs_ok m P \<longleftrightarrow> cpu_ok m \<and> (\<forall>pd \<in> P. pd_wf m pd) \<and>
     (\<forall>pd \<in> P. \<forall>pd' \<in> P. pd \<noteq> pd' \<longrightarrow> dir_pages m pd \<inter> dir_pages m pd' = {})"

definition frames_ok :: "vm \<Rightarrow> bool" where
  "frames_ok st \<longleftrightarrow> dirs_ok (vm_mmu st) (fr_pd ` set (frame_table st)) \<and>
     list_all (\<lambda>e. is_user_vaddr (fr_vaddr e) \<and> is_kernel_vaddr (fr_elem e) \<and> fr_thread e \<noteq> 0)
       (frame_table st) \<and>
     distinct (map (\<lambda>e. (fr_pd e, pg_no (fr_vaddr e))) (frame_table st))"

definition is_accessed :: "mmu \<Rightarrow> frame_elem \<Rightarrow> bool" where
  "is_accessed m e \<longleftrightarrow> pte_of m (fr_pd e) (fr_vaddr e) AND PTE_A \<noteq> 0"

definition is_stack :: "mmu \<Rightarrow> frame_elem \<Rightarrow> bool" where
  "is_stack m e \<longleftrightarrow> pte_of m (fr_pd e) (fr_vaddr e) AND PTE_S \<noteq> 0"

definition second_chance :: "mmu \<Rightarrow> frame_elem list \<Rightarrow> frame_elem option" where
  "second_chance m es =
     (case find (\<lambda>e. \<not> is_accessed m e \<and> \<not> is_stack m e) es of
        Some e \<Rightarrow> Some e
      | None \<Rightarrow> find (\<lambda>e. \<not> is_stack m e) es)"

text \<open>A directory is as it was when the memory of its pages is.\<close>

lemma dir_cong:
  assumes wf: "pd_wf m pd" and ok: "palloc_ok (pal m')" "palloc_used (pal m) \<subseteq> palloc_used (pal m')"
    and base: "base_page_dir m' = base_page_dir m"
    and same: "\<And>a. pg_round_down a \<in> dir_pages m pd \<Longrightarrow> load m' a = load m a"
  shows "pde_of m' pd = pde_of m pd" "is_user_vaddr vb \<Longrightarrow> pte_of m' pd vb = pte_of m pd vb" "pd_wf m' pd"
proof -
  have "pg_round_down (pd + 4 * pd_no vb) = pd" for vb
    by (rule entry_page(1)) (simp_all add: pd_wfD(3) [OF wf])
  then show pde: "pde_of m' pd = pde_of m pd" using same by (auto simp: pde_of_def dir_pages_def)
  show pte: "pte_of m' pd vb = pte_of m pd vb" if vb: "is_user_vaddr vb" for vb
  proof (cases "pde_of m pd vb = 0")
    case True
    with pde show ?thesis by (simp add: pte_of_def)
  next
    case False
    have "pg_round_down (pte_addr m pd vb) = table_of (pde_of m pd vb)"
      unfolding pte_addr_def by (rule entry_page(1)) (simp_all add: pd_wf_table(1) [OF wf vb False])
    then have "pg_round_down (pte_addr m pd vb) \<in> dir_pages m pd"
      using vb False by (auto simp: dir_pages_def user_tables_def)
    then show ?thesis using same by (simp add: pte_of_def pte_addr_def pde)
  qed
  have "tables_wf (pde_of m pd) (palloc_used (pal m') - {pd})"
    using wf ok(2) unfolding pd_wf_def tables_wf_def by blast
  moreover have "\<forall>va. is_user_vaddr va \<longrightarrow> pte_of m' pd va AND PTE_P \<noteq> 0 \<longrightarrow>
      pte_get_page (pte_of m' pd va) = Some (table_of (pte_of m' pd va))"
    using pd_wfD(10) [OF wf] pte by simp
  ultimately show "pd_wf m' pd"
    using pd_wfD(2,6) [OF wf] ok base unfolding pd_wf_def pde by blast
qed

lemma other_dir:
  fixes v
  assumes pd: "pd_wf m pd" "is_user_vaddr va" "pde_of m pd va \<noteq> 0"
    and pd': "pd_wf m pd'" "dir_pages m pd \<inter> dir_pages m pd' = {}"
  defines "m' \<equiv> store (pte_addr m pd va) v m"
  shows "pde_of m' pd' = pde_of m pd'" "is_user_vaddr vb \<Longrightarrow> pte_of m' pd' vb = pte_of m pd' vb"
    "pd_wf m' pd'"
proof -
  have "pg_round_down (pte_addr m pd va) = table_of (pde_of m pd va)"
    unfolding pte_addr_def by (rule entry_page(1)) (simp_all add: pd_wf_table(1) [OF pd])
  moreover have "table_of (pde_of m pd va) \<in> dir_pages m pd"
    using pd(2,3) by (auto simp: dir_pages_def user_tables_def)
  ultimately have same: "load m' a = load m a" if "pg_round_down a \<in> dir_pages m pd'" for a
    using that pd'(2) by (auto simp: m'_def)
  have ok: "palloc_ok (pal m')" "palloc_used (pal m) \<subseteq> palloc_used (pal m')" "base_page_dir m' = base_page_dir m"
    using pd_wfD(1) [OF pd(1)] by (simp_all add: m'_def)
  show "pde_of m' pd' = pde_of m pd'" "is_user_vaddr vb \<Longrightarrow> pte_of m' pd' vb = pte_of m pd' vb" "pd_wf m' pd'"
    using dir_cong [OF pd'(1) ok same] by simp_all
qed

lemma with_flag_0 [simp]: "with_flag x False 0 = 0"
  by (simp add: with_flag_def)

lemma same_page_pte: "pg_no vb = pg_no va \<Longrightarrow> pte_of m pd vb = pte_of m pd va"
  by (simp add: pg_no_eq_iff pte_of_def pte_addr_def pde_of_def)

text \<open>What clearing accessed bits leaves as it was.\<close>

definition only_flags :: "addr set \<Rightarrow> mmu \<Rightarrow> mmu \<Rightarrow> bool" where
  "only_flags P m m' \<longleftrightarrow> (\<exists>x. pal m' = (pal m)\<lparr>mem := x\<rparr>) \<and>
     base_page_dir m' = base_page_dir m \<and> ram_pages m' = ram_pages m \<and>
     (\<forall>pd \<in> P. dir_pages m' pd = dir_pages m pd) \<and>
     (\<forall>pd \<in> P. \<forall>va. is_user_vaddr va \<longrightarrow>
        pte_of m' pd va \<in> {pte_of m pd va, with_flag PTE_A False (pte_of m pd va)}) \<and>
     (\<forall>a. pg_round_down a \<notin> (\<Union>pd \<in> P. dir_pages m pd) \<longrightarrow> load m' a = load m a)"

lemma only_flags_refl: "only_flags P m m"
  by (auto simp: only_flags_def intro!: exI [of _ "load m"])

lemma with_flag_twice [simp]: "with_flag x False (with_flag x False e) = with_flag x False e"
  by (simp add: with_flag_def)

lemma only_flags_trans:
  assumes "only_flags P m m'" "only_flags P m' m''"
  shows "only_flags P m m''"
proof -
  have "pte_of m'' pd va \<in> {pte_of m pd va, with_flag PTE_A False (pte_of m pd va)}"
    if "pd \<in> P" "is_user_vaddr va" for pd va
  proof -
    have "pte_of m' pd va \<in> {pte_of m pd va, with_flag PTE_A False (pte_of m pd va)}"
      "pte_of m'' pd va \<in> {pte_of m' pd va, with_flag PTE_A False (pte_of m' pd va)}"
      using assms that unfolding only_flags_def by blast+
    then show ?thesis by auto
  qed
  with assms show ?thesis by (auto simp: only_flags_def)
qed

lemma clear_accessed:
  assumes "dirs_ok m P" "pd \<in> P" "is_user_vaddr va"
  shows "\<exists>m'. pagedir_set_accessed pd va False m = Some m' \<and> dirs_ok m' P \<and> only_flags P m m' \<and>
    (\<forall>pd' \<in> P. \<forall>vb. is_user_vaddr vb \<longrightarrow> pte_of m' pd' vb =
       (if pd' = pd \<and> pg_no vb = pg_no va then with_flag PTE_A False (pte_of m pd va) else pte_of m pd' vb))"
proof (cases "pde_of m pd va = 0")
  case True
  have "pte_of m pd vb = 0" if "pg_no vb = pg_no va" for vb
    using same_page_pte [OF that, of m pd] True by (simp add: pte_of_def)
  moreover have "pagedir_set_accessed pd va False m = Some m"
    using set_flags(1) [of m pd va False] assms True by (auto simp: dirs_ok_def)
  ultimately show ?thesis using assms(1) only_flags_refl [of P m] by auto
next
  case False
  have wf: "pd_wf m pd" and cpu: "cpu_ok m" using assms by (auto simp: dirs_ok_def)
  let ?m = "store (pte_addr m pd va) (with_flag PTE_A False (pte_of m pd va)) m"
  have run: "pagedir_set_accessed pd va False m = Some (flush pd ?m)"
    using set_flags(1) [OF wf assms(3), of False] cpu False by (simp add: Let_def)
  have own: "pd_wf ?m pd"
    using store_flag [OF wf assms(3) False, of 5 False] by (simp add: flag_bits)
  have pde: "pde_of ?m pd' = pde_of m pd'" and pdw: "pd_wf ?m pd'" if "pd' \<in> P" for pd'
  proof -
    have "pde_of ?m pd' = pde_of m pd' \<and> pd_wf ?m pd'"
    proof (cases "pd' = pd")
      case True
      with own pde_of_store_pte [OF wf assms(3) False] show ?thesis by auto
    next
      case ne: False
      with other_dir(1,3) [OF wf assms(3) False, of pd'] assms that show ?thesis
        by (auto simp: dirs_ok_def)
    qed
    then show "pde_of ?m pd' = pde_of m pd'" "pd_wf ?m pd'" by auto
  qed
  have pages: "dir_pages ?m pd' = dir_pages m pd'" if "pd' \<in> P" for pd'
    using pde [OF that] by (simp add: dir_pages_def user_tables_def)
  then have "dirs_ok (flush pd ?m) P"
    using assms(1) pdw by (simp add: dirs_ok_def dir_pages_def user_tables_def)
  moreover have pte: "pte_of ?m pd' vb =
      (if pd' = pd \<and> pg_no vb = pg_no va then with_flag PTE_A False (pte_of m pd va) else pte_of m pd' vb)"
    if "pd' \<in> P" "is_user_vaddr vb" for pd' vb
    using pte_of_store_pte [OF wf assms(3) False that(2)]
      other_dir(2) [OF wf assms(3) False _ _ that(2), of pd'] assms(1,2) that(1)
    by (cases "pd' = pd") (auto simp: dirs_ok_def)
  moreover have "only_flags P m (flush pd ?m)"
  proof -
    have "pg_round_down (pte_addr m pd va) = table_of (pde_of m pd va)"
      unfolding pte_addr_def by (rule entry_page(1)) (simp_all add: pd_wf_table(1) [OF wf assms(3) False])
    then have "pg_round_down (pte_addr m pd va) \<in> dir_pages m pd"
      using assms(3) False by (auto simp: dir_pages_def user_tables_def)
    then have "load ?m a = load m a" if "pg_round_down a \<notin> (\<Union>pd \<in> P. dir_pages m pd)" for a
      using that assms(2) by auto
    moreover have "pte_of ?m pd' vb \<in> {pte_of m pd' vb, with_flag PTE_A False (pte_of m pd' vb)}"
      if "pd' \<in> P" "is_user_vaddr vb" for pd' vb
      using pte [OF that] same_page_pte [of vb va m pd] by auto
    moreover have "\<exists>x. pal (flush pd ?m) = (pal m)\<lparr>mem := x\<rparr>" by (auto simp: store_def flush_def)
    moreover have "dir_pages (flush pd ?m) pd' = dir_pages ?m pd'" for pd'
      by (simp add: dir_pages_def user_tables_def)
    ultimately show ?thesis using pages by (simp add: only_flags_def) (simp add: store_def flush_def)
  qed
  ultimately show ?thesis using run by simp
qed

subsection \<open>The second-chance scan\<close>

text \<open>The state of the scan before it looks at the head of the list \<open>es\<close>.\<close>

definition scan_from :: "frame_elem list \<Rightarrow> vm \<Rightarrow> (frame_elem \<times> vm) option" where
  "scan_from es st = do {
     (totest, st) \<leftarrow> frame_pop_front (st\<lparr>frame_table := es\<rparr>);
     frame_scan totest st
   }"

lemma scan_from_Cons: "scan_from (e # es) st = frame_scan e (st\<lparr>frame_table := es\<rparr>)"
  by (simp add: scan_from_def frame_pop_front_def)

definition scan_ok :: "vm \<Rightarrow> frame_elem list \<Rightarrow> bool" where
  "scan_ok st es \<longleftrightarrow> dirs_ok (vm_mmu st) (fr_pd ` set es) \<and> (\<forall>e \<in> set es. is_user_vaddr (fr_vaddr e)) \<and>
     distinct (map (\<lambda>e. (fr_pd e, pg_no (fr_vaddr e))) es)"

lemma frame_busy_eq:
  assumes "scan_ok st es" "e \<in> set es" "vm_mmu st' = vm_mmu st"
  shows "frame_busy e st' = Some (is_accessed (vm_mmu st) e \<or> is_stack (vm_mmu st) e)"
  using assms get_flags(1,3) [of "vm_mmu st" "fr_pd e" "fr_vaddr e"]
  by (simp add: scan_ok_def dirs_ok_def frame_busy_def is_accessed_def is_stack_def)

lemma scan_stop:
  assumes "scan_ok st (e # es)" "\<not> is_accessed (vm_mmu st) e" "\<not> is_stack (vm_mmu st) e"
  shows "scan_from (e # es) st = Some (e, st\<lparr>frame_table := es\<rparr>)"
  unfolding scan_from_Cons
  using frame_busy_eq [OF assms(1), of e "st\<lparr>frame_table := es\<rparr>"] assms(2,3)
  by (subst frame_scan.simps) simp

lemma rotate_ok:
  assumes ok: "scan_ok st (e # es)"
  shows "\<exists>m. pagedir_set_accessed (fr_pd e) (fr_vaddr e) False (vm_mmu st) = Some m \<and>
    scan_ok (st\<lparr>vm_mmu := m\<rparr>) (es @ [e]) \<and> only_flags (fr_pd ` set (e # es)) (vm_mmu st) m \<and>
    (\<forall>x \<in> set (e # es). is_stack m x = is_stack (vm_mmu st) x \<and>
       is_accessed m x = (x \<noteq> e \<and> is_accessed (vm_mmu st) x))"
proof -
  let ?P = "fr_pd ` set (e # es)"
  from ok have dirs: "dirs_ok (vm_mmu st) ?P" and user: "\<And>x. x \<in> set (e # es) \<Longrightarrow> is_user_vaddr (fr_vaddr x)"
    and dist: "distinct (map (\<lambda>e. (fr_pd e, pg_no (fr_vaddr e))) (e # es))"
    by (auto simp: scan_ok_def)
  obtain m where m: "pagedir_set_accessed (fr_pd e) (fr_vaddr e) False (vm_mmu st) = Some m" "dirs_ok m ?P"
    and only: "only_flags ?P (vm_mmu st) m" and mpte:
    "\<And>pd vb. pd \<in> ?P \<Longrightarrow> is_user_vaddr vb \<Longrightarrow> pte_of m pd vb =
       (if pd = fr_pd e \<and> pg_no vb = pg_no (fr_vaddr e)
        then with_flag PTE_A False (pte_of (vm_mmu st) (fr_pd e) (fr_vaddr e))
        else pte_of (vm_mmu st) pd vb)"
  proof -
    have "fr_pd e \<in> ?P" "is_user_vaddr (fr_vaddr e)" using user by simp_all
    from clear_accessed [OF dirs this] that show thesis by blast
  qed
  have "scan_ok (st\<lparr>vm_mmu := m\<rparr>) (es @ [e])"
    using ok m(2) by (auto simp: scan_ok_def)
  moreover have "is_stack m x = is_stack (vm_mmu st) x \<and>
      is_accessed m x = (x \<noteq> e \<and> is_accessed (vm_mmu st) x)" if x: "x \<in> set (e # es)" for x
  proof (cases "x = e")
    case True
    with mpte [of "fr_pd e" "fr_vaddr e"] user [of e] show ?thesis
      using with_flag_bit [of 5 5 False "pte_of (vm_mmu st) (fr_pd e) (fr_vaddr e)"]
        with_flag_bit [of 5 3 False "pte_of (vm_mmu st) (fr_pd e) (fr_vaddr e)"]
      by (simp add: is_stack_def is_accessed_def flag_bits)
  next
    case False
    with x dist have "\<not> (fr_pd x = fr_pd e \<and> pg_no (fr_vaddr x) = pg_no (fr_vaddr e))"
      by (auto simp: image_iff)
    with mpte [of "fr_pd x" "fr_vaddr x"] user [OF x] x False show ?thesis
      by (auto simp: is_stack_def is_accessed_def)
  qed
  ultimately show ?thesis using m(1) only by blast
qed

lemma scan_step:
  assumes ok: "scan_ok st (e # es)" and busy: "is_accessed (vm_mmu st) e \<or> is_stack (vm_mmu st) e"
  shows "\<exists>st'. scan_from (e # es) st = scan_from (es @ [e]) st' \<and> scan_ok st' (es @ [e]) \<and>
    (\<exists>m. st' = st\<lparr>vm_mmu := m\<rparr> \<and> only_flags (fr_pd ` set (e # es)) (vm_mmu st) m) \<and>
    (\<forall>x \<in> set (e # es). is_stack (vm_mmu st') x = is_stack (vm_mmu st) x \<and>
       is_accessed (vm_mmu st') x = (x \<noteq> e \<and> is_accessed (vm_mmu st) x))"
proof -
  from rotate_ok [OF ok] obtain m where
    m: "pagedir_set_accessed (fr_pd e) (fr_vaddr e) False (vm_mmu st) = Some m"
      "scan_ok (st\<lparr>vm_mmu := m\<rparr>) (es @ [e])" "only_flags (fr_pd ` set (e # es)) (vm_mmu st) m"
      "\<forall>x \<in> set (e # es). is_stack m x = is_stack (vm_mmu st) x \<and>
         is_accessed m x = (x \<noteq> e \<and> is_accessed (vm_mmu st) x)" by blast
  have "scan_from (e # es) st = scan_from (es @ [e]) (st\<lparr>vm_mmu := m\<rparr>)"
    unfolding scan_from_Cons
    using frame_busy_eq [OF ok, of e "st\<lparr>frame_table := es\<rparr>"] busy m(1)
    by (subst frame_scan.simps) (simp add: scan_from_def)
  with m(2-4) show ?thesis by (intro exI [of _ "st\<lparr>vm_mmu := m\<rparr>"]) auto
qed

lemma scan_skip:
  assumes "scan_ok st (pre @ post)" "\<forall>e \<in> set pre. is_accessed (vm_mmu st) e \<or> is_stack (vm_mmu st) e"
  shows "\<exists>st'. scan_from (pre @ post) st = scan_from (post @ pre) st' \<and> scan_ok st' (post @ pre) \<and>
    (\<exists>m. st' = st\<lparr>vm_mmu := m\<rparr> \<and> only_flags (fr_pd ` set (pre @ post)) (vm_mmu st) m) \<and>
    (\<forall>x \<in> set (pre @ post). is_stack (vm_mmu st') x = is_stack (vm_mmu st) x \<and>
       is_accessed (vm_mmu st') x = (x \<notin> set pre \<and> is_accessed (vm_mmu st) x))"
  using assms
proof (induction pre arbitrary: post st)
  case Nil
  then show ?case by (intro exI [of _ st]) (auto intro!: exI [of _ "vm_mmu st"] only_flags_refl)
next
  case (Cons e pre)
  from scan_step [of st e "pre @ post"] Cons.prems obtain st1 where
    st1: "scan_from (e # pre @ post) st = scan_from (pre @ post @ [e]) st1"
      "scan_ok st1 (pre @ post @ [e])"
      "\<exists>m. st1 = st\<lparr>vm_mmu := m\<rparr> \<and> only_flags (fr_pd ` set (e # pre @ post)) (vm_mmu st) m"
      "\<forall>x \<in> set (e # pre @ post). is_stack (vm_mmu st1) x = is_stack (vm_mmu st) x \<and>
         is_accessed (vm_mmu st1) x = (x \<noteq> e \<and> is_accessed (vm_mmu st) x)" by auto
  have "e \<notin> set pre" using Cons.prems(1) by (auto simp: scan_ok_def)
  with st1(4) Cons.prems(2) have "\<forall>x \<in> set pre. is_accessed (vm_mmu st1) x \<or> is_stack (vm_mmu st1) x" by auto
  from Cons.IH [OF st1(2) this] obtain st2 where st2:
    "scan_from (pre @ post @ [e]) st1 = scan_from ((post @ [e]) @ pre) st2"
    "scan_ok st2 ((post @ [e]) @ pre)"
    "\<exists>m. st2 = st1\<lparr>vm_mmu := m\<rparr> \<and> only_flags (fr_pd ` set (pre @ post @ [e])) (vm_mmu st1) m"
    "\<forall>x \<in> set (pre @ post @ [e]). is_stack (vm_mmu st2) x = is_stack (vm_mmu st1) x \<and>
       is_accessed (vm_mmu st2) x = (x \<notin> set pre \<and> is_accessed (vm_mmu st1) x)" by blast
  have "\<exists>m. st2 = st\<lparr>vm_mmu := m\<rparr> \<and> only_flags (fr_pd ` set ((e # pre) @ post)) (vm_mmu st) m"
  proof -
    from st1(3) st2(3) obtain m1 m2 where m: "st1 = st\<lparr>vm_mmu := m1\<rparr>" "st2 = st1\<lparr>vm_mmu := m2\<rparr>"
      "only_flags (fr_pd ` set (e # pre @ post)) (vm_mmu st) m1"
      "only_flags (fr_pd ` set (pre @ post @ [e])) m1 m2" by auto
    moreover have "set (pre @ post @ [e]) = set ((e # pre) @ post)" by auto
    ultimately show ?thesis using only_flags_trans [OF m(3), of m2] by (intro exI [of _ m2]) simp
  qed
  with st1(1,4) st2(1,2,4) show ?case by (intro exI [of _ st2]) auto
qed

lemma find_split:
  "find P xs = Some x \<Longrightarrow> \<exists>pre post. xs = pre @ x # post \<and> P x \<and> (\<forall>y \<in> set pre. \<not> P y)"
proof (induction xs)
  case (Cons a xs)
  show ?case
  proof (cases "P a")
    case True
    with Cons.prems show ?thesis by (intro exI [of _ "[]"] exI [of _ xs]) simp
  next
    case False
    with Cons obtain pre post where "xs = pre @ x # post" "P x" "\<forall>y \<in> set pre. \<not> P y" by auto
    with False show ?thesis by (intro exI [of _ "a # pre"] exI [of _ post]) simp
  qed
qed simp

lemma scan_first_idle:
  assumes "scan_ok st es" "find (\<lambda>e. \<not> is_accessed (vm_mmu st) e \<and> \<not> is_stack (vm_mmu st) e) es = Some v"
  shows "\<exists>pre post m. es = pre @ v # post \<and>
    scan_from es st = Some (v, st\<lparr>vm_mmu := m, frame_table := post @ pre\<rparr>) \<and>
    dirs_ok m (fr_pd ` set es) \<and> only_flags (fr_pd ` set es) (vm_mmu st) m"
proof -
  obtain pre post where es: "es = pre @ v # post"
    "\<not> is_accessed (vm_mmu st) v \<and> \<not> is_stack (vm_mmu st) v"
    "\<forall>y \<in> set pre. \<not> (\<not> is_accessed (vm_mmu st) y \<and> \<not> is_stack (vm_mmu st) y)"
    using find_split [OF assms(2)] by blast
  have busy: "\<forall>y \<in> set pre. is_accessed (vm_mmu st) y \<or> is_stack (vm_mmu st) y" using es(3) by blast
  from scan_skip [OF assms(1) [unfolded es(1)] busy] obtain st1 where
    st1: "scan_from (pre @ v # post) st = scan_from ((v # post) @ pre) st1"
      "scan_ok st1 ((v # post) @ pre)"
      "\<exists>m. st1 = st\<lparr>vm_mmu := m\<rparr> \<and> only_flags (fr_pd ` set (pre @ v # post)) (vm_mmu st) m"
      "\<forall>x \<in> set (pre @ v # post). is_stack (vm_mmu st1) x = is_stack (vm_mmu st) x \<and>
         is_accessed (vm_mmu st1) x = (x \<notin> set pre \<and> is_accessed (vm_mmu st) x)" by blast
  from st1(3) obtain m where m: "st1 = st\<lparr>vm_mmu := m\<rparr>" and only: "only_flags (fr_pd ` set es) (vm_mmu st) m"
    unfolding es(1) by blast
  have "scan_from es st = Some (v, st1\<lparr>frame_table := post @ pre\<rparr>)"
    using scan_stop [of st1 v "post @ pre"] st1(1,2,4) es(1,2) by simp
  moreover have "dirs_ok m (fr_pd ` set es)"
    using st1(2) es(1) m by (simp add: scan_ok_def image_Un Un_commute)
  ultimately show ?thesis using es(1) m only by (intro exI [of _ pre] exI [of _ post] exI [of _ m]) simp
qed

lemma scan_second_chance:
  assumes ok: "scan_ok st es" and v: "second_chance (vm_mmu st) es = Some v"
  shows "\<exists>pre post m. es = pre @ v # post \<and>
    scan_from es st = Some (v, st\<lparr>vm_mmu := m, frame_table := post @ pre\<rparr>) \<and>
    dirs_ok m (fr_pd ` set es) \<and> only_flags (fr_pd ` set es) (vm_mmu st) m"
proof (cases "find (\<lambda>e. \<not> is_accessed (vm_mmu st) e \<and> \<not> is_stack (vm_mmu st) e) es")
  case (Some w)
  with v scan_first_idle [OF ok Some] show ?thesis by (simp add: second_chance_def)
next
  case None
  then have "\<forall>e \<in> set es. is_accessed (vm_mmu st) e \<or> is_stack (vm_mmu st) e"
    by (auto simp: find_None_iff)
  from scan_skip [of st es "[]", OF _ this] ok obtain st1 where
    "scan_from (es @ []) st = scan_from ([] @ es) st1" "scan_ok st1 ([] @ es)"
      "\<exists>m. st1 = st\<lparr>vm_mmu := m\<rparr> \<and> only_flags (fr_pd ` set (es @ [])) (vm_mmu st) m"
      "\<forall>x \<in> set (es @ []). is_stack (vm_mmu st1) x = is_stack (vm_mmu st) x \<and>
         is_accessed (vm_mmu st1) x = (x \<notin> set es \<and> is_accessed (vm_mmu st) x)" by auto
  then have st1: "scan_from es st = scan_from es st1" "scan_ok st1 es"
      "\<forall>x \<in> set es. is_stack (vm_mmu st1) x = is_stack (vm_mmu st) x \<and> \<not> is_accessed (vm_mmu st1) x"
    and "\<exists>m. st1 = st\<lparr>vm_mmu := m\<rparr> \<and> only_flags (fr_pd ` set es) (vm_mmu st) m" by auto
  then obtain m1 where m1: "st1 = st\<lparr>vm_mmu := m1\<rparr>" "only_flags (fr_pd ` set es) (vm_mmu st) m1" by blast
  have "find (\<lambda>e. \<not> is_accessed (vm_mmu st1) e \<and> \<not> is_stack (vm_mmu st1) e) es =
      find (\<lambda>e. \<not> is_stack (vm_mmu st) e) es"
    using st1(3) by (intro find_cong) auto
  with v None have "find (\<lambda>e. \<not> is_accessed (vm_mmu st1) e \<and> \<not> is_stack (vm_mmu st1) e) es = Some v"
    by (simp add: second_chance_def)
  from scan_first_idle [OF st1(2) this] obtain pre post m where
    "es = pre @ v # post" "scan_from es st1 = Some (v, st1\<lparr>vm_mmu := m, frame_table := post @ pre\<rparr>)"
    "dirs_ok m (fr_pd ` set es)" "only_flags (fr_pd ` set es) m1 m" unfolding m1(1) by auto
  with st1(1) only_flags_trans [OF m1(2)] m1(1) show ?thesis
    by (intro exI [of _ pre] exI [of _ post] exI [of _ m]) simp
qed

text \<open>When every frame is a stack page, the scan never returns.\<close>

lemma scan_all_stack:
  assumes "frame_scan e st = Some r"
  shows "\<not> (scan_ok st (e # frame_table st) \<and> (\<forall>x \<in> set (e # frame_table st). is_stack (vm_mmu st) x))"
  using _ assms
proof (rule frame_scan.raw_induct)
  fix scan e st r
  assume IH: "\<And>e st r. scan e st = Some r \<Longrightarrow>
      \<not> (scan_ok st (e # frame_table st) \<and> (\<forall>x \<in> set (e # frame_table st). is_stack (vm_mmu st) x))"
    and run: "do {
       busy \<leftarrow> frame_busy e st;
       if busy
       then do {
         m \<leftarrow> pagedir_set_accessed (fr_pd e) (fr_vaddr e) False (vm_mmu st);
         let st = st\<lparr>vm_mmu := m\<rparr>;
         let st = st\<lparr>frame_table := frame_table st @ [e]\<rparr>;
         (totest, st) \<leftarrow> frame_pop_front st;
         scan totest st
       }
       else Some (e, st)
     } = Some r"
  show "\<not> (scan_ok st (e # frame_table st) \<and> (\<forall>x \<in> set (e # frame_table st). is_stack (vm_mmu st) x))"
  proof
    assume all: "scan_ok st (e # frame_table st) \<and> (\<forall>x \<in> set (e # frame_table st). is_stack (vm_mmu st) x)"
    then have ok: "scan_ok st (e # frame_table st)" ..
    from rotate_ok [OF ok] obtain m where
      m: "pagedir_set_accessed (fr_pd e) (fr_vaddr e) False (vm_mmu st) = Some m"
        "scan_ok (st\<lparr>vm_mmu := m\<rparr>) (frame_table st @ [e])"
        "\<forall>x \<in> set (e # frame_table st). is_stack m x = is_stack (vm_mmu st) x" by blast
    obtain y ys where y: "frame_table st @ [e] = y # ys" by (cases "frame_table st @ [e]") auto
    have "scan y (st\<lparr>vm_mmu := m, frame_table := ys\<rparr>) = Some r"
      using run frame_busy_eq [OF ok, of e st] all m(1) y by (simp add: frame_pop_front_def)
    from IH [OF this] m(2) y have "\<not> (\<forall>x \<in> set (frame_table st @ [e]). is_stack m x)"
      by (simp add: scan_ok_def)
    with m(3) all show False by auto
  qed
qed

lemma find_victim_run:
  assumes "\<not> frame_lock st" "frame_table st \<noteq> []"
  shows "frame_table_find_victim st = do {
      (totest, st') \<leftarrow> scan_from (frame_table st) (st\<lparr>frame_lock := True\<rparr>);
      ASSERT (is_kernel_vaddr (fr_elem totest));
      ASSERT (is_user_vaddr (fr_vaddr totest));
      ASSERT (frame_table_size st' = frame_table_size st - 1);
      ASSERT (fr_thread totest \<noteq> 0);
      st' \<leftarrow> frame_lock_release st';
      Some (Some totest, st') }"
  using assms
  by (cases "frame_table st") (simp_all add: frame_table_find_victim_def frame_lock_acquire_def scan_from_def
      frame_pop_front_def frame_table_size_def)

lemma frames_scan_ok: "frames_ok st \<Longrightarrow> scan_ok (st\<lparr>frame_lock := b\<rparr>) (frame_table st)"
  by (auto simp: frames_ok_def scan_ok_def list_all_iff)

lemma victim_found:
  assumes ok: "frames_ok st" "\<not> frame_lock st" and v: "second_chance (vm_mmu st) (frame_table st) = Some v"
  shows "\<exists>pre post m. frame_table st = pre @ v # post \<and> \<not> is_stack (vm_mmu st) v \<and>
    frame_table_find_victim st = Some (Some v, st\<lparr>vm_mmu := m, frame_table := post @ pre\<rparr>) \<and>
    dirs_ok m (fr_pd ` set (frame_table st)) \<and> only_flags (fr_pd ` set (frame_table st)) (vm_mmu st) m"
proof -
  let ?es = "frame_table st" and ?st = "st\<lparr>frame_lock := True\<rparr>"
  from scan_second_chance [OF frames_scan_ok [OF ok(1)], of True v] v obtain pre post m where
    m: "?es = pre @ v # post" "scan_from ?es ?st = Some (v, ?st\<lparr>vm_mmu := m, frame_table := post @ pre\<rparr>)"
      "dirs_ok m (fr_pd ` set ?es)" "only_flags (fr_pd ` set ?es) (vm_mmu st) m" by auto
  have "\<forall>e \<in> set ?es. is_user_vaddr (fr_vaddr e) \<and> is_kernel_vaddr (fr_elem e) \<and> fr_thread e \<noteq> 0"
    using ok(1) by (simp add: frames_ok_def list_all_iff)
  then have "frame_table_find_victim st = Some (Some v, st\<lparr>vm_mmu := m, frame_table := post @ pre\<rparr>)"
    using find_victim_run [OF ok(2)] m(1,2) ok(2)
    by (cases st) (simp add: frame_table_size_def frame_lock_release_def)
  moreover have "\<not> is_stack (vm_mmu st) v"
    using v by (auto simp: second_chance_def find_Some_iff split: option.splits)
  ultimately show ?thesis using m(1,3,4) by blast
qed

subsection \<open>Properties\<close>

text \<open>
  C30. \<open>frame_table_find_victim\<close> gives a frame its second chance: with at least one frame that is not a
  stack page it always returns, and the victim is the first frame from the front that is neither
  accessed nor a stack page, or else the first one that is not a stack page; it is taken out and
  the frames before it move to the end.  Nothing but accessed bits changes in memory.  An empty
  table gives null.  When every frame is a stack page the scan does not return: it goes round the
  table for ever.\<close>

theorem find_victim_second_chance:
  assumes "frames_ok st" "\<not> frame_lock st"
  shows "case second_chance (vm_mmu st) (frame_table st) of
      Some v \<Rightarrow> (\<exists>pre post m. frame_table st = pre @ v # post \<and> \<not> is_stack (vm_mmu st) v \<and>
        frame_table_find_victim st = Some (Some v, st\<lparr>vm_mmu := m, frame_table := post @ pre\<rparr>) \<and>
        dirs_ok m (fr_pd ` set (frame_table st)) \<and> only_flags (fr_pd ` set (frame_table st)) (vm_mmu st) m)
    | None \<Rightarrow> (if frame_table st = [] then frame_table_find_victim st = Some (None, st)
               else frame_table_find_victim st = None)"
proof (cases "second_chance (vm_mmu st) (frame_table st)")
  case (Some v)
  with victim_found [OF assms Some] show ?thesis by simp
next
  case None
  let ?es = "frame_table st" and ?st = "st\<lparr>frame_lock := True\<rparr>"
  have all: "\<forall>e \<in> set ?es. is_stack (vm_mmu st) e"
    using None by (auto simp: second_chance_def find_None_iff split: option.splits)
  show ?thesis
  proof (cases ?es)
    case Nil
    moreover have "st\<lparr>frame_lock := False\<rparr> = st" using assms(2) by (cases st) simp
    ultimately show ?thesis using None assms(2)
      by (simp add: frame_table_find_victim_def frame_lock_acquire_def frame_lock_release_def)
  next
    case (Cons e es')
    have "scan_from ?es ?st = None"
      using scan_all_stack [of e "?st\<lparr>frame_table := es'\<rparr>"] frames_scan_ok [OF assms(1), of True] all
      by (cases "scan_from ?es ?st") (auto simp: Cons scan_from_Cons scan_ok_def)
    with None Cons find_victim_run [OF assms(2)] show ?thesis by simp
  qed
qed

definition demo_frame :: frame_elem where
  "demo_frame = \<lparr>fr_elem = 0xc0100000, fr_thread = 0xc0200000, fr_pd = 0xc0010000, fr_vaddr = 0x08048000\<rparr>"

definition demo_frames :: vm where
  "demo_frames = \<lparr>vm_mmu = demo_mapped, frame_table = [demo_frame], swap_table = None, frame_lock = False,
     swap_lock = False,
     swap_disk = \<lparr>capacity = 0, read_cnt = 0, write_cnt = 0, sectors = (\<lambda>_. [])\<rparr>\<rparr>"

lemma demo_frames_ok:
  "frames_ok demo_frames" "second_chance demo_mapped [demo_frame] = Some demo_frame"
proof -
  have u: "is_user_vaddr 0x08048000" "is_kernel_vaddr 0xc0100000"
    "pd_no 0x08048000 = 32" "pt_no 0x08048000 = 72"
    by (simp_all add: is_user_vaddr_def is_kernel_vaddr_def PHYS_BASE_def pd_no_def pt_no_def PGBITS_def
        PTBITS_def PTMASK_def BITMASK_def)
  show "frames_ok demo_frames"
    using demo_mapped_wf(1,2) u by (simp add: frames_ok_def demo_frames_def demo_frame_def dirs_ok_def)
  have "\<not> is_stack demo_mapped demo_frame"
    using u by (simp add: is_stack_def demo_frame_def demo_mapped_entries PTE_S_def)
  then show "second_chance demo_mapped [demo_frame] = Some demo_frame" by (simp add: second_chance_def)
qed

theorem find_victim_second_chance_witness:
  "frames_ok demo_frames \<and>
   (\<exists>m. frame_table_find_victim demo_frames =
      Some (Some demo_frame, demo_frames\<lparr>vm_mmu := m, frame_table := []\<rparr>))"
proof -
  have "second_chance (vm_mmu demo_frames) (frame_table demo_frames) = Some demo_frame"
    using demo_frames_ok(2) by (simp add: demo_frames_def)
  with find_victim_second_chance [OF demo_frames_ok(1)] obtain pre post m where
    p: "frame_table demo_frames = pre @ demo_frame # post" and
    "frame_table_find_victim demo_frames =
      Some (Some demo_frame, demo_frames\<lparr>vm_mmu := m, frame_table := post @ pre\<rparr>)"
    by (auto simp: demo_frames_def)
  moreover have "post @ pre = []"
    using arg_cong [OF p, of length] by (simp add: demo_frames_def)
  ultimately show ?thesis using demo_frames_ok(1) by auto
qed

end
