(* ===== verification/Page_Fault.thy ===== *)
theory Page_Fault
  imports Swap
begin

text \<open>
  The page fault handler (userprog/exception.c) with the virtual memory it drives: the page
  allocator, the page directories, the supplementary page tables, the frame table, the swap table
  and the swap disk.

  The state adds to these the threads' virtual memory, the running thread and the handler's
  counter.  What the handler obtains from code outside the virtual memory is a parameter of type
  \<open>services\<close>: the results of its \<open>malloc\<close> calls, in order, the bytes that \<open>file_read_at\<close> finds in a
  file and the count that \<open>file_write_at\<close> returns, whose calls are recorded in the state.  The
  result is true when the handler ends the process (\<open>thread_exit\<close>).
\<close>

section \<open>Definitions\<close>

record services =
  page_malloc :: "nat \<Rightarrow> page option"
  frame_malloc :: "nat \<Rightarrow> addr"
  bucket_malloc :: "size_t \<Rightarrow> bool"
  file_bytes :: "addr \<Rightarrow> u32 \<Rightarrow> u32 \<Rightarrow> byte list"
  file_write_cnt :: "addr \<Rightarrow> byte list \<Rightarrow> u32 \<Rightarrow> u32"

record vm_state =
  mm :: vm
  vm_threads :: "addr \<Rightarrow> vm_thread"
  running :: addr
  page_fault_cnt :: u64
  heap_calls :: nat
  freed :: "addr list"
  file_writes :: "(addr \<times> byte list \<times> u32) list"

definition STACK_BASE :: addr where
  "STACK_BASE = 0xb8000000"

definition PF_P :: u32 where
  "PF_P = 1"

definition page_bytes :: "(addr \<Rightarrow> u32) \<Rightarrow> addr \<Rightarrow> byte list" where
  "page_bytes m p = concat (map (\<lambda>k. le_bytes (m (p + 4 * of_nat k))) [0..<1024])"

definition set_page_bytes :: "addr \<Rightarrow> byte list \<Rightarrow> (addr \<Rightarrow> u32) \<Rightarrow> addr \<Rightarrow> u32" where
  "set_page_bytes p bs m =
     (\<lambda>a. if a - p < PGSIZE then le_words bs ! (unat (a - p) div 4) else m a)"

definition put_bytes :: "addr \<Rightarrow> nat \<Rightarrow> byte list \<Rightarrow> mmu \<Rightarrow> mmu" where
  "put_bytes p k bs m = m\<lparr>pal := (pal m)\<lparr>mem :=
     set_page_bytes p (overwrite (page_bytes (mem (pal m)) p) k bs) (mem (pal m))\<rparr>\<rparr>"

definition set_thread :: "addr \<Rightarrow> vm_thread \<Rightarrow> vm_state \<Rightarrow> vm_state" where
  "set_thread a t st = st\<lparr>vm_threads := (vm_threads st)(a := t)\<rparr>"

definition lookup_in :: "services \<Rightarrow> addr \<Rightarrow> addr \<Rightarrow> vm_state \<Rightarrow> (page option \<times> vm_state) option" where
  "lookup_in s address tcurrent st = do {
     (t, p, fr) \<leftarrow> page_lookup (page_malloc s (heap_calls st)) address (vm_threads st tcurrent);
     Some (p, (set_thread tcurrent t st)\<lparr>heap_calls := heap_calls st + 1, freed := freed st @ fr\<rparr>)
   }"

definition swap_index_in ::
  "services \<Rightarrow> addr \<Rightarrow> addr \<Rightarrow> bool \<Rightarrow> u32 \<Rightarrow> vm_state \<Rightarrow> vm_state option" where
  "swap_index_in s address tcurrent b i st = do {
     (t, r, fr) \<leftarrow> page_swap_out_index (bucket_malloc s) (page_malloc s (heap_calls st)) address b i
       (vm_threads st tcurrent);
     ASSERT r;
     Some ((set_thread tcurrent t st)\<lparr>heap_calls := heap_calls st + 1, freed := freed st @ fr\<rparr>)
   }"

function swap_write :: "disk \<Rightarrow> u32 \<Rightarrow> u32 \<Rightarrow> nat \<Rightarrow> byte list \<Rightarrow> disk option" where
  "swap_write d i lim cnt page =
     (if i < lim
      then do {
        d \<leftarrow> disk_write d i (take 512 (drop (cnt * 512) page));
        swap_write d (i + 1) lim (cnt + 1) page
      }
      else Some d)"
  by pat_completeness auto
termination
  by (relation "measure (\<lambda>(d, i, lim, cnt, page). unat lim - unat i)") (auto simp: count_below_measure)

function swap_read :: "disk \<Rightarrow> u32 \<Rightarrow> u32 \<Rightarrow> nat \<Rightarrow> addr \<Rightarrow> mmu \<Rightarrow> (disk \<times> mmu) option" where
  "swap_read d i lim cnt kpage m =
     (if i < lim
      then do {
        (d, bs) \<leftarrow> disk_read d i;
        swap_read d (i + 1) lim (cnt + 1) kpage (put_bytes kpage (cnt * 512) bs m)
      }
      else Some (d, m))"
  by pat_completeness auto
termination
  by (relation "measure (\<lambda>(d, i, lim, cnt, kpage, m). unat lim - unat i)") (auto simp: count_below_measure)

declare swap_write.simps [simp del] swap_read.simps [simp del]

definition set_mmu :: "mmu \<Rightarrow> vm_state \<Rightarrow> vm_state" where
  "set_mmu m st = st\<lparr>mm := (mm st)\<lparr>vm_mmu := m\<rparr>\<rparr>"

definition set_swap_disk :: "disk \<Rightarrow> vm_state \<Rightarrow> vm_state" where
  "set_swap_disk d st = st\<lparr>mm := (mm st)\<lparr>swap_disk := d\<rparr>\<rparr>"

definition swap_out_page ::
  "services \<Rightarrow> u32 \<Rightarrow> frame_elem \<Rightarrow> page \<Rightarrow> addr \<Rightarrow> vm_state \<Rightarrow> vm_state option" where
  "swap_out_page s swapping_index fr victim_page victim_kvaddr st =
     (if \<not> mmaped victim_page
      then do {
        ASSERT (victim_kvaddr \<noteq> 0);
        st \<leftarrow> swap_index_in s (fr_vaddr fr) (fr_thread fr) True swapping_index st;
        d \<leftarrow> swap_write (swap_disk (mm st)) (swapping_index * 8) (swapping_index * 8 + 8) 0
          (page_bytes (mem (pal (vm_mmu (mm st)))) victim_kvaddr);
        Some (set_swap_disk d st)
      }
      else do {
        dirty \<leftarrow> pagedir_is_dirty (fr_pd fr) (fr_vaddr fr) (vm_mmu (mm st));
        if dirty
        then do {
          m \<leftarrow> pagedir_set_dirty (fr_pd fr) (fr_vaddr fr) False (vm_mmu (mm st));
          let st = set_mmu m st;
          let bs = take (unat (load_read_bytes victim_page)) (page_bytes (mem (pal m)) victim_kvaddr);
          ASSERT (file_write_cnt s (load_f victim_page) bs (load_filepos victim_page) =
            load_read_bytes victim_page);
          Some (st\<lparr>file_writes := file_writes st @
            [(load_f victim_page, bs, load_filepos victim_page)]\<rparr>)
        }
        else Some st
      })"

definition evict_frame :: "services \<Rightarrow> vm_state \<Rightarrow> (addr \<times> vm_state) option" where
  "evict_frame s st = do {
     (swapping_index, v) \<leftarrow> swap_table_scan_and_flip (mm st);
     (e, v) \<leftarrow> frame_table_find_victim v;
     fr \<leftarrow> e;
     (p, st) \<leftarrow> lookup_in s (fr_vaddr fr) (fr_thread fr) (st\<lparr>mm := v\<rparr>);
     victim_page \<leftarrow> p;
     (victim_kvaddr, m) \<leftarrow> pagedir_get_page (fr_pd fr) (fr_vaddr fr) (vm_mmu (mm st));
     m \<leftarrow> pagedir_clear_page (fr_pd fr) (fr_vaddr fr) m;
     st \<leftarrow> swap_out_page s swapping_index fr victim_page victim_kvaddr (set_mmu m st);
     p \<leftarrow> palloc_free_page victim_kvaddr (pal (vm_mmu (mm st)));
     let st = st\<lparr>freed := freed st @ [fr_elem fr]\<rparr>;
     (kpage, p) \<leftarrow> palloc_get_page (PAL_USER OR PAL_ZERO) p;
     let st = set_mmu ((vm_mmu (mm st))\<lparr>pal := p\<rparr>) st;
     v \<leftarrow> swap_lock_release (mm st);
     Some (kpage, st\<lparr>mm := v\<rparr>)
   }"

text \<open>
  When a fault outside every recorded page grows the stack.  This is the condition of the code;
  \<open>docs/design_document_3.txt\<close> (B4) describes another one, a distance of 0x100 from \<open>user_esp\<close>.
\<close>

definition grow_heuristic :: "addr \<Rightarrow> addr \<Rightarrow> bool" where
  "grow_heuristic esp fault_addr \<longleftrightarrow>
     esp \<le> fault_addr \<or> fault_addr = esp - 4 \<or> fault_addr = esp - 32"

definition push_frame :: "services \<Rightarrow> addr \<Rightarrow> vm_state \<Rightarrow> vm_state option" where
  "push_frame s upage st = do {
     let e = frame_malloc s (heap_calls st);
     let st = st\<lparr>heap_calls := heap_calls st + 1\<rparr>;
     ASSERT (e \<noteq> 0);
     v \<leftarrow> frame_table_push_back \<lparr>fr_elem = e, fr_thread = running st,
       fr_pd = pagedir (vm_threads st (running st)), fr_vaddr = upage\<rparr> (mm st);
     Some (st\<lparr>mm := v\<rparr>)
   }"

definition map_page :: "addr \<Rightarrow> addr \<Rightarrow> bool \<Rightarrow> vm_state \<Rightarrow> (bool \<times> vm_state) option" where
  "map_page upage kpage w st = do {
     let pd = pagedir (vm_threads st (running st));
     (old, m) \<leftarrow> pagedir_get_page pd upage (vm_mmu (mm st));
     (r, m) \<leftarrow> (if old \<noteq> 0 then Some (False, m) else pagedir_set_page pd upage kpage w m);
     if \<not> r
     then do {
       p \<leftarrow> palloc_free_page kpage (pal m);
       Some (False, set_mmu (m\<lparr>pal := p\<rparr>) st)
     }
     else Some (True, set_mmu m st)
   }"

definition stack_page :: "addr \<Rightarrow> page \<Rightarrow> page" where
  "stack_page upage pi = pi\<lparr>load_vaddr := upage, load_filepos := 0, load_read_bytes := 0,
     load_zero_bytes := PGSIZE, writable := True, swap_outed := False, swap_index := 0,
     load_f := 0, mmaped := False\<rparr>"

definition grow_stack :: "services \<Rightarrow> addr \<Rightarrow> addr \<Rightarrow> vm_state \<Rightarrow> vm_state option" where
  "grow_stack s upage kpage st =
     (case page_malloc s (heap_calls st) of
        None \<Rightarrow> Some (st\<lparr>heap_calls := heap_calls st + 1\<rparr>)
      | Some pi \<Rightarrow> do {
          t \<leftarrow> page_enter (bucket_malloc s) (stack_page upage pi) (vm_threads st (running st));
          let st = (set_thread (running st) t st)\<lparr>heap_calls := heap_calls st + 1\<rparr>;
          st \<leftarrow> push_frame s upage st;
          (_, st) \<leftarrow> map_page upage kpage True st;
          Some st
        })"

definition lazy_load :: "services \<Rightarrow> page \<Rightarrow> addr \<Rightarrow> addr \<Rightarrow> vm_state \<Rightarrow> (bool \<times> vm_state) option" where
  "lazy_load s faulted_page upage kpage st = do {
     let bs = file_bytes s (load_f faulted_page) (load_read_bytes faulted_page) (load_filepos faulted_page);
     ASSERT (length bs \<le> unat (load_read_bytes faulted_page) \<and> length bs \<le> 4096);
     let st = set_mmu (put_bytes kpage 0 bs (vm_mmu (mm st))) st;
     if length bs \<noteq> unat (load_read_bytes faulted_page)
     then do {
       p \<leftarrow> palloc_free_page kpage (pal (vm_mmu (mm st)));
       Some (True, set_mmu ((vm_mmu (mm st))\<lparr>pal := p\<rparr>) st)
     }
     else do {
       (r, st) \<leftarrow> map_page upage kpage (writable faulted_page) st;
       if \<not> r then Some (False, st)
       else do {
         st \<leftarrow> push_frame s upage st;
         Some (False, st)
       }
     }
   }"

definition swap_in :: "services \<Rightarrow> page \<Rightarrow> addr \<Rightarrow> addr \<Rightarrow> vm_state \<Rightarrow> vm_state option" where
  "swap_in s faulted_page upage kpage st = do {
     let i = swap_index faulted_page;
     (d, m) \<leftarrow> swap_read (swap_disk (mm st)) (i * 8) (i * 8 + 8) 0 kpage (vm_mmu (mm st));
     let st = set_mmu m (set_swap_disk d st);
     (r, st) \<leftarrow> map_page upage kpage (writable faulted_page) st;
     if \<not> r then Some st
     else do {
       st \<leftarrow> swap_index_in s upage (running st) False 0 st;
       v \<leftarrow> swap_table_bitmap_set i False (mm st);
       push_frame s upage (st\<lparr>mm := v\<rparr>)
     }
   }"

definition fault_frame :: "services \<Rightarrow> addr \<Rightarrow> vm_state \<Rightarrow> (addr \<times> vm_state) option" where
  "fault_frame s esp st = do {
     st \<leftarrow> (if is_user_vaddr esp
       then do {
         (t, m) \<leftarrow> set_new_dirty_page esp (vm_threads st (running st)) (vm_mmu (mm st));
         Some (set_mmu m (set_thread (running st) t st))
       }
       else Some st);
     ASSERT (is_user_vaddr (user_esp (vm_threads st (running st))));
     (kpage, p) \<leftarrow> palloc_get_page (PAL_USER OR PAL_ZERO) (pal (vm_mmu (mm st)));
     let st = set_mmu ((vm_mmu (mm st))\<lparr>pal := p\<rparr>) st;
     if kpage = 0 then evict_frame s st else Some (kpage, st)
   }"

definition fault_resolve ::
  "services \<Rightarrow> addr \<Rightarrow> bool \<Rightarrow> addr \<Rightarrow> page option \<Rightarrow> vm_state \<Rightarrow> (bool \<times> vm_state) option" where
  "fault_resolve s fault_addr not_present kpage p st = do {
     let upage = pg_round_down fault_addr;
     case p of
       None \<Rightarrow>
         (if STACK_BASE \<le> fault_addr \<and>
             grow_heuristic (user_esp (vm_threads st (running st))) fault_addr \<and> is_user_vaddr fault_addr
          then do {
            st \<leftarrow> grow_stack s upage kpage st;
            Some (False, st)
          }
          else Some (True, st))
     | Some faulted_page \<Rightarrow> do {
         v \<leftarrow> swap_lock_acquire (mm st);
         v \<leftarrow> swap_lock_release v;
         let st = st\<lparr>mm := v\<rparr>;
         if not_present
         then if \<not> swap_outed faulted_page then lazy_load s faulted_page upage kpage st
              else do {
                st \<leftarrow> swap_in s faulted_page upage kpage st;
                Some (False, st)
              }
         else Some (True, st)
       }
   }"

definition page_fault :: "services \<Rightarrow> addr \<Rightarrow> addr \<Rightarrow> u32 \<Rightarrow> vm_state \<Rightarrow> (bool \<times> vm_state) option" where
  "page_fault s fault_addr esp error_code st = do {
     let st = st\<lparr>page_fault_cnt := page_fault_cnt st + 1\<rparr>;
     let not_present = (error_code AND PF_P = 0);
     (kpage, st) \<leftarrow> fault_frame s esp st;
     if kpage = 0 then Some (False, st)
     else do {
       (p, st) \<leftarrow> lookup_in s (pg_round_down fault_addr) (running st) st;
       fault_resolve s fault_addr not_present kpage p st
     }
   }"

section \<open>Pages as bytes\<close>

lemma le_bytes_le_word: "le_bytes (le_word [a, b, c, d]) = [a, b, c, d]"
proof -
  have "ucast (le_word [a, b, c, d]) = a"
    by (rule bit_word_eqI) (auto simp: bit_simps)
  moreover have "ucast (drop_bit 8 (le_word [a, b, c, d])) = b"
    by (rule bit_word_eqI) (auto simp: bit_simps dest: bit_imp_le_length)
  moreover have "ucast (drop_bit 16 (le_word [a, b, c, d])) = c"
    by (rule bit_word_eqI) (auto simp: bit_simps dest: bit_imp_le_length)
  moreover have "ucast (drop_bit 24 (le_word [a, b, c, d])) = d"
    by (rule bit_word_eqI) (auto simp: bit_simps dest: bit_imp_le_length)
  ultimately show ?thesis by (simp add: le_bytes_def del: le_word.simps)
qed

lemma le_bytes_le_words: "4 dvd length bs \<Longrightarrow> concat (map le_bytes (le_words bs)) = bs"
proof (induction bs rule: le_words.induct)
  case (1 a b c d bs)
  have "4 dvd length bs" using 1(2) by simp presburger
  with 1(1) show ?case by (simp add: le_bytes_le_word del: le_word.simps)
qed (auto dest: dvd_imp_le)

lemma length_page_bytes [simp]: "length (page_bytes m p) = 4096"
  by (simp add: page_bytes_def length_concat o_def sum_list_triv del: upt_rec_numeral)

lemma page_bytes_cong:
  assumes "\<And>a. a - p < PGSIZE \<Longrightarrow> m a = m' a"
  shows "page_bytes m p = page_bytes m' p"
proof -
  have "m (p + 4 * of_nat k) = m' (p + 4 * of_nat k)" if "k < 1024" for k
    using that by (intro assms) (simp add: PGSIZE_def PGBITS_def word_less_nat_alt unat_word_ariths unat_of_nat)
  then show ?thesis
    unfolding page_bytes_def by (intro arg_cong [of _ _ concat] map_cong) (auto simp del: upt_rec_numeral)
qed

lemma page_bytes_set [simp]:
  assumes "length bs = 4096"
  shows "page_bytes (set_page_bytes p bs m) p = bs"
proof -
  have "set_page_bytes p bs m (p + 4 * of_nat k) = le_words bs ! k" if "k < 1024" for k
    using that by (simp add: set_page_bytes_def PGSIZE_def PGBITS_def word_less_nat_alt unat_word_ariths unat_of_nat)
  then have "page_bytes (set_page_bytes p bs m) p = concat (map (\<lambda>k. le_bytes (le_words bs ! k)) [0..<1024])"
    unfolding page_bytes_def by (intro arg_cong [of _ _ concat] map_cong) (auto simp del: upt_rec_numeral)
  also have "map (\<lambda>k. le_bytes (le_words bs ! k)) [0..<1024] = map le_bytes (le_words bs)"
    using assms by (intro nth_equalityI) (auto simp: length_le_words simp del: upt_rec_numeral)
  also have "concat \<dots> = bs" using assms by (simp add: le_bytes_le_words)
  finally show ?thesis .
qed

lemma page_bytes_zero:
  assumes "\<And>a. a - p < PGSIZE \<Longrightarrow> m a = 0"
  shows "page_bytes m p = replicate 4096 0"
proof -
  have z: "le_bytes 0 = replicate 4 0" by (simp add: le_bytes_def numeral_eq_Suc)
  have "concat (map (\<lambda>k. le_bytes 0) [0..<n]) = replicate (4 * n) 0" for n :: nat
    by (induction n) (simp_all add: z replicate_add [symmetric] add.commute)
  moreover have "page_bytes m p = page_bytes (\<lambda>_. 0) p" by (rule page_bytes_cong) (use assms in simp)
  ultimately show ?thesis by (simp add: page_bytes_def del: upt_rec_numeral)
qed

lemma put_bytes_sel [simp]:
  "base_page_dir (put_bytes p k bs m) = base_page_dir m" "ram_pages (put_bytes p k bs m) = ram_pages m"
  "cr3 (put_bytes p k bs m) = cr3 m" "tlb (put_bytes p k bs m) = tlb m"
  "palloc_ok (pal (put_bytes p k bs m)) = palloc_ok (pal m)"
  "palloc_used (pal (put_bytes p k bs m)) = palloc_used (pal m)"
  by (simp_all add: put_bytes_def)

lemma put_bytes_page:
  "k + length bs \<le> 4096 \<Longrightarrow>
   page_bytes (load (put_bytes p k bs m)) p = overwrite (page_bytes (load m) p) k bs"
  by (simp add: put_bytes_def)

lemma put_bytes_other: "\<not> a - p < PGSIZE \<Longrightarrow> load (put_bytes p k bs m) a = load m a"
  by (simp add: put_bytes_def set_page_bytes_def)

section \<open>Swapping\<close>

definition slot_fits :: "disk \<Rightarrow> u32 \<Rightarrow> bool" where
  "slot_fits d i \<longleftrightarrow> 8 * unat i + 8 \<le> unat (capacity d) \<and> 8 * unat i + 8 \<le> 2 ^ 28"

lemma slot_sector:
  assumes "slot_fits d i" "k < 8"
  shows "i * 8 + of_nat k < i * 8 + 8" "sector_ok d (i * 8 + of_nat k)"
    "unat (i * 8 + of_nat k) = 8 * unat i + k"
proof -
  have u: "unat (i * 8 + of_nat k) = 8 * unat i + k" "unat (i * 8 + 8) = 8 * unat i + 8"
    using assms by (simp_all add: slot_fits_def unat_word_ariths unat_of_nat)
  show "unat (i * 8 + of_nat k) = 8 * unat i + k" by (fact u)
  show "i * 8 + of_nat k < i * 8 + 8"
    using assms(2) u unfolding word_less_nat_alt by linarith
  show "sector_ok d (i * 8 + of_nat k)"
    using assms u(1) unfolding sector_ok_def slot_fits_def word_less_nat_alt by simp
qed

definition slot_bytes :: "disk \<Rightarrow> u32 \<Rightarrow> nat \<Rightarrow> byte list" where
  "slot_bytes d i k = concat (map (\<lambda>j. sectors d (i * 8 + of_nat j)) [k..<8])"

lemma slot_sector_inj:
  assumes "slot_fits d i" "j < 8" "k < 8" "i * 8 + of_nat j = i * 8 + of_nat k"
  shows "j = k"
  using slot_sector(3) [OF assms(1,2)] slot_sector(3) [OF assms(1,3)] unfolding assms(4) by linarith

lemma swap_write_ok:
  assumes "slot_fits d i" "k \<le> 8" "length page = 4096"
  shows "\<exists>d'. swap_write d (i * 8 + of_nat k) (i * 8 + 8) k page = Some d' \<and> capacity d' = capacity d \<and>
    (\<forall>s. sectors d' s = (if \<exists>j. k \<le> j \<and> j < 8 \<and> s = i * 8 + of_nat j
       then take 512 (drop (512 * (unat s - 8 * unat i)) page) else sectors d s))"
  using assms
proof (induction "8 - k" arbitrary: k d)
  case 0
  then show ?case by (subst swap_write.simps) auto
next
  case (Suc n)
  then have k: "k < 8" by simp
  note sec = slot_sector [OF Suc.prems(1) k]
  let ?bs = "take 512 (drop (k * 512) page)"
  define d1 where "d1 = d\<lparr>write_cnt := write_cnt d + 1, sectors := (sectors d)(i * 8 + of_nat k := ?bs)\<rparr>"
  have fits: "slot_fits d1 i" using Suc.prems(1) by (simp add: slot_fits_def d1_def)
  have "disk_write d (i * 8 + of_nat k) ?bs = Some d1"
    using sec(2) k Suc.prems(3) by (simp add: disk_write_def d1_def)
  then have step: "swap_write d (i * 8 + of_nat k) (i * 8 + 8) k page =
      swap_write d1 (i * 8 + of_nat (Suc k)) (i * 8 + 8) (Suc k) page"
    using sec(1) by (subst swap_write.simps) (simp add: ac_simps)
  have n: "n = 8 - Suc k" "Suc k \<le> 8" using Suc.hyps(2) k by simp_all
  from Suc.hyps(1) [OF n(1) fits n(2) Suc.prems(3)] obtain d' where
    d': "swap_write d1 (i * 8 + of_nat (Suc k)) (i * 8 + 8) (Suc k) page = Some d'" "capacity d' = capacity d1"
      "\<And>s. sectors d' s = (if \<exists>j. Suc k \<le> j \<and> j < 8 \<and> s = i * 8 + of_nat j
         then take 512 (drop (512 * (unat s - 8 * unat i)) page) else sectors d1 s)" by blast
  have "sectors d' s = (if \<exists>j. k \<le> j \<and> j < 8 \<and> s = i * 8 + of_nat j
       then take 512 (drop (512 * (unat s - 8 * unat i)) page) else sectors d s)" for s
  proof (cases "s = i * 8 + of_nat k")
    case True
    then have "\<not> (\<exists>j. Suc k \<le> j \<and> j < 8 \<and> s = i * 8 + of_nat j)"
      using slot_sector_inj [OF Suc.prems(1) k] by fastforce
    with True d'(3) [of s] sec(3) k show ?thesis by (auto simp: d1_def mult.commute)
  next
    case False
    then have "(\<exists>j. Suc k \<le> j \<and> j < 8 \<and> s = i * 8 + of_nat j) \<longleftrightarrow> (\<exists>j. k \<le> j \<and> j < 8 \<and> s = i * 8 + of_nat j)"
      by (metis Suc_leD Suc_leI le_neq_implies_less)
    moreover have "sectors d1 s = sectors d s" using False by (simp add: d1_def)
    ultimately show ?thesis using d'(3) [of s] by (simp only:)
  qed
  with step d'(1,2) show ?case by (simp add: d1_def)
qed

lemma swap_read_ok:
  assumes "slot_fits d i" "k \<le> 8" "disk_ok d"
  shows "\<exists>d' m'. swap_read d (i * 8 + of_nat k) (i * 8 + 8) k p m = Some (d', m') \<and>
    capacity d' = capacity d \<and> sectors d' = sectors d \<and>
    (\<exists>x. m' = m\<lparr>pal := (pal m)\<lparr>mem := x\<rparr>\<rparr>) \<and> (\<forall>a. \<not> a - p < PGSIZE \<longrightarrow> load m' a = load m a) \<and>
    page_bytes (load m') p = take (512 * k) (page_bytes (load m) p) @ slot_bytes d i k"
  using assms
proof (induction "8 - k" arbitrary: k d m)
  case 0
  then show ?case by (subst swap_read.simps) (auto simp: slot_bytes_def intro!: exI [of _ "load m"])
next
  case (Suc n)
  then have k: "k < 8" by simp
  note sec = slot_sector [OF Suc.prems(1) k]
  let ?s = "i * 8 + of_nat k"
  define d1 where "d1 = d\<lparr>read_cnt := read_cnt d + 1\<rparr>"
  let ?m = "put_bytes p (k * 512) (sectors d ?s) m"
  have d1: "slot_fits d1 i" "disk_ok d1" "slot_bytes d1 i j = slot_bytes d i j" for j
    using Suc.prems(1,3) by (simp_all add: slot_fits_def d1_def disk_ok_def slot_bytes_def)
  have len: "length (sectors d ?s) = 512" using Suc.prems(3) by (simp add: disk_ok_def)
  have step: "swap_read d ?s (i * 8 + 8) k p m = swap_read d1 (i * 8 + of_nat (Suc k)) (i * 8 + 8) (Suc k) p ?m"
    using sec(1,2) by (subst swap_read.simps) (simp add: disk_read_def d1_def ac_simps)
  have n: "n = 8 - Suc k" "Suc k \<le> 8" using Suc.hyps(2) k by simp_all
  from Suc.hyps(1) [OF n(1) d1(1) n(2) d1(2), of ?m] obtain d' m' where
    "swap_read d1 (i * 8 + of_nat (Suc k)) (i * 8 + 8) (Suc k) p ?m = Some (d', m')"
    "capacity d' = capacity d1" "sectors d' = sectors d1"
    "\<exists>x. m' = ?m\<lparr>pal := (pal ?m)\<lparr>mem := x\<rparr>\<rparr>" "\<And>a. \<not> a - p < PGSIZE \<Longrightarrow> load m' a = load ?m a"
    "page_bytes (load m') p = take (512 * Suc k) (page_bytes (load ?m) p) @ slot_bytes d i (Suc k)"
    unfolding d1(3) by blast
  note m' = this
  have "page_bytes (load ?m) p = overwrite (page_bytes (load m) p) (k * 512) (sectors d ?s)"
    using len k by (intro put_bytes_page) simp
  then have "take (512 * Suc k) (page_bytes (load ?m) p) = take (512 * k) (page_bytes (load m) p) @ sectors d ?s"
    using len k by (simp add: overwrite_def mult.commute)
  moreover have "slot_bytes d i k = sectors d ?s @ slot_bytes d i (Suc k)"
    using k by (simp add: slot_bytes_def upt_conv_Cons)
  moreover have "\<exists>x. m' = m\<lparr>pal := (pal m)\<lparr>mem := x\<rparr>\<rparr>" using m'(4) by (auto simp: put_bytes_def)
  ultimately show ?case using step m' by (auto simp: d1_def put_bytes_other)
qed

section \<open>The handler\<close>

text \<open>The address of the page that the allocator returns depends only on the pool.\<close>

lemma get_page_pool:
  assumes "the_pool flags p = the_pool flags q" "palloc_get_page flags p = Some (k, p')"
  shows "\<exists>q'. palloc_get_page flags q = Some (k, q')"
  using assms
  by (auto simp: palloc_get_page_def palloc_get_multiple_def panic_simps Let_def split: if_splits prod.splits)

lemma get_page_keeps_kernel:
  assumes "palloc_get_page (PAL_USER OR PAL_ZERO) p = Some (k, p')"
  shows "kernel_pool p' = kernel_pool p"
  using assms
  by (auto simp: palloc_get_page_def palloc_get_multiple_def panic_simps Let_def set_pool_def PAL_USER_def
      PAL_ZERO_def split: if_splits prod.splits)

definition kernel_page_left :: "palloc \<Rightarrow> bool" where
  "kernel_page_left p \<longleftrightarrow> (\<exists>k p'. palloc_get_page PAL_ZERO p = Some (k, p') \<and> k \<noteq> 0)"

lemma kernel_page_left_cong: "kernel_pool p' = kernel_pool p \<Longrightarrow> kernel_page_left p' = kernel_page_left p"
  unfolding kernel_page_left_def using get_page_pool [of PAL_ZERO p p'] get_page_pool [of PAL_ZERO p' p]
  by (simp add: the_pool_def PAL_ZERO_def PAL_USER_def) metis

lemma user_round_down: "is_user_vaddr (pg_round_down a) \<longleftrightarrow> is_user_vaddr a"
  by (simp add: user_pd_no unat_pd_no unat_round_down div_mult2_eq [symmetric])

lemma page_range:
  assumes "pg_ofs p = 0"
  shows "a - p < PGSIZE \<longleftrightarrow> pg_round_down a = p"
proof -
  obtain k where k: "unat p = 4096 * k" using assms by (auto simp: pg_ofs_0 elim: dvdE)
  have "k < 2 ^ 20" using unat_u32_bound [of p] k by simp
  have "unat (a - p) < 4096 \<longleftrightarrow> unat a div 4096 = k"
  proof (cases "p \<le> a")
    case True
    then have "unat (a - p) = unat a - 4096 * k" "4096 * k \<le> unat a"
      using k by (simp_all add: unat_sub word_le_nat_alt)
    then show ?thesis by auto
  next
    case False
    then have lt: "unat a < 4096 * k" using k by (simp add: word_le_nat_alt)
    then have "unat (a - p) = 2 ^ 32 + unat a - 4096 * k"
      using k \<open>k < 2 ^ 20\<close> by (simp add: unat_sub_if_size word_size word_le_nat_alt)
    with lt \<open>k < 2 ^ 20\<close> show ?thesis by auto
  qed
  then show ?thesis
    by (auto simp: PGSIZE_def PGBITS_def word_less_nat_alt word_unat_eq_iff unat_round_down k)
qed

text \<open>Changes of the memory system that keep a directory and the presence of its pages.\<close>

definition kept_dir :: "addr \<Rightarrow> mmu \<Rightarrow> mmu \<Rightarrow> bool" where
  "kept_dir pd m m' \<longleftrightarrow> pd_wf m' pd \<and> cpu_ok m' \<and> ram_pages m' = ram_pages m \<and>
     kernel_pool (pal m') = kernel_pool (pal m) \<and>
     (\<forall>va. is_user_vaddr va \<longrightarrow> (pte_of m' pd va AND PTE_P = 0 \<longleftrightarrow> pte_of m pd va AND PTE_P = 0))"

lemma kept_dir_trans: "kept_dir pd m m' \<Longrightarrow> kept_dir pd m' m'' \<Longrightarrow> kept_dir pd m m''"
  by (simp add: kept_dir_def)

lemma pools_kept [simp]:
  "ram_pages (store a v m) = ram_pages m" "kernel_pool (pal (store a v m)) = kernel_pool (pal m)"
  "ram_pages (flush pd m) = ram_pages m"
  by (simp_all add: store_def flush_def)

lemma set_stack_ok:
  assumes "pd_wf m pd" "cpu_ok m" "is_user_vaddr va"
  shows "\<exists>m'. pagedir_set_stack pd va b m = Some m' \<and> kept_dir pd m m' \<and> (\<exists>x. pal m' = (pal m)\<lparr>mem := x\<rparr>)"
proof (cases "pde_of m pd va = 0")
  case True
  then have "pagedir_set_stack pd va b m = Some m"
    using set_flags(3) [OF assms(1,3), of b] assms(2) by simp
  moreover have "pal m = (pal m)\<lparr>mem := load m\<rparr>" by simp
  ultimately show ?thesis using assms unfolding kept_dir_def by blast
next
  case False
  let ?q = "with_flag PTE_S b (pte_of m pd va)"
  let ?m = "store (pte_addr m pd va) ?q m"
  have wf: "pd_wf ?m pd"
    using store_flag [OF assms(1,3) False, of 3 b] by (simp add: flag_bits)
  have bit: "?q AND PTE_P = 0 \<longleftrightarrow> pte_of m pd va AND PTE_P = 0"
    using with_flag_bit [of 3 0 b "pte_of m pd va"] by (simp add: flag_bits)
  have P: "pte_of ?m pd vb AND PTE_P = 0 \<longleftrightarrow> pte_of m pd vb AND PTE_P = 0" if "is_user_vaddr vb" for vb
    using pte_of_store_pte [OF assms(1,3) False that, of ?q] bit same_page_pte [of vb va m pd] by simp
  have "kept_dir pd m ?m" "kept_dir pd m (flush pd ?m)"
    using wf P assms(2) by (simp_all add: kept_dir_def)
  moreover have "\<exists>x. pal ?m = (pal m)\<lparr>mem := x\<rparr>" "\<exists>x. pal (flush pd ?m) = (pal m)\<lparr>mem := x\<rparr>"
    by (auto simp: store_def flush_def)
  ultimately show ?thesis
    using set_flags(3) [OF assms(1,3), of b] assms(2) False by (cases b) (simp_all add: Let_def)
qed

lemma set_new_dirty_page_ok:
  assumes "pd_wf m (pagedir t)" "cpu_ok m" "is_user_vaddr (user_esp t)"
  shows "\<exists>m'. set_new_dirty_page esp t m =
      Some (t\<lparr>user_esp := if is_user_vaddr esp then esp else user_esp t\<rparr>, m') \<and>
    kept_dir (pagedir t) m m' \<and> (\<exists>x. pal m' = (pal m)\<lparr>mem := x\<rparr>)"
proof (cases "user_esp t \<noteq> esp \<and> is_user_vaddr esp")
  case True
  from set_stack_ok [OF assms(1,2)] assms(3) obtain m1 x1 where
    m1: "pagedir_set_stack (pagedir t) (pg_round_down (user_esp t)) False m = Some m1"
      "kept_dir (pagedir t) m m1" "pal m1 = (pal m)\<lparr>mem := x1\<rparr>" by (metis user_round_down)
  from set_stack_ok [of m1 "pagedir t" "pg_round_down esp" True] m1(2) True obtain m2 x2 where
    m2: "pagedir_set_stack (pagedir t) (pg_round_down esp) True m1 = Some m2"
      "kept_dir (pagedir t) m1 m2" "pal m2 = (pal m1)\<lparr>mem := x2\<rparr>"
    by (auto simp: kept_dir_def user_round_down)
  then show ?thesis
    using True m1 kept_dir_trans [OF m1(2) m2(2)] by (auto simp: set_new_dirty_page_def)
next
  case False
  have "kept_dir (pagedir t) m m" using assms by (simp add: kept_dir_def)
  moreover have "\<exists>x. pal m = (pal m)\<lparr>mem := x\<rparr>" by (rule exI [of _ "load m"]) simp
  moreover have "set_new_dirty_page esp t m =
      Some (t\<lparr>user_esp := if is_user_vaddr esp then esp else user_esp t\<rparr>, m)"
    using False by (auto simp: set_new_dirty_page_def)
  ultimately show ?thesis by blast
qed

text \<open>Taking a frame for a directory: the directory is as it was, the frame is outside it.\<close>

lemma get_frame_ok:
  assumes wf: "pd_wf m pd" and cpu: "cpu_ok m"
    and get: "palloc_get_page (PAL_USER OR PAL_ZERO) (pal m) = Some (k, p)" "k \<noteq> 0"
  defines "m' \<equiv> m\<lparr>pal := p\<rparr>"
  shows "kept_dir pd m m'" "k \<in> palloc_used p - dir_pages m' pd" "\<And>a. pg_round_down a = k \<Longrightarrow> load m' a = 0"
    "pg_ofs k = 0" "is_kernel_vaddr k"
proof -
  have z: "(PAL_USER OR PAL_ZERO) AND PAL_ASSERT = 0" "(PAL_USER OR PAL_ZERO) AND PAL_ZERO \<noteq> 0"
    by (simp_all add: PAL_USER_def PAL_ZERO_def PAL_ASSERT_def)
  from pal.get_page [OF pd_wfD(1) [OF wf] z(1)] get have
    p: "palloc_ok p" "k \<notin> palloc_used (pal m)" "palloc_used p = insert k (palloc_used (pal m))"
      "\<And>a. mem p a = (if pg_round_down a = k then 0 else load m a)"
    using z(2) by auto
  have dp: "dir_pages m pd \<subseteq> palloc_used (pal m)"
    using pd_wfD(2,8) [OF wf] by (auto simp: dir_pages_def user_tables_def)
  have same: "load m' a = load m a" if "pg_round_down a \<in> dir_pages m pd" for a
    using that dp p(2,4) by (auto simp: m'_def)
  have ok: "palloc_ok (pal m')" "palloc_used (pal m) \<subseteq> palloc_used (pal m')"
    "base_page_dir m' = base_page_dir m" using p by (auto simp: m'_def)
  note c = dir_cong [OF wf ok same]
  show "kept_dir pd m m'"
    using c cpu get_page_keeps_kernel [OF get(1)] by (simp add: kept_dir_def m'_def cpu_ok_def)
  have "pde_of m' pd = pde_of m pd" by (rule dir_cong(1) [OF wf ok]) (rule same)
  then have "dir_pages m' pd = dir_pages m pd" by (simp add: dir_pages_def user_tables_def)
  with dp p(2,3) show "k \<in> palloc_used p - dir_pages m' pd" by auto
  show "load m' a = 0" if "pg_round_down a = k" for a using that p(4) by (simp add: m'_def)
  show "pg_ofs k = 0" "is_kernel_vaddr k" using pal.used_page [OF p(1), of k] p(3) by auto
qed

definition fault_ok :: "vm_state \<Rightarrow> bool" where
  "fault_ok st \<longleftrightarrow>
     (let t = vm_threads st (running st); m = vm_mmu (mm st)
      in pd_wf m (pagedir t) \<and> cpu_ok m \<and> spt_ok t \<and> spt_room t \<and> is_user_vaddr (user_esp t) \<and>
         \<not> frame_lock (mm st) \<and> \<not> swap_lock (mm st))"

definition frame_left :: "mmu \<Rightarrow> bool" where
  "frame_left m \<longleftrightarrow> (\<exists>k p. palloc_get_page (PAL_USER OR PAL_ZERO) (pal m) = Some (k, p) \<and> k \<noteq> 0 \<and>
     drop_bit 12 (k - PHYS_BASE) < ram_pages m)"

text \<open>A free frame in hand: the state in which the handler looks up the faulting page.\<close>

definition frame_in_hand :: "addr \<Rightarrow> addr \<Rightarrow> mmu \<Rightarrow> bool" where
  "frame_in_hand pd k m \<longleftrightarrow> pd_wf m pd \<and> cpu_ok m \<and> k \<in> palloc_used (pal m) - dir_pages m pd \<and> k \<noteq> 0 \<and>
     pg_ofs k = 0 \<and> is_kernel_vaddr k \<and> drop_bit 12 (k - PHYS_BASE) < ram_pages m \<and>
     kernel_page_left (pal m)"

definition touch_esp :: "addr \<Rightarrow> vm_thread \<Rightarrow> vm_thread" where
  "touch_esp esp t = t\<lparr>user_esp := if is_user_vaddr esp then esp else user_esp t\<rparr>"

lemma fault_frame_ok:
  assumes ok: "fault_ok st" and left: "frame_left (vm_mmu (mm st))" "kernel_page_left (pal (vm_mmu (mm st)))"
  defines "t \<equiv> vm_threads st (running st)"
  shows "\<exists>k m. fault_frame s esp st = Some (k, set_mmu m (set_thread (running st) (touch_esp esp t) st)) \<and>
    frame_in_hand (pagedir t) k m \<and> kept_dir (pagedir t) (vm_mmu (mm st)) m \<and>
    page_bytes (load m) k = replicate 4096 0"
proof -
  let ?m = "vm_mmu (mm st)"
  from ok have wf: "pd_wf ?m (pagedir t)" "cpu_ok ?m" "is_user_vaddr (user_esp t)"
    by (simp_all add: fault_ok_def t_def Let_def)
  from set_new_dirty_page_ok [OF wf, of esp] obtain m1 x where
    m1: "set_new_dirty_page esp t ?m = Some (touch_esp esp t, m1)" "kept_dir (pagedir t) ?m m1"
      "pal m1 = (pal ?m)\<lparr>mem := x\<rparr>" by (auto simp: touch_esp_def)
  have run1: "(if is_user_vaddr esp
       then do {
         (t', m) \<leftarrow> set_new_dirty_page esp (vm_threads st (running st)) (vm_mmu (mm st));
         Some (set_mmu m (set_thread (running st) t' st))
       }
       else Some st) = Some (set_mmu (if is_user_vaddr esp then m1 else ?m)
          (set_thread (running st) (touch_esp esp t) st))"
    using m1(1) by (simp add: t_def [symmetric] touch_esp_def)
      (simp add: set_mmu_def set_thread_def t_def)
  define m2 where "m2 = (if is_user_vaddr esp then m1 else ?m)"
  have m2: "kept_dir (pagedir t) ?m m2" "the_pool flags (pal m2) = the_pool flags (pal ?m)" for flags
    using m1 wf by (auto simp: m2_def kept_dir_def the_pool_def)
  obtain k p0 where k0: "palloc_get_page (PAL_USER OR PAL_ZERO) (pal ?m) = Some (k, p0)" "k \<noteq> 0"
    "drop_bit 12 (k - PHYS_BASE) < ram_pages ?m" using left(1) by (auto simp: frame_left_def)
  then obtain p where k: "palloc_get_page (PAL_USER OR PAL_ZERO) (pal m2) = Some (k, p)"
    using get_page_pool [OF m2(2) [symmetric] k0(1)] by blast
  have wf2: "pd_wf m2 (pagedir t)" "cpu_ok m2" using m2(1) by (simp_all add: kept_dir_def)
  note g = get_frame_ok [OF wf2 k k0(2)]
  let ?m3 = "m2\<lparr>pal := p\<rparr>"
  have kept: "kept_dir (pagedir t) ?m ?m3" by (rule kept_dir_trans [OF m2(1) g(1)])
  have "kernel_page_left (pal ?m3)"
    using left(2) kept kernel_page_left_cong [of "pal ?m3" "pal ?m"] by (simp add: kept_dir_def)
  with kept g k0(2,3) have "frame_in_hand (pagedir t) k ?m3"
    by (simp add: frame_in_hand_def kept_dir_def)
  moreover have "page_bytes (load ?m3) k = replicate 4096 0"
    by (rule page_bytes_zero) (use g(3) page_range [OF g(4)] in blast)
  moreover have "fault_frame s esp st =
      Some (k, set_mmu ?m3 (set_thread (running st) (touch_esp esp t) st))"
    using wf(3) k k0(2)
    by (simp add: fault_frame_def run1 m2_def [symmetric])
      (simp add: set_mmu_def set_thread_def touch_esp_def)
  ultimately show ?thesis using kept by blast
qed

text \<open>Mapping the frame: it keeps its contents and becomes the page's translation.\<close>

definition resolves :: "addr \<Rightarrow> addr \<Rightarrow> addr \<Rightarrow> bool \<Rightarrow> mmu \<Rightarrow> bool" where
  "resolves pd upage k w m \<longleftrightarrow> pd_wf m pd \<and> (\<exists>m'. pagedir_get_page pd upage m = Some (k, m')) \<and>
     pagedir_is_writable pd upage m = Some w"

lemma map_page_ok:
  assumes hand: "frame_in_hand (pagedir (vm_threads st (running st))) k (vm_mmu (mm st))"
    and up: "is_user_vaddr upage" "pg_ofs upage = 0"
    and absent: "pte_of (vm_mmu (mm st)) (pagedir (vm_threads st (running st))) upage AND PTE_P = 0"
  shows "\<exists>m. map_page upage k w st = Some (True, set_mmu m st) \<and>
    resolves (pagedir (vm_threads st (running st))) upage k w m \<and>
    page_bytes (load m) k = page_bytes (load (vm_mmu (mm st))) k"
proof -
  define pd where "pd = pagedir (vm_threads st (running st))"
  let ?m = "vm_mmu (mm st)"
  from hand have wf: "pd_wf ?m pd" and k: "k \<in> palloc_used (pal ?m) - dir_pages ?m pd" "pg_ofs k = 0"
      "is_kernel_vaddr k" "drop_bit 12 (k - PHYS_BASE) < ram_pages ?m" "kernel_page_left (pal ?m)"
    by (simp_all add: frame_in_hand_def pd_def)
  note absent = absent [folded pd_def]
  define m1 where "m1 = (if pde_of ?m pd upage = 0 then ?m
    else store (pte_addr ?m pd upage) (with_flag PTE_A True (pte_of ?m pd upage)) ?m)"
  have get: "pagedir_get_page pd upage ?m = Some (0, m1)"
    using get_page_spec [OF wf up(1)] absent by (simp add: m1_def)
  have page: "pg_round_down (pte_addr ?m pd upage) \<in> dir_pages ?m pd" if "pde_of ?m pd upage \<noteq> 0"
  proof -
    have "pg_round_down (pte_addr ?m pd upage) = table_of (pde_of ?m pd upage)"
      unfolding pte_addr_def by (rule entry_page(1)) (simp_all add: pd_wf_table(1) [OF wf up(1) that])
    with that up(1) show ?thesis by (auto simp: dir_pages_def user_tables_def)
  qed
  have m1: "pd_wf m1 pd" "pte_of m1 pd upage AND PTE_P = 0" "ram_pages m1 = ram_pages ?m"
    "kernel_pool (pal m1) = kernel_pool (pal ?m)" "palloc_used (pal m1) = palloc_used (pal ?m)"
    "dir_pages m1 pd = dir_pages ?m pd" "\<And>a. pg_round_down a \<notin> dir_pages ?m pd \<Longrightarrow> load m1 a = load ?m a"
    using wf absent store_flag [OF wf up(1), of 5 True] pte_of_store_pte [OF wf up(1) _ up(1)] page
      with_flag_bit [of 5 0 True "pte_of ?m pd upage"] pde_of_store_pte [OF wf up(1)]
    by (auto simp: m1_def flag_bits dir_pages_def user_tables_def)
  have left: "palloc_get_page PAL_ZERO (pal m1) \<noteq> Some (0, pal m1)"
    using kernel_page_left_cong [of "pal m1" "pal ?m"] m1(4) k(5) by (auto simp: kernel_page_left_def)
  show ?thesis
  proof (cases rule: set_page_cases [OF m1(1) up k(3,2) _ m1(2), of w])
    case (3 m2 e)
    have "load m2 a = load ?m a" if "a - k < PGSIZE" for a
    proof -
      from that have "pg_round_down a = k" using page_range [OF k(2)] by blast
      moreover have "k \<notin> {pd}" "k \<notin> user_tables m1 pd" using k(1) m1(6) by (auto simp: dir_pages_def)
      ultimately show ?thesis using k(1) m1(5,7) 3(9) [of a] by simp
    qed
    then have "page_bytes (load m2) k = page_bytes (load ?m) k" by (rule page_bytes_cong)
    moreover have "resolves pd upage k w m2"
      using 3 up get_page_spec [OF 3(2) up(1)] get_flags(4) [OF 3(2) up(1)] by (simp add: resolves_def)
    moreover have "map_page upage k w st = Some (True, set_mmu m2 st)"
      using get 3(1) by (simp add: map_page_def pd_def [symmetric])
    ultimately show ?thesis by (auto simp: pd_def)
  qed (use left k(4) m1(3) in auto)
qed

section \<open>Resolving a fault\<close>

definition services_ok :: "services \<Rightarrow> bool" where
  "services_ok s \<longleftrightarrow> (\<forall>n. page_malloc s n \<noteq> None \<and> frame_malloc s n \<noteq> 0)"

lemma set_mmu_sel [simp]:
  "mm (set_mmu m st) = (mm st)\<lparr>vm_mmu := m\<rparr>" "vm_threads (set_mmu m st) = vm_threads st"
  "running (set_mmu m st) = running st" "heap_calls (set_mmu m st) = heap_calls st"
  "mm (set_thread a t st) = mm st" "vm_threads (set_thread a t st) = (vm_threads st)(a := t)"
  "running (set_thread a t st) = running st" "heap_calls (set_thread a t st) = heap_calls st"
  "mm (set_swap_disk d st) = (mm st)\<lparr>swap_disk := d\<rparr>" "vm_threads (set_swap_disk d st) = vm_threads st"
  "running (set_swap_disk d st) = running st" "heap_calls (set_swap_disk d st) = heap_calls st"
  by (simp_all add: set_mmu_def set_thread_def set_swap_disk_def)

lemma touch_esp_sel [simp]:
  "pagedir (touch_esp esp t) = pagedir t" "spt_ok (touch_esp esp t) = spt_ok t"
  "spt_room (touch_esp esp t) = spt_room t" "page_map (touch_esp esp t) = page_map t"
  by (simp_all add: touch_esp_def spt_ok_def spt_room_def page_map_def fun_eq_iff)

text \<open>
  The state with a frame in hand, after the faulting page has been looked up: \<open>t\<close> is the running
  thread and \<open>m0\<close> the memory system when the fault occurred.
\<close>

definition looked_up :: "addr \<Rightarrow> vm_state \<Rightarrow> addr \<Rightarrow> vm_state \<Rightarrow> bool" where
  "looked_up esp st0 k st \<longleftrightarrow>
     (let t = vm_threads st0 (running st0)
      in running st = running st0 \<and> vm_threads st (running st0) = touch_esp esp t \<and>
         (\<exists>m. mm st = (mm st0)\<lparr>vm_mmu := m\<rparr>) \<and> frame_in_hand (pagedir t) k (vm_mmu (mm st)) \<and>
         kept_dir (pagedir t) (vm_mmu (mm st0)) (vm_mmu (mm st)) \<and>
         page_bytes (load (vm_mmu (mm st))) k = replicate 4096 0)"

lemma page_fault_run:
  assumes "fault_ok st" "frame_left (vm_mmu (mm st))" "kernel_page_left (pal (vm_mmu (mm st)))" "services_ok s"
  shows "\<exists>k st'. page_fault s fault_addr esp error_code st =
      fault_resolve s fault_addr (error_code AND PF_P = 0) k
        (page_map (vm_threads st (running st)) (pg_round_down fault_addr)) st' \<and> looked_up esp st k st'"
proof -
  let ?st = "st\<lparr>page_fault_cnt := page_fault_cnt st + 1\<rparr>"
  let ?t = "vm_threads st (running st)"
  have ok: "fault_ok ?st" using assms(1) by (simp add: fault_ok_def)
  from fault_frame_ok [OF ok, of s esp] assms(2,3) obtain k m where
    f: "fault_frame s esp ?st = Some (k, set_mmu m (set_thread (running st) (touch_esp esp ?t) ?st))"
    and m: "frame_in_hand (pagedir ?t) k m" "kept_dir (pagedir ?t) (vm_mmu (mm st)) m"
      "page_bytes (load m) k = replicate 4096 0" by auto
  let ?st1 = "set_mmu m (set_thread (running st) (touch_esp esp ?t) ?st)"
  obtain blk where blk: "page_malloc s (heap_calls st) = Some blk" using assms(4) by (auto simp: services_ok_def)
  have spt: "spt_ok (touch_esp esp ?t)" using assms(1) by (simp add: fault_ok_def Let_def)
  have rr: "pg_round_down (pg_round_down a) = pg_round_down a" for a
    by (simp add: word_unat_eq_iff unat_round_down)
  define st2 where "st2 = (set_thread (running st) (touch_esp esp ?t) ?st1)\<lparr>heap_calls := heap_calls st + 1,
    freed := freed ?st1 @ [elem blk]\<rparr>"
  have "lookup_in s (pg_round_down fault_addr) (running st) ?st1 =
      Some (page_map ?t (pg_round_down fault_addr), st2)"
    using page_lookup_eq(1) [OF spt, of blk "pg_round_down fault_addr"] blk
    by (simp add: lookup_in_def rr st2_def)
  moreover have "k \<noteq> 0" using m(1) by (simp add: frame_in_hand_def)
  ultimately have "page_fault s fault_addr esp error_code st = fault_resolve s fault_addr
      (error_code AND PF_P = 0) k (page_map ?t (pg_round_down fault_addr)) st2"
    using f by (simp add: page_fault_def)
  moreover have "looked_up esp st k st2"
    using m by (auto simp: looked_up_def st2_def Let_def)
  ultimately show ?thesis by blast
qed

text \<open>The page is in: the state \<open>st\<close> after a fault in the state \<open>st0\<close>.\<close>

definition page_in :: "vm_state \<Rightarrow> addr \<Rightarrow> byte list \<Rightarrow> bool \<Rightarrow> vm_state \<Rightarrow> bool" where
  "page_in st0 upage bs w st \<longleftrightarrow>
     (let pd = pagedir (vm_threads st0 (running st0))
      in \<exists>k e. resolves pd upage k w (vm_mmu (mm st)) \<and> page_bytes (load (vm_mmu (mm st))) k = bs \<and>
           frame_table (mm st) = frame_table (mm st0) @
             [\<lparr>fr_elem = e, fr_thread = running st0, fr_pd = pd, fr_vaddr = upage\<rparr>])"

lemma push_frame_ok:
  assumes "services_ok s" "\<not> frame_lock (mm st)"
  shows "\<exists>e. push_frame s upage st = Some (st\<lparr>heap_calls := heap_calls st + 1, mm := (mm st)\<lparr>frame_table :=
    frame_table (mm st) @ [\<lparr>fr_elem = e, fr_thread = running st,
      fr_pd = pagedir (vm_threads st (running st)), fr_vaddr = upage\<rparr>]\<rparr>\<rparr>)"
proof -
  have "frame_malloc s (heap_calls st) \<noteq> 0" using assms(1) by (simp add: services_ok_def)
  moreover have "frame_table_push_back e (mm st) = Some ((mm st)\<lparr>frame_table := frame_table (mm st) @ [e]\<rparr>)" for e
    using assms(2)
    by (cases "mm st") (simp add: frame_table_push_back_def frame_lock_acquire_def frame_lock_release_def)
  ultimately show ?thesis
    by (intro exI [of _ "frame_malloc s (heap_calls st)"]) (simp add: push_frame_def)
qed

lemma round_down_aligned [simp]: "pg_ofs (pg_round_down a) = 0"
  by (simp add: pg_ofs_0 unat_round_down)

lemma looked_upD:
  assumes "looked_up esp st0 k st"
  defines "t \<equiv> vm_threads st0 (running st0)"
  shows "running st = running st0" "vm_threads st (running st0) = touch_esp esp t"
    "frame_in_hand (pagedir t) k (vm_mmu (mm st))"
    "is_user_vaddr va \<Longrightarrow> pte_of (vm_mmu (mm st)) (pagedir t) va AND PTE_P = 0 \<longleftrightarrow>
       pte_of (vm_mmu (mm st0)) (pagedir t) va AND PTE_P = 0"
    "page_bytes (load (vm_mmu (mm st))) k = replicate 4096 0"
    "frame_table (mm st) = frame_table (mm st0)" "frame_lock (mm st) = frame_lock (mm st0)"
    "swap_lock (mm st) = swap_lock (mm st0)" "swap_disk (mm st) = swap_disk (mm st0)"
    "swap_table (mm st) = swap_table (mm st0)"
  using assms by (auto simp: looked_up_def Let_def kept_dir_def)

lemma grow_stack_ok:
  assumes ok: "fault_ok st0" and s: "services_ok s" and l: "looked_up esp st0 k st"
    and up: "is_user_vaddr fa"
      "pte_of (vm_mmu (mm st0)) (pagedir (vm_threads st0 (running st0))) (pg_round_down fa) AND PTE_P = 0"
  shows "\<exists>st'. grow_stack s (pg_round_down fa) k st = Some st' \<and>
    page_in st0 (pg_round_down fa) (replicate 4096 0) True st' \<and>
    (\<exists>p. page_map (vm_threads st' (running st0)) =
        (page_map (vm_threads st0 (running st0)))(pg_round_down fa \<mapsto> p) \<and>
      writable p \<and> \<not> swap_outed p \<and> \<not> mmaped p)"
proof -
  let ?up = "pg_round_down fa" and ?t = "vm_threads st0 (running st0)"
  note L = looked_upD [OF l]
  have uu: "is_user_vaddr ?up" using up(1) by (simp add: user_round_down)
  obtain blk where blk: "page_malloc s (heap_calls st) = Some blk" using s by (auto simp: services_ok_def)
  define p where "p = stack_page ?up blk"
  have "spt_ok (touch_esp esp ?t)" "spt_room (touch_esp esp ?t)"
    using ok by (simp_all add: fault_ok_def Let_def)
  from page_enter_ok [OF this, of "bucket_malloc s" p] obtain h where
    h: "page_enter (bucket_malloc s) p (touch_esp esp ?t) = Some ((touch_esp esp ?t)\<lparr>supplementary_page_table := h\<rparr>)"
      "page_map ((touch_esp esp ?t)\<lparr>supplementary_page_table := h\<rparr>) = (page_map ?t)(load_vaddr p \<mapsto> p)" by auto
  let ?t' = "(touch_esp esp ?t)\<lparr>supplementary_page_table := h\<rparr>"
  define st1 where "st1 = (set_thread (running st0) ?t' st)\<lparr>heap_calls := Suc (heap_calls st)\<rparr>"
  have lock: "\<not> frame_lock (mm st1)" using ok L(7) by (simp add: st1_def fault_ok_def Let_def)
  from push_frame_ok [OF s lock, of ?up] obtain e st2 where push: "push_frame s ?up st1 = Some st2"
    and st2_def: "st2 = st1\<lparr>heap_calls := heap_calls st1 + 1, mm := (mm st1)\<lparr>frame_table :=
      frame_table (mm st1) @ [\<lparr>fr_elem = e, fr_thread = running st1,
        fr_pd = pagedir (vm_threads st1 (running st1)), fr_vaddr = ?up\<rparr>]\<rparr>\<rparr>" by blast
  have st2: "running st2 = running st0" "vm_threads st2 (running st0) = ?t'" "vm_mmu (mm st2) = vm_mmu (mm st)"
    using L(1) by (simp_all add: st2_def st1_def)
  have "pte_of (vm_mmu (mm st2)) (pagedir (vm_threads st2 (running st2))) ?up AND PTE_P = 0"
    using st2 L(4) [OF uu] up(2) by simp
  from map_page_ok [OF _ uu round_down_aligned this, of k True] obtain m where
    m: "map_page ?up k True st2 = Some (True, set_mmu m st2)"
      "resolves (pagedir ?t) ?up k True m" "page_bytes (load m) k = replicate 4096 0"
    using st2 L(3,5) by auto
  have "grow_stack s ?up k st = Some (set_mmu m st2)"
    using blk h(1) push m(1) L(1,2) by (simp add: grow_stack_def p_def [symmetric] st1_def [symmetric])
  moreover have "page_in st0 ?up (replicate 4096 0) True (set_mmu m st2)"
    using m(2,3) L(1,6) by (auto simp: page_in_def Let_def st2_def st1_def)
  moreover have "page_map (vm_threads (set_mmu m st2) (running st0)) = (page_map ?t)(?up \<mapsto> p)"
    using h(2) st2 by (simp add: p_def stack_page_def)
  moreover have "writable p \<and> \<not> swap_outed p \<and> \<not> mmaped p" by (simp add: p_def stack_page_def)
  ultimately show ?thesis by blast
qed

text \<open>Filling the frame changes nothing else.\<close>

lemma fill_frame:
  assumes "frame_in_hand pd k m" "\<exists>y. x = m\<lparr>pal := (pal m)\<lparr>mem := y\<rparr>\<rparr>"
    "\<forall>a. \<not> a - k < PGSIZE \<longrightarrow> load x a = load m a"
  shows "frame_in_hand pd k x" "is_user_vaddr va \<Longrightarrow> pte_of x pd va = pte_of m pd va"
proof -
  obtain y where x: "x = m\<lparr>pal := (pal m)\<lparr>mem := y\<rparr>\<rparr>" using assms(2) ..
  have wf: "pd_wf m pd" and k: "k \<in> palloc_used (pal m) - dir_pages m pd" "pg_ofs k = 0"
    using assms(1) by (simp_all add: frame_in_hand_def)
  have same: "load x a = load m a" if "pg_round_down a \<in> dir_pages m pd" for a
    using that k(1) page_range [OF k(2), of a] assms(3) by auto
  have ok: "palloc_ok (pal x)" "palloc_used (pal m) \<subseteq> palloc_used (pal x)" "base_page_dir x = base_page_dir m"
    using pd_wfD(1) [OF wf] by (simp_all add: x)
  have pde: "pde_of x pd = pde_of m pd" by (rule dir_cong(1) [OF wf ok]) (rule same)
  then have dp: "dir_pages x pd = dir_pages m pd" by (simp add: dir_pages_def user_tables_def)
  have eqs: "kernel_pool (pal x) = kernel_pool (pal m)" "ram_pages x = ram_pages m" "cr3 x = cr3 m"
    "palloc_used (pal x) = palloc_used (pal m)" by (simp_all add: x)
  show "frame_in_hand pd k x"
    using assms(1) dir_cong(3) [OF wf ok same] kernel_page_left_cong [OF eqs(1)] dp eqs(2-4)
    by (simp add: frame_in_hand_def cpu_ok_def)
  show "is_user_vaddr va \<Longrightarrow> pte_of x pd va = pte_of m pd va" by (rule dir_cong(2) [OF wf ok same])
qed

lemma map_filled:
  assumes l: "looked_up esp st0 k st" and up: "is_user_vaddr fa"
      "pte_of (vm_mmu (mm st0)) (pagedir (vm_threads st0 (running st0))) (pg_round_down fa) AND PTE_P = 0"
    and m1: "\<exists>y. m1 = (vm_mmu (mm st))\<lparr>pal := (pal (vm_mmu (mm st)))\<lparr>mem := y\<rparr>\<rparr>"
      "\<forall>a. \<not> a - k < PGSIZE \<longrightarrow> load m1 a = load (vm_mmu (mm st)) a"
    and st1: "running st1 = running st0" "vm_threads st1 (running st0) = touch_esp esp (vm_threads st0 (running st0))"
      "vm_mmu (mm st1) = m1"
  shows "\<exists>m. map_page (pg_round_down fa) k w st1 = Some (True, set_mmu m st1) \<and>
    resolves (pagedir (vm_threads st0 (running st0))) (pg_round_down fa) k w m \<and>
    page_bytes (load m) k = page_bytes (load m1) k"
proof -
  note L = looked_upD [OF l]
  have uu: "is_user_vaddr (pg_round_down fa)" using up(1) by (simp add: user_round_down)
  note fill = fill_frame [OF L(3) m1]
  have "pte_of (vm_mmu (mm st1)) (pagedir (vm_threads st1 (running st1))) (pg_round_down fa) AND PTE_P = 0"
    using st1 L(4) [OF uu] up(2) fill(2) [OF uu] by simp
  from map_page_ok [OF _ uu round_down_aligned this, of k w] st1 fill(1) show ?thesis by auto
qed

lemma lazy_load_ok:
  assumes ok: "fault_ok st0" and s: "services_ok s" and l: "looked_up esp st0 k st"
    and up: "is_user_vaddr fa"
      "pte_of (vm_mmu (mm st0)) (pagedir (vm_threads st0 (running st0))) (pg_round_down fa) AND PTE_P = 0"
    and bs: "bs = file_bytes s (load_f p) (load_read_bytes p) (load_filepos p)"
      "length bs = unat (load_read_bytes p)" "length bs \<le> 4096"
  shows "\<exists>st'. lazy_load s p (pg_round_down fa) k st = Some (False, st') \<and>
    page_in st0 (pg_round_down fa) (bs @ replicate (4096 - length bs) 0) (writable p) st' \<and>
    page_map (vm_threads st' (running st0)) = page_map (vm_threads st0 (running st0))"
proof -
  let ?up = "pg_round_down fa" and ?t = "vm_threads st0 (running st0)"
  note L = looked_upD [OF l]
  let ?m = "vm_mmu (mm st)"
  define m1 where "m1 = put_bytes k 0 bs ?m"
  have fill: "\<exists>y. m1 = ?m\<lparr>pal := (pal ?m)\<lparr>mem := y\<rparr>\<rparr>" "\<forall>a. \<not> a - k < PGSIZE \<longrightarrow> load m1 a = load ?m a"
    using put_bytes_other unfolding m1_def by (auto simp: put_bytes_def)
  define st1 where "st1 = set_mmu m1 st"
  have st1: "running st1 = running st0" "vm_threads st1 (running st0) = touch_esp esp ?t" "vm_mmu (mm st1) = m1"
    using L(1,2) by (simp_all add: st1_def)
  have bytes: "page_bytes (load m1) k = bs @ replicate (4096 - length bs) 0"
    unfolding m1_def using put_bytes_page [of 0 bs k ?m] L(5) bs(3) by (simp add: overwrite_def)
  from map_filled [OF l up fill st1, of "writable p"] obtain m where
    m: "map_page ?up k (writable p) st1 = Some (True, set_mmu m st1)"
      "resolves (pagedir ?t) ?up k (writable p) m" "page_bytes (load m) k = bs @ replicate (4096 - length bs) 0"
    using bytes by auto
  have lock: "\<not> frame_lock (mm (set_mmu m st1))" using ok L(7) by (simp add: st1_def fault_ok_def Let_def)
  from push_frame_ok [OF s lock, of ?up] obtain e st2 where push: "push_frame s ?up (set_mmu m st1) = Some st2"
    and st2_def: "st2 = (set_mmu m st1)\<lparr>heap_calls := heap_calls (set_mmu m st1) + 1,
      mm := (mm (set_mmu m st1))\<lparr>frame_table := frame_table (mm (set_mmu m st1)) @
        [\<lparr>fr_elem = e, fr_thread = running (set_mmu m st1),
          fr_pd = pagedir (vm_threads (set_mmu m st1) (running (set_mmu m st1))), fr_vaddr = ?up\<rparr>]\<rparr>\<rparr>" by blast
  have "lazy_load s p ?up k st = Some (False, st2)"
    using bs(2,3) m(1) push
    by (simp add: lazy_load_def bs(1) [symmetric] m1_def [symmetric] st1_def [symmetric])
  moreover have "page_in st0 ?up (bs @ replicate (4096 - length bs) 0) (writable p) st2"
    using m(2,3) L(1,2,6) by (auto simp: page_in_def Let_def st2_def st1_def)
  moreover have "page_map (vm_threads st2 (running st0)) = page_map ?t"
    using st1 by (simp add: st2_def)
  ultimately show ?thesis by blast
qed

lemma swap_set_ok:
  assumes "swap_table v = Some b" "\<not> swap_lock v" "bitmap_set b i x = Some b'"
  shows "swap_table_bitmap_set i x v = Some (v\<lparr>swap_table := Some b'\<rparr>)"
  using assms
  by (cases v) (simp add: swap_table_bitmap_set_def swap_lock_acquire_def swap_lock_release_def)

lemma swap_in_ok:
  assumes ok: "fault_ok st0" and s: "services_ok s" and l: "looked_up esp st0 k st"
    and up: "is_user_vaddr fa"
      "pte_of (vm_mmu (mm st0)) (pagedir (vm_threads st0 (running st0))) (pg_round_down fa) AND PTE_P = 0"
    and p: "page_map (vm_threads st0 (running st0)) (pg_round_down fa) = Some p"
    and d: "disk_ok (swap_disk (mm st0))" "slot_fits (swap_disk (mm st0)) (swap_index p)"
    and b: "swap_table (mm st0) = Some b" "bitmap_rep b xs" "unat (swap_index p) < length xs"
  shows "\<exists>st' b'. swap_in s p (pg_round_down fa) k st = Some st' \<and>
    page_in st0 (pg_round_down fa) (slot_bytes (swap_disk (mm st0)) (swap_index p) 0) (writable p) st' \<and>
    (\<exists>q. page_map (vm_threads st' (running st0)) =
        (page_map (vm_threads st0 (running st0)))(pg_round_down fa \<mapsto> q) \<and>
      q = p\<lparr>elem := elem q, swap_outed := False, swap_index := 0\<rparr>) \<and>
    swap_table (mm st') = Some b' \<and> bitmap_rep b' (xs[unat (swap_index p) := False])"
proof -
  let ?up = "pg_round_down fa" and ?t = "vm_threads st0 (running st0)" and ?i = "swap_index p"
  note L = looked_upD [OF l]
  let ?m = "vm_mmu (mm st)"
  from swap_read_ok [OF d(2) _ d(1), of 0 k ?m] obtain d1 m1 where
    rd: "swap_read (swap_disk (mm st)) (?i * 8) (?i * 8 + 8) 0 k ?m = Some (d1, m1)"
      "\<exists>y. m1 = ?m\<lparr>pal := (pal ?m)\<lparr>mem := y\<rparr>\<rparr>" "\<forall>a. \<not> a - k < PGSIZE \<longrightarrow> load m1 a = load ?m a"
      "page_bytes (load m1) k = slot_bytes (swap_disk (mm st0)) ?i 0"
    using L(9) by auto
  define st1 where "st1 = set_mmu m1 (set_swap_disk d1 st)"
  have st1: "running st1 = running st0" "vm_threads st1 (running st0) = touch_esp esp ?t" "vm_mmu (mm st1) = m1"
    using L(1,2) by (simp_all add: st1_def)
  from map_filled [OF l up rd(2,3) st1, of "writable p"] obtain m where
    m: "map_page ?up k (writable p) st1 = Some (True, set_mmu m st1)"
      "resolves (pagedir ?t) ?up k (writable p) m"
      "page_bytes (load m) k = slot_bytes (swap_disk (mm st0)) ?i 0"
    using rd(4) by auto
  define st2 where "st2 = set_mmu m st1"
  obtain blk where blk: "page_malloc s (heap_calls st2) = Some blk" using s by (auto simp: services_ok_def)
  have rr: "pg_round_down ?up = ?up" by (simp add: word_unat_eq_iff unat_round_down)
  have "spt_ok (touch_esp esp ?t)" "spt_room (touch_esp esp ?t)" "page_map (touch_esp esp ?t) (pg_round_down ?up) = Some p"
    using ok p rr by (simp_all add: fault_ok_def Let_def)
  from page_swap_out_index_ok [OF this, of "bucket_malloc s" blk False 0] obtain h where
    h: "page_swap_out_index (bucket_malloc s) (Some blk) ?up False 0 (touch_esp esp ?t) =
        Some ((touch_esp esp ?t)\<lparr>supplementary_page_table := h\<rparr>, True, [elem p])"
      "page_map ((touch_esp esp ?t)\<lparr>supplementary_page_table := h\<rparr>) =
        (page_map ?t)(?up \<mapsto> p\<lparr>elem := elem blk, swap_outed := False, swap_index := 0\<rparr>)"
    by (auto simp: rr)
  let ?t' = "(touch_esp esp ?t)\<lparr>supplementary_page_table := h\<rparr>"
  define st3 where "st3 = (set_thread (running st0) ?t' st2)\<lparr>heap_calls := Suc (heap_calls st2),
    freed := freed st2 @ [elem p]\<rparr>"
  have idx: "swap_index_in s ?up (running st0) False 0 st2 = Some st3"
    using blk h(1) st1 by (simp add: swap_index_in_def st3_def st2_def)
  obtain b' where b': "bitmap_set b ?i False = Some b'" "bitmap_rep b' (xs[unat ?i := False])"
    using bitmap_set_rep [OF b(2,3)] by blast
  define st4 where "st4 = st3\<lparr>mm := (mm st3)\<lparr>swap_table := Some b'\<rparr>\<rparr>"
  have "\<not> swap_lock (mm st3)" "swap_table (mm st3) = Some b" "\<not> frame_lock (mm st4)"
    using b(1) L(7,8,10) ok by (simp_all add: st4_def st3_def st2_def st1_def fault_ok_def Let_def)
  with swap_set_ok [OF this(2,1) b'(1)] have set: "swap_table_bitmap_set ?i False (mm st3) = Some (mm st4)"
    and lock: "\<not> frame_lock (mm st4)" by (simp_all add: st4_def)
  from push_frame_ok [OF s lock, of ?up] obtain e st5 where push: "push_frame s ?up st4 = Some st5"
    and st5_def: "st5 = st4\<lparr>heap_calls := heap_calls st4 + 1, mm := (mm st4)\<lparr>frame_table :=
      frame_table (mm st4) @ [\<lparr>fr_elem = e, fr_thread = running st4,
        fr_pd = pagedir (vm_threads st4 (running st4)), fr_vaddr = ?up\<rparr>]\<rparr>\<rparr>" by blast
  have "st3\<lparr>mm := mm st4\<rparr> = st4" by (simp add: st4_def)
  then have "swap_in s p ?up k st = Some st5"
    using rd(1) m(1) idx set push st1 by (simp add: swap_in_def st1_def [symmetric] st2_def [symmetric])
      (simp add: st2_def)
  moreover have "page_in st0 ?up (slot_bytes (swap_disk (mm st0)) ?i 0) (writable p) st5"
    using m(2,3) L(6) st1 by (auto simp: page_in_def Let_def st5_def st4_def st3_def st2_def st1_def)
  moreover have "page_map (vm_threads st5 (running st0)) =
      (page_map ?t)(?up \<mapsto> p\<lparr>elem := elem blk, swap_outed := False, swap_index := 0\<rparr>)"
    using h(2) by (simp add: st5_def st4_def st3_def)
  moreover have "swap_table (mm st5) = Some b'" by (simp add: st5_def st4_def)
  ultimately show ?thesis using b'(2) by auto
qed

section \<open>Contents of pages\<close>

text \<open>Where the contents of a recorded page come from, and when they are available.\<close>

definition swap_bits :: "vm_state \<Rightarrow> bool list option" where
  "swap_bits st = (case swap_table (mm st) of
     Some b \<Rightarrow> if bitmap_rep b (bits_of b) then Some (bits_of b) else None | None \<Rightarrow> None)"

definition file_part :: "services \<Rightarrow> page \<Rightarrow> byte list" where
  "file_part s p = file_bytes s (load_f p) (load_read_bytes p) (load_filepos p)"

definition page_source :: "services \<Rightarrow> vm_state \<Rightarrow> page \<Rightarrow> byte list" where
  "page_source s st p =
     (if swap_outed p then slot_bytes (swap_disk (mm st)) (swap_index p) 0
      else file_part s p @ replicate (4096 - length (file_part s p)) 0)"

definition loadable :: "services \<Rightarrow> vm_state \<Rightarrow> page \<Rightarrow> bool" where
  "loadable s st p \<longleftrightarrow>
     (if swap_outed p
      then disk_ok (swap_disk (mm st)) \<and> slot_fits (swap_disk (mm st)) (swap_index p) \<and>
        (\<exists>xs. swap_bits st = Some xs \<and> unat (swap_index p) < length xs)
      else length (file_part s p) = unat (load_read_bytes p) \<and> length (file_part s p) \<le> 4096)"

lemma swap_in_bits:
  assumes ok: "fault_ok st0" and s: "services_ok s" and l: "looked_up esp st0 k st"
    and up: "is_user_vaddr fa"
      "pte_of (vm_mmu (mm st0)) (pagedir (vm_threads st0 (running st0))) (pg_round_down fa) AND PTE_P = 0"
    and p: "page_map (vm_threads st0 (running st0)) (pg_round_down fa) = Some p" "swap_outed p" "loadable s st0 p"
  shows "\<exists>st'. swap_in s p (pg_round_down fa) k st = Some st' \<and>
    page_in st0 (pg_round_down fa) (page_source s st0 p) (writable p) st' \<and>
    (\<exists>q. page_map (vm_threads st' (running st0)) =
        (page_map (vm_threads st0 (running st0)))(pg_round_down fa \<mapsto> q) \<and> \<not> swap_outed q) \<and>
    swap_bits st' = map_option (\<lambda>xs. xs[unat (swap_index p) := False]) (swap_bits st0)"
proof -
  from p(2,3) obtain b where d: "disk_ok (swap_disk (mm st0))" "slot_fits (swap_disk (mm st0)) (swap_index p)"
    and b: "swap_table (mm st0) = Some b" "bitmap_rep b (bits_of b)" "unat (swap_index p) < length (bits_of b)"
    by (auto simp: loadable_def swap_bits_def split: option.splits if_splits)
  from swap_in_ok [OF ok s l up p(1) d b] obtain st' b' q where
    "swap_in s p (pg_round_down fa) k st = Some st'"
    "page_in st0 (pg_round_down fa) (slot_bytes (swap_disk (mm st0)) (swap_index p) 0) (writable p) st'"
    "page_map (vm_threads st' (running st0)) = (page_map (vm_threads st0 (running st0)))(pg_round_down fa \<mapsto> q)"
    and q: "q = p\<lparr>elem := elem q, swap_outed := False, swap_index := 0\<rparr>"
    and b': "swap_table (mm st') = Some b'" "bitmap_rep b' ((bits_of b)[unat (swap_index p) := False])" by blast
  moreover have "\<not> swap_outed q" using arg_cong [OF q, of swap_outed] by simp
  moreover have "swap_bits st' = map_option (\<lambda>xs. xs[unat (swap_index p) := False]) (swap_bits st0)"
    using b b' by (simp add: swap_bits_def bitmap_rep_def)
  ultimately show ?thesis using p(2) by (auto simp: page_source_def)
qed

lemma swap_index_in_ok:
  assumes s: "services_ok s" and t: "spt_ok (vm_threads st a)" "spt_room (vm_threads st a)"
    and p: "page_map (vm_threads st a) (pg_round_down va) = Some p"
  shows "\<exists>st' e. swap_index_in s va a b i st = Some st' \<and> mm st' = mm st \<and>
    page_map (vm_threads st' a) = (page_map (vm_threads st a))(pg_round_down va \<mapsto>
      p\<lparr>elem := e, swap_outed := b, swap_index := i\<rparr>)"
proof -
  obtain blk where blk: "page_malloc s (heap_calls st) = Some blk" using s by (auto simp: services_ok_def)
  from page_swap_out_index_ok [OF t p, of "bucket_malloc s" blk b i] obtain h where
    "page_swap_out_index (bucket_malloc s) (Some blk) va b i (vm_threads st a) =
      Some ((vm_threads st a)\<lparr>supplementary_page_table := h\<rparr>, True, [elem p])"
    "page_map ((vm_threads st a)\<lparr>supplementary_page_table := h\<rparr>) =
      (page_map (vm_threads st a))(pg_round_down va \<mapsto> p\<lparr>elem := elem blk, swap_outed := b, swap_index := i\<rparr>)"
    by blast
  then show ?thesis using blk by (auto simp: swap_index_in_def set_thread_def)
qed

lemma slots_disjoint:
  assumes "slot_fits d i" "slot_fits d j" "i \<noteq> j" "a < 8" "b < 8"
  shows "i * 8 + of_nat a \<noteq> j * 8 + of_nat b"
proof
  assume "i * 8 + of_nat a = j * 8 + of_nat b"
  then have "8 * unat i + a = 8 * unat j + b"
    using slot_sector(3) [OF assms(1,4)] slot_sector(3) [OF assms(2,5)] by simp
  then have "unat i = unat j" using assms(4,5) by presburger
  with assms(3) show False unfolding word_unat_eq_iff by blast
qed

lemma split_sectors: "length page = 512 * n \<Longrightarrow>
  concat (map (\<lambda>j. take 512 (drop (512 * j) page)) [0..<n]) = page"
proof (induction n arbitrary: page)
  case (Suc n)
  have "[0..<Suc n] = 0 # map Suc [0..<n]" by (simp add: upt_conv_Cons map_Suc_upt del: upt_Suc)
  then have "concat (map (\<lambda>j. take 512 (drop (512 * j) page)) [0..<Suc n]) =
      take 512 page @ concat (map (\<lambda>j. take 512 (drop (512 * j) (drop 512 page))) [0..<n])"
    by (simp add: o_def add.commute)
  also have "\<dots> = take 512 page @ drop 512 page" using Suc.IH [of "drop 512 page"] Suc.prems by (simp only: length_drop) simp
  finally show ?case by simp
qed simp

lemma swap_write_slot:
  assumes "slot_fits d i" "disk_ok d" "length page = 4096"
  shows "\<exists>d'. swap_write d (i * 8) (i * 8 + 8) 0 page = Some d' \<and> slot_fits d' i \<and> disk_ok d' \<and>
    slot_bytes d' i 0 = page \<and> (\<forall>j. j \<noteq> i \<longrightarrow> slot_fits d j \<longrightarrow> slot_bytes d' j 0 = slot_bytes d j 0)"
proof -
  from swap_write_ok [OF assms(1) _ assms(3), of 0] obtain d' where
    run: "swap_write d (i * 8) (i * 8 + 8) 0 page = Some d'" and cap: "capacity d' = capacity d"
    and sec: "\<And>s. sectors d' s = (if \<exists>j. j < 8 \<and> s = i * 8 + of_nat j
       then take 512 (drop (512 * (unat s - 8 * unat i)) page) else sectors d s)" by auto
  have inslot: "sectors d' (i * 8 + of_nat j) = take 512 (drop (512 * j) page)" if "j < 8" for j
    using that slot_sector(3) [OF assms(1) that] by (auto simp: sec)
  have "slot_bytes d' i 0 = concat (map (\<lambda>j. take 512 (drop (512 * j) page)) [0..<8])"
    unfolding slot_bytes_def by (intro arg_cong [of _ _ concat] map_cong) (simp_all only: inslot atLeastLessThan_iff set_upt)
  also have "\<dots> = page" by (rule split_sectors) (simp add: assms(3))
  finally have this_slot: "slot_bytes d' i 0 = page" .
  have "sectors d' (j * 8 + of_nat b) = sectors d (j * 8 + of_nat b)" if "j \<noteq> i" "slot_fits d j" "b < 8" for j b
    using slots_disjoint [OF that(2) assms(1) that(1,3)] sec by metis
  then have "slot_bytes d' j 0 = slot_bytes d j 0" if "j \<noteq> i" "slot_fits d j" for j
    unfolding slot_bytes_def using that
    by (intro arg_cong [of _ _ concat] map_cong) (auto simp only: atLeastLessThan_iff set_upt)
  moreover have "disk_ok d'"
  proof -
    have "length (sectors d' s) = 512" for s
    proof (cases "\<exists>j. j < 8 \<and> s = i * 8 + of_nat j")
      case True
      then obtain j where "j < 8" "s = i * 8 + of_nat j" by blast
      then show ?thesis using inslot [of j] assms(3) by simp
    next
      case False
      then have "sectors d' s = sectors d s" using sec by (simp only: if_False)
      then show ?thesis using assms(2) by (simp add: disk_ok_def)
    qed
    with assms(2) cap show ?thesis by (simp add: disk_ok_def)
  qed
  moreover have "slot_fits d' i" using assms(1) cap by (simp add: slot_fits_def)
  ultimately show ?thesis using run this_slot by blast
qed

subsection \<open>Eviction\<close>

text \<open>Taking the victim's frame out of its directory.\<close>

lemma unmap_victim:
  assumes ok: "dirs_ok m P" "only_flags P m0 m" and pd: "pd \<in> P" and va: "is_user_vaddr va" "pg_ofs va = 0"
    and present: "pte_of m0 pd va AND PTE_P \<noteq> 0"
  obtains m1 m2 x where "pagedir_get_page pd va m = Some (table_of (pte_of m0 pd va), m1)"
    "pagedir_clear_page pd va m1 = Some m2" "pal m2 = (pal m0)\<lparr>mem := x\<rparr>"
    "base_page_dir m2 = base_page_dir m0" "pd_wf m2 pd" "dir_pages m2 pd = dir_pages m0 pd"
    "pte_of m2 pd va AND PTE_P = 0"
    "\<And>a. pg_round_down a \<notin> (\<Union>pd \<in> P. dir_pages m0 pd) \<Longrightarrow> load m2 a = load m0 a"
proof -
  let ?q = "pte_of m pd va"
  have wf: "pd_wf m pd" and cpu: "cpu_ok m" using ok(1) pd by (auto simp: dirs_ok_def)
  from ok(2) obtain x where x: "pal m = (pal m0)\<lparr>mem := x\<rparr>" and bs: "base_page_dir m = base_page_dir m0"
    and dp: "dir_pages m pd = dir_pages m0 pd"
    and q: "?q \<in> {pte_of m0 pd va, with_flag PTE_A False (pte_of m0 pd va)}"
    and ld: "\<And>a. pg_round_down a \<notin> (\<Union>pd \<in> P. dir_pages m0 pd) \<Longrightarrow> load m a = load m0 a"
    using pd va(1) by (auto simp: only_flags_def)
  have bits: "with_flag PTE_A b e AND PTE_P = 0 \<longleftrightarrow> e AND PTE_P = 0"
    "table_of (with_flag PTE_A b e) = table_of e" for b e
    using with_flag_bit [of 5 0 b e] table_of_with_flag [of 5 b e] by (simp_all add: flag_bits)
  have qp: "?q AND PTE_P \<noteq> 0" "table_of ?q = table_of (pte_of m0 pd va)" using q present bits by auto
  then have pde: "pde_of m pd va \<noteq> 0" by (auto simp: pte_of_def)
  let ?m1 = "store (pte_addr m pd va) (with_flag PTE_A True ?q) m"
  have get: "pagedir_get_page pd va m = Some (table_of (pte_of m0 pd va), ?m1)"
    using get_page_spec [OF wf va(1)] qp pde va(2) by simp
  have wf1: "pd_wf ?m1 pd" using store_flag [OF wf va(1) pde, of 5 True] by (simp add: flag_bits)
  have pde1: "pde_of ?m1 pd = pde_of m pd" using pde_of_store_pte [OF wf va(1) pde] by auto
  have pte1: "pte_of ?m1 pd va = with_flag PTE_A True ?q"
    using pte_of_store_pte [OF wf va(1) pde va(1)] by simp
  have at: "pg_round_down (pte_addr m' pd va) \<in> dir_pages m0 pd" if "pde_of m' pd = pde_of m pd" for m'
  proof -
    have "pg_round_down (pte_addr m' pd va) = table_of (pde_of m pd va)"
      unfolding pte_addr_def that by (rule entry_page(1)) (simp_all add: pd_wf_table(1) [OF wf va(1) pde])
    then show ?thesis using va(1) pde unfolding dp [symmetric] by (auto simp: dir_pages_def user_tables_def)
  qed
  let ?e = "with_flag PTE_P False (with_flag PTE_A True ?q)"
  let ?m2 = "flush pd (store (pte_addr ?m1 pd va) ?e ?m1)"
  have cpu1: "cpu_ok ?m1" using cpu by simp
  have clear: "pagedir_clear_page pd va ?m1 = Some ?m2"
    using clear_page_spec [OF wf1 va cpu1] pte1 bits qp by simp
  have pd1: "pde_of ?m1 pd va \<noteq> 0" using pde pde1 by simp
  have e: "?e AND PTE_P = 0"
    using with_flag_bit [of 0 0 False "with_flag PTE_A True ?q"] by (simp add: flag_bits)
  have wf2: "pd_wf ?m2 pd" using pd_wf_store_pte [OF wf1 va(1) pd1, of ?e] e by simp
  have pde2: "pde_of ?m2 pd = pde_of m pd"
    using pde_of_store_pte [OF wf1 va(1) pd1] pde1 by auto
  have "pte_of ?m2 pd va = ?e" using pte_of_store_pte [OF wf1 va(1) pd1 va(1)] by simp
  then have "pte_of ?m2 pd va AND PTE_P = 0" using e by simp
  moreover have "load ?m2 a = load m0 a" if "pg_round_down a \<notin> (\<Union>pd \<in> P. dir_pages m0 pd)" for a
    using that at [OF refl] at [OF pde1] ld [OF that] pd by auto
  moreover have "dir_pages ?m2 pd = dir_pages m0 pd"
    unfolding dp [symmetric] using pde2 by (simp add: dir_pages_def user_tables_def)
  moreover have "\<exists>y. pal ?m2 = (pal m0)\<lparr>mem := y\<rparr>" by (auto simp: x store_def flush_def)
  moreover have "base_page_dir ?m2 = base_page_dir m0" using bs by (simp add: store_def flush_def)
  ultimately show thesis using that [OF get clear] wf2 by blast
qed

text \<open>
  A state in which \<open>fr\<close> is the frame that the scan chooses and the user pool is exhausted: its page is
  present in the frame \<open>k\<close> and recorded in its thread's table as \<open>p\<close>.
\<close>

definition evictable :: "vm_state \<Rightarrow> frame_elem \<Rightarrow> page \<Rightarrow> addr \<Rightarrow> bool" where
  "evictable st fr p k \<longleftrightarrow>
     (let m = vm_mmu (mm st); us = bits_of (used_map (user_pool (pal m))); t = vm_threads st (fr_thread fr)
      in frames_ok (mm st) \<and> \<not> frame_lock (mm st) \<and> \<not> swap_lock (mm st) \<and>
         second_chance m (frame_table (mm st)) = Some fr \<and> pg_ofs (fr_vaddr fr) = 0 \<and>
         pte_of m (fr_pd fr) (fr_vaddr fr) AND PTE_P \<noteq> 0 \<and> table_of (pte_of m (fr_pd fr) (fr_vaddr fr)) = k \<and>
         False \<notin> set us \<and> k \<in> used_pages (user_pool (pal m)) us \<and>
         k \<notin> (\<Union>e \<in> set (frame_table (mm st)). dir_pages m (fr_pd e)) \<and>
         spt_ok t \<and> spt_room t \<and> page_map t (pg_round_down (fr_vaddr fr)) = Some p \<and> \<not> mmaped p)"

text \<open>What eviction to the slot \<open>i\<close> leaves behind.\<close>

definition evicted :: "vm_state \<Rightarrow> frame_elem \<Rightarrow> page \<Rightarrow> addr \<Rightarrow> u32 \<Rightarrow> vm_state \<Rightarrow> bool" where
  "evicted st fr p k i st' \<longleftrightarrow>
     \<not> swap_lock (mm st') \<and> pte_of (vm_mmu (mm st')) (fr_pd fr) (fr_vaddr fr) AND PTE_P = 0 \<and>
     page_bytes (load (vm_mmu (mm st'))) k = replicate 4096 0 \<and>
     (\<exists>pre post. frame_table (mm st) = pre @ fr # post \<and> frame_table (mm st') = post @ pre) \<and>
     (\<exists>e. page_map (vm_threads st' (fr_thread fr)) = (page_map (vm_threads st (fr_thread fr)))
        (pg_round_down (fr_vaddr fr) \<mapsto> p\<lparr>elem := e, swap_outed := True, swap_index := i\<rparr>))"

lemma evict_choose:
  assumes ev: "evictable st fr p k" and s: "services_ok s"
    and scan: "swap_table_scan_and_flip (mm st) = Some (i, (mm st)\<lparr>swap_lock := True, swap_table := Some b\<rparr>)"
  defines "m0 \<equiv> vm_mmu (mm st)"
  obtains st3 m2 x pre post where "evict_frame s st = do {
       st \<leftarrow> swap_out_page s i fr p k st3;
       p \<leftarrow> palloc_free_page k (pal (vm_mmu (mm st)));
       let st = st\<lparr>freed := freed st @ [fr_elem fr]\<rparr>;
       (kpage, p) \<leftarrow> palloc_get_page (PAL_USER OR PAL_ZERO) p;
       let st = set_mmu ((vm_mmu (mm st))\<lparr>pal := p\<rparr>) st;
       v \<leftarrow> swap_lock_release (mm st);
       Some (kpage, st\<lparr>mm := v\<rparr>) }"
    "frame_table (mm st) = pre @ fr # post"
    "mm st3 = (mm st)\<lparr>swap_lock := True, swap_table := Some b, frame_table := post @ pre, vm_mmu := m2\<rparr>"
    "vm_threads st3 = vm_threads st" "pal m2 = (pal m0)\<lparr>mem := x\<rparr>" "base_page_dir m2 = base_page_dir m0"
    "pd_wf m2 (fr_pd fr)" "dir_pages m2 (fr_pd fr) = dir_pages m0 (fr_pd fr)"
    "pte_of m2 (fr_pd fr) (fr_vaddr fr) AND PTE_P = 0"
    "page_bytes (load m2) k = page_bytes (load m0) k"
proof -
  define P where "P = fr_pd ` set (frame_table (mm st))"
  note E = ev [unfolded evictable_def Let_def, folded m0_def]
  define v1 where "v1 = (mm st)\<lparr>swap_lock := True, swap_table := Some b\<rparr>"
  have v1: "frames_ok v1" "\<not> frame_lock v1" "second_chance (vm_mmu v1) (frame_table v1) = Some fr"
    using E by (simp_all add: v1_def frames_ok_def m0_def)
  from victim_found [OF v1] obtain pre post m where vf: "frame_table (mm st) = pre @ fr # post"
      "frame_table_find_victim v1 = Some (Some fr, v1\<lparr>vm_mmu := m, frame_table := post @ pre\<rparr>)"
      "dirs_ok m P" "only_flags P m0 m" by (auto simp: v1_def P_def m0_def)
  define v2 where "v2 = v1\<lparr>vm_mmu := m, frame_table := post @ pre\<rparr>"
  obtain blk where blk: "page_malloc s (heap_calls st) = Some blk" using s by (auto simp: services_ok_def)
  define st2 where "st2 = (set_thread (fr_thread fr) (vm_threads st (fr_thread fr)) (st\<lparr>mm := v2\<rparr>))
    \<lparr>heap_calls := heap_calls st + 1, freed := freed st @ [elem blk]\<rparr>"
  have look: "lookup_in s (fr_vaddr fr) (fr_thread fr) (st\<lparr>mm := v2\<rparr>) = Some (Some p, st2)"
    using page_lookup_eq(1) [of "vm_threads st (fr_thread fr)" blk "fr_vaddr fr"] E blk
    by (simp add: lookup_in_def st2_def)
  have fr: "fr \<in> set (frame_table (mm st))" "fr_pd fr \<in> P" using vf(1) by (auto simp: P_def)
  then have uv: "is_user_vaddr (fr_vaddr fr)" using E by (simp add: frames_ok_def list_all_iff)
  obtain m1 m2 x where u: "pagedir_get_page (fr_pd fr) (fr_vaddr fr) m = Some (k, m1)"
      "pagedir_clear_page (fr_pd fr) (fr_vaddr fr) m1 = Some m2" "pal m2 = (pal m0)\<lparr>mem := x\<rparr>"
      "base_page_dir m2 = base_page_dir m0" "pd_wf m2 (fr_pd fr)" "dir_pages m2 (fr_pd fr) = dir_pages m0 (fr_pd fr)"
      "pte_of m2 (fr_pd fr) (fr_vaddr fr) AND PTE_P = 0"
      "\<And>a. pg_round_down a \<notin> (\<Union>pd \<in> P. dir_pages m0 pd) \<Longrightarrow> load m2 a = load m0 a"
    using unmap_victim [OF vf(3,4) fr(2) uv] E by metis
  have "palloc_ok (pal m0)" using E fr by (auto simp: frames_ok_def dirs_ok_def m0_def dest: pd_wfD(1))
  then have "pg_ofs k = 0" using pal.used_page [of "pal m0" k] E by (simp add: palloc_used_def)
  moreover have "k \<notin> (\<Union>pd \<in> P. dir_pages m0 pd)" using E by (simp add: P_def)
  ultimately have bytes: "page_bytes (load m2) k = page_bytes (load m0) k"
    using u(8) page_range [of k] by (intro page_bytes_cong) metis
  have v2: "mm st2 = v2" "vm_mmu v2 = m" by (simp_all add: st2_def v2_def)
  have run: "evict_frame s st = do {
       st \<leftarrow> swap_out_page s i fr p k (set_mmu m2 st2);
       p \<leftarrow> palloc_free_page k (pal (vm_mmu (mm st)));
       let st = st\<lparr>freed := freed st @ [fr_elem fr]\<rparr>;
       (kpage, p) \<leftarrow> palloc_get_page (PAL_USER OR PAL_ZERO) p;
       let st = set_mmu ((vm_mmu (mm st))\<lparr>pal := p\<rparr>) st;
       v \<leftarrow> swap_lock_release (mm st);
       Some (kpage, st\<lparr>mm := v\<rparr>) }"
    unfolding evict_frame_def scan Option.bind.bind_lunit prod.case v1_def [symmetric] vf(2) v2_def [symmetric] look
      v2 u(1,2) ..
  show thesis
    by (rule that [OF run vf(1) _ _ u(3-7) bytes]) (simp_all add: v2 v2_def v1_def, simp add: st2_def)
qed

lemma evict_frame_run:
  assumes ev: "evictable st fr p k" and s: "services_ok s"
    and scan: "swap_table_scan_and_flip (mm st) = Some (i, (mm st)\<lparr>swap_lock := True, swap_table := Some b\<rparr>)"
    and wr: "swap_write (swap_disk (mm st)) (i * 8) (i * 8 + 8) 0 (page_bytes (load (vm_mmu (mm st))) k) = Some d"
  shows "\<exists>st'. evict_frame s st = Some (k, st') \<and> swap_disk (mm st') = d \<and> swap_table (mm st') = Some b \<and>
    evicted st fr p k i st'"
proof -
  define m0 where "m0 = vm_mmu (mm st)"
  define ks us where "ks = bits_of (used_map (kernel_pool (pal m0)))" and "us = bits_of (used_map (user_pool (pal m0)))"
  note E = ev [unfolded evictable_def Let_def, folded m0_def]
  have in_pool: "k \<in> used_pages (user_pool (pal m0)) us" "False \<notin> set us" unfolding us_def using E by blast+
  obtain st3 m2 x pre post where run: "evict_frame s st = do {
       st \<leftarrow> swap_out_page s i fr p k st3;
       p \<leftarrow> palloc_free_page k (pal (vm_mmu (mm st)));
       let st = st\<lparr>freed := freed st @ [fr_elem fr]\<rparr>;
       (kpage, p) \<leftarrow> palloc_get_page (PAL_USER OR PAL_ZERO) p;
       let st = set_mmu ((vm_mmu (mm st))\<lparr>pal := p\<rparr>) st;
       v \<leftarrow> swap_lock_release (mm st);
       Some (kpage, st\<lparr>mm := v\<rparr>) }"
    and ft: "frame_table (mm st) = pre @ fr # post"
    and st3: "mm st3 = (mm st)\<lparr>swap_lock := True, swap_table := Some b, frame_table := post @ pre, vm_mmu := m2\<rparr>"
      "vm_threads st3 = vm_threads st"
    and m2: "pal m2 = (pal m0)\<lparr>mem := x\<rparr>" "base_page_dir m2 = base_page_dir m0"
      "pd_wf m2 (fr_pd fr)" "dir_pages m2 (fr_pd fr) = dir_pages m0 (fr_pd fr)"
      "pte_of m2 (fr_pd fr) (fr_vaddr fr) AND PTE_P = 0" "page_bytes (load m2) k = page_bytes (load m0) k"
    by (rule evict_choose [OF ev s scan, folded m0_def])
  obtain j where j: "j < length us" "k = page_at (user_pool (pal m2)) j"
    using in_pool(1) m2(1) unfolding used_pages_def by auto
  have rep: "palloc_rep (pal m2) ks us"
    using pd_wfD(1) [OF m2(3)] unfolding palloc_rep_bits by (simp add: m2(1) ks_def us_def)
  obtain p1 p2 where g: "palloc_free_page k (pal m2) = Some p1"
      "palloc_get_page (PAL_USER OR PAL_ZERO) p1 = Some (k, p2)" "palloc_rep p2 ks us"
      "base (kernel_pool p2) = base (kernel_pool (pal m2))" "base (user_pool p2) = base (user_pool (pal m2))"
      "\<And>a. mem p2 a = (if pg_round_down a = k then 0 else load m2 a)"
    using free_then_get [OF rep in_pool(2) j(1)] unfolding j(2) by blast
  from swap_index_in_ok [OF s, of st3 "fr_thread fr" "fr_vaddr fr" p True i] E st3(2) obtain st4 e where
    st4: "swap_index_in s (fr_vaddr fr) (fr_thread fr) True i st3 = Some st4" "mm st4 = mm st3"
      "page_map (vm_threads st4 (fr_thread fr)) = (page_map (vm_threads st (fr_thread fr)))
        (pg_round_down (fr_vaddr fr) \<mapsto> p\<lparr>elem := e, swap_outed := True, swap_index := i\<rparr>)" by auto
  have kp: "pg_ofs k = 0" "k \<noteq> 0"
    using unat_page_at(3,5) [OF _ j(1), of "user_pool (pal m2)"] rep j(2) by (auto simp: palloc_rep_def)
  have out: "swap_out_page s i fr p k st3 = Some (set_swap_disk d st4)"
    using st4(1,2) st3(1) wr E kp(2) m2(6) by (simp add: swap_out_page_def m0_def)
  define st5 where "st5 = set_mmu (m2\<lparr>pal := p2\<rparr>) ((set_swap_disk d st4)\<lparr>freed := freed (set_swap_disk d st4) @ [fr_elem fr]\<rparr>)"
  define st' where "st' = st5\<lparr>mm := (mm st5)\<lparr>swap_lock := False\<rparr>\<rparr>"
  have run': "evict_frame s st = Some (k, st')"
    unfolding run out using g(1,2) st4(2) st3(1) by (simp add: st'_def st5_def swap_lock_release_def)
  have "mm st' = (mm st)\<lparr>swap_lock := False, swap_table := Some b, frame_table := post @ pre,
      vm_mmu := m2\<lparr>pal := p2\<rparr>, swap_disk := d\<rparr>"
    using st4(2) st3(1) by (simp add: st'_def st5_def)
  moreover have "page_bytes (mem p2) k = replicate 4096 0"
    using g(6) page_range [OF kp(1)] by (intro page_bytes_zero) metis
  moreover have "pte_of (m2\<lparr>pal := p2\<rparr>) (fr_pd fr) (fr_vaddr fr) = pte_of m2 (fr_pd fr) (fr_vaddr fr)"
  proof (rule dir_cong(2) [OF m2(3)])
    show "is_user_vaddr (fr_vaddr fr)" using E ft by (simp add: frames_ok_def list_all_iff)
    show "palloc_ok (pal (m2\<lparr>pal := p2\<rparr>))" using g(3) by (simp add: palloc_rep_bits)
    have "palloc_used p2 = palloc_used (pal m2)"
      using g(3) rep used_pages_base [OF g(4)] used_pages_base [OF g(5)] by (simp add: palloc_rep_bits palloc_used_def)
    then show "palloc_used (pal m2) \<subseteq> palloc_used (pal (m2\<lparr>pal := p2\<rparr>))" by simp
    have "k \<notin> dir_pages m2 (fr_pd fr)" using E ft m2(4) by simp
    then show "load (m2\<lparr>pal := p2\<rparr>) a = load m2 a" if "pg_round_down a \<in> dir_pages m2 (fr_pd fr)" for a
      using g(6) [of a] that by auto
  qed simp
  moreover have "vm_threads st' = vm_threads st4" by (simp add: st'_def st5_def)
  ultimately show ?thesis using run' ft st4(3) m2(5) by (auto simp: evicted_def)
qed

lemma scan_slot:
  assumes bits: "swap_bits st = Some xs" and lock: "\<not> swap_lock (mm st)"
  obtains (free) i b where "unat i < length xs" "\<not> xs ! unat i" "\<And>j. j < unat i \<Longrightarrow> xs ! j"
      "swap_table_scan_and_flip (mm st) = Some (i, (mm st)\<lparr>swap_lock := True, swap_table := Some b\<rparr>)"
      "bitmap_rep b (xs[unat i := True])"
  | (full) b where "False \<notin> set xs" "bitmap_rep b xs"
      "swap_table_scan_and_flip (mm st) = Some (BITMAP_ERROR, (mm st)\<lparr>swap_lock := True, swap_table := Some b\<rparr>)"
proof -
  from bits obtain b where b: "swap_table (mm st) = Some b" "bitmap_rep b xs"
    by (auto simp: swap_bits_def split: option.splits if_splits)
  have one: "(1::size_t) \<noteq> 0" by simp
  have run: "swap_table_scan_and_flip (mm st) = Some (i, (mm st)\<lparr>swap_lock := True, swap_table := Some b'\<rparr>)"
    if "bitmap_scan_and_flip b 0 1 False = Some (i, b')" for i b'
    using that b(1) lock by (simp add: swap_table_scan_and_flip_def swap_lock_acquire_def)
  show thesis
  proof (cases rule: bm.alloc_cases [OF b(2) one])
    case (1 idx b')
    have idx: "unat idx < length xs" using 1(3) by simp
    moreover have "xs ! j" if "j < unat idx" for j using 1(6) [OF that] that idx by (simp add: run_at_nth)
    moreover have "bitmap_rep b' (xs[unat idx := True])" using 1(5) fill_range_1 [OF idx, of True] by simp
    ultimately show thesis using 1(4) run [OF 1(1)] by (intro free) (simp_all add: run_at_nth)
  next
    case 2
    have "xs ! j" if "j < length xs" for j using 2(2) [of j] that by (simp add: run_at_nth)
    then have "False \<notin> set xs" by (auto simp: in_set_conv_nth)
    then show thesis using b(2) run [OF 2(1)] by (rule full)
  qed
qed

section \<open>Properties\<close>

text \<open>
  C26. A not-present fault at a user address, with a frame and a kernel page left, is resolved from
  the supplementary page table.  A recorded page is mapped, writable as recorded, to a frame that
  holds its contents: the bytes of its file followed by zeros, or the bytes of its swap slot, which
  is then free and no longer recorded.  An unrecorded address of the stack region that passes the
  growth heuristic gets a zeroed writable page and a record: the address is at or above the user stack
  pointer of the fault, or exactly 4 or exactly 32 bytes below it (the reach of \<open>PUSH\<close> and \<open>PUSHA\<close>).
  That is what the code tests; \<open>docs/design_document_3.txt\<close> (B4) speaks of a distance of 0x100
  instead.  The frame is appended to the frame table.  Any other address ends the process.\<close>

theorem page_fault_fills_page:
  assumes ok: "fault_ok st" and left: "frame_left (vm_mmu (mm st))" "kernel_page_left (pal (vm_mmu (mm st)))"
    and s: "services_ok s" and fa: "is_user_vaddr fa" "error_code AND PF_P = 0"
  defines "t \<equiv> vm_threads st (running st)" and "up \<equiv> pg_round_down fa"
  assumes absent: "pte_of (vm_mmu (mm st)) (pagedir t) up AND PTE_P = 0"
    and loadable: "\<And>p. page_map t up = Some p \<Longrightarrow> loadable s st p"
  shows "\<exists>st'. case page_map t up of
      Some p \<Rightarrow> page_fault s fa esp error_code st = Some (False, st') \<and>
        page_in st up (page_source s st p) (writable p) st' \<and>
        (swap_outed p \<longrightarrow> swap_bits st' = map_option (\<lambda>xs. xs[unat (swap_index p) := False]) (swap_bits st) \<and>
          (\<exists>q. page_map (vm_threads st' (running st)) = (page_map t)(up \<mapsto> q) \<and> \<not> swap_outed q))
    | None \<Rightarrow>
        (if STACK_BASE \<le> fa \<and> (let sp = user_esp (touch_esp esp t)
             in sp \<le> fa \<or> fa = sp - 4 \<or> fa = sp - 32)
         then page_fault s fa esp error_code st = Some (False, st') \<and>
           page_in st up (replicate 4096 0) True st' \<and>
           (\<exists>p. page_map (vm_threads st' (running st)) = (page_map t)(up \<mapsto> p) \<and> \<not> swap_outed p)
         else page_fault s fa esp error_code st = Some (True, st'))"
proof -
  from page_fault_run [OF ok left s, of fa esp error_code] fa(2) obtain k st1 where
    run: "page_fault s fa esp error_code st = fault_resolve s fa True k (page_map t up) st1"
    and l: "looked_up esp st k st1" by (auto simp: t_def up_def)
  note L = looked_upD [OF l, folded t_def]
  note absent = absent [unfolded t_def up_def]
  have unlocked: "swap_lock_acquire (mm st1) = Some ((mm st1)\<lparr>swap_lock := True\<rparr>)"
    "swap_lock_release ((mm st1)\<lparr>swap_lock := True\<rparr>) = Some (mm st1)" "st1\<lparr>mm := mm st1\<rparr> = st1"
    using L(8) ok
    by (cases "mm st1", simp add: swap_lock_acquire_def swap_lock_release_def fault_ok_def Let_def)+
  show ?thesis
  proof (cases "page_map t up")
    case None
    then show ?thesis
      using run L(1,2) fa(1) grow_stack_ok [OF ok s l fa(1) absent]
      by (auto simp: fault_resolve_def grow_heuristic_def Let_def up_def t_def)
  next
    case (Some p)
    have run: "page_fault s fa esp error_code st = (if \<not> swap_outed p then lazy_load s p up k st1
        else do { st' \<leftarrow> swap_in s p up k st1; Some (False, st') })"
      using run Some unlocked by (simp add: fault_resolve_def up_def)
    note lp = loadable [OF Some]
    show ?thesis
    proof (cases "swap_outed p")
      case True
      with swap_in_bits [OF ok s l fa(1) absent Some [unfolded t_def up_def] True lp] run Some show ?thesis
        by (auto simp: t_def up_def)
    next
      case False
      with lp lazy_load_ok [OF ok s l fa(1) absent, of "file_part s p" p] run Some show ?thesis
        by (auto simp: up_def loadable_def file_part_def page_source_def)
    qed
  qed
qed

definition demo_services :: services where
  "demo_services = \<lparr>page_malloc = (\<lambda>_. Some demo_page), frame_malloc = (\<lambda>_. 0xc0100000),
     bucket_malloc = (\<lambda>_. True), file_bytes = (\<lambda>_ _ _. []), file_write_cnt = (\<lambda>_ _ _. 0)\<rparr>"

definition demo_fault :: vm_state where
  "demo_fault = \<lparr>mm = demo_frames\<lparr>vm_mmu := demo_mmu, frame_table := []\<rparr>,
     vm_threads = (\<lambda>_. demo_vm\<lparr>pagedir := 0xc0010000\<rparr>), running = 0xc0200000, page_fault_cnt = 0,
     heap_calls = 0, freed = [], file_writes = []\<rparr>"

lemma demo_fault_ok:
  "fault_ok demo_fault" "page_map (vm_threads demo_fault a) = Map.empty" "services_ok demo_services"
  using demo_pd_wf(1,2) demo_vm_ok
  by (simp_all add: fault_ok_def demo_fault_def demo_frames_def demo_vm_def Let_def is_user_vaddr_def PHYS_BASE_def
      spt_ok_def spt_room_def page_map_def fun_eq_iff services_ok_def demo_services_def)

lemma demo_left: "frame_left demo_mmu" "kernel_page_left (pal demo_mmu)"
proof -
  have u: "map_option fst (palloc_get_page (PAL_USER OR PAL_ZERO) (pal demo_mmu)) = Some 0xc0014000"
    "map_option fst (palloc_get_page PAL_ZERO (pal demo_mmu)) = Some 0xc0011000" by code_simp+
  then show "frame_left demo_mmu" "kernel_page_left (pal demo_mmu)"
    by (auto simp: frame_left_def kernel_page_left_def demo_mmu_def PHYS_BASE_def)
qed

theorem page_fault_fills_page_witness:
  "\<exists>st'. page_fault demo_services 0xbfffeff0 0xbfffeff4 6 demo_fault = Some (False, st') \<and>
     page_in demo_fault 0xbfffe000 (replicate 4096 0) True st'"
proof -
  have a: "is_user_vaddr 0xbfffeff0" "6 AND PF_P = 0" "pg_round_down 0xbfffeff0 = 0xbfffe000"
      "STACK_BASE \<le> 0xbfffeff0"
      "0xbfffeff0 = user_esp (touch_esp 0xbfffeff4 (vm_threads demo_fault (running demo_fault))) - 4"
    by code_simp+
  have m: "vm_mmu (mm demo_fault) = demo_mmu" by (simp add: demo_fault_def)
  from page_fault_fills_page [where esp = "0xbfffeff4", OF demo_fault_ok(1) _ _ demo_fault_ok(3) a(1,2), unfolded m,
      OF demo_left]
  show ?thesis
    using a demo_pd_wf(4) demo_fault_ok(2) by auto
qed

text \<open>
  A page of the running thread recorded in its table, and a swap disk of two slots, the table of
  which is full.
\<close>

definition demo_table :: "page hash" where
  "demo_table = \<lparr>hash_cnt = 1, bucket_cnt = 4, buckets = [[], [demo_page], [], []],
     hash_func = page_hash, less_func = page_less\<rparr>"

definition demo_swap :: vm_state where
  "demo_swap = demo_fault\<lparr>
     vm_threads := (\<lambda>_. demo_vm\<lparr>supplementary_page_table := demo_table\<rparr>),
     mm := (mm demo_fault)\<lparr>swap_table := Some \<lparr>bit_cnt = 2, bits = [3]\<rparr>,
       swap_disk := \<lparr>capacity = 16, read_cnt = 0, write_cnt = 0, sectors = (\<lambda>_. replicate 512 0)\<rparr>\<rparr>\<rparr>"

lemma demo_table_wf: "hash_wf demo_table" "elems demo_table = [demo_page]"
proof -
  have "find_bucket demo_table demo_page = 1" by code_simp
  then have "\<forall>i < Suc (Suc (Suc (Suc 0))). \<forall>e \<in> set ([[], [demo_page], [], []] ! i). unat (find_bucket demo_table e) = i"
    by (simp add: All_less_Suc)
  moreover have "buckets demo_table = [[], [demo_page], [], []]" "bucket_cnt demo_table = 4" "hash_cnt demo_table = 1"
    by (simp_all add: demo_table_def)
  ultimately show "hash_wf demo_table"
    by (simp add: hash_wf_def placed_def is_power_of_2_def turn_off_least_1bit_def elems_def)
qed (simp add: demo_table_def elems_def)

lemma demo_swap_ok:
  "spt_ok (vm_threads demo_swap a)" "spt_room (vm_threads demo_swap a)"
  "page_map (vm_threads demo_swap a) (pg_round_down (fr_vaddr demo_frame)) = Some demo_page"
  "\<not> mmaped demo_page" "slot_fits (swap_disk (mm demo_swap)) 1" "disk_ok (swap_disk (mm demo_swap))"
  "swap_bits demo_swap = Some [True, True]" "\<not> swap_lock (mm demo_swap)"
proof -
  have "pg_round_down (fr_vaddr demo_frame) = 0x8048000" by code_simp
  then show "page_map (vm_threads demo_swap a) (pg_round_down (fr_vaddr demo_frame)) = Some demo_page"
    by (simp add: demo_swap_def page_map_def demo_table_wf) (simp add: demo_page_def)
  show "swap_bits demo_swap = Some [True, True]"
    by (simp add: swap_bits_def demo_swap_def bitmap_rep_def bits_of_def bit_at_def upt_rec)
  show "spt_ok (vm_threads demo_swap a)" "spt_room (vm_threads demo_swap a)"
    using demo_table_wf by (simp_all add: demo_swap_def spt_ok_def spt_room_def) (simp_all add: demo_table_def demo_vm_def)
qed (simp_all add: demo_page_def demo_swap_def slot_fits_def disk_ok_def demo_fault_def demo_frames_def)

text \<open>
  C27. Swapping a page out and reading its slot back restores it: when the victim is not memory
  mapped and the slot lies on the swap disk, \<open>swap_out_page\<close> records the slot in the page's record,
  and reading the slot into any frame yields the 4096 bytes of the victim's frame.  No other slot of
  the disk changes.\<close>

theorem swap_roundtrip:
  assumes s: "services_ok s" and t: "spt_ok (vm_threads st (fr_thread fr))" "spt_room (vm_threads st (fr_thread fr))"
    and p: "page_map (vm_threads st (fr_thread fr)) (pg_round_down (fr_vaddr fr)) = Some p" "\<not> mmaped p" "k \<noteq> 0"
    and d: "slot_fits (swap_disk (mm st)) i" "disk_ok (swap_disk (mm st))"
  shows "\<exists>st' e. swap_out_page s i fr p k st = Some st' \<and>
    page_map (vm_threads st' (fr_thread fr)) = (page_map (vm_threads st (fr_thread fr)))
      (pg_round_down (fr_vaddr fr) \<mapsto> p\<lparr>elem := e, swap_outed := True, swap_index := i\<rparr>) \<and>
    (\<forall>k' m. \<exists>d' m'. swap_read (swap_disk (mm st')) (i * 8) (i * 8 + 8) 0 k' m = Some (d', m') \<and>
      page_bytes (load m') k' = page_bytes (load (vm_mmu (mm st))) k) \<and>
    (\<forall>j. j \<noteq> i \<longrightarrow> slot_fits (swap_disk (mm st)) j \<longrightarrow>
      slot_bytes (swap_disk (mm st')) j 0 = slot_bytes (swap_disk (mm st)) j 0)"
proof -
  from swap_index_in_ok [OF s t p(1), of True i] obtain st1 e where
    st1: "swap_index_in s (fr_vaddr fr) (fr_thread fr) True i st = Some st1" "mm st1 = mm st"
      "page_map (vm_threads st1 (fr_thread fr)) = (page_map (vm_threads st (fr_thread fr)))
        (pg_round_down (fr_vaddr fr) \<mapsto> p\<lparr>elem := e, swap_outed := True, swap_index := i\<rparr>)" by blast
  from swap_write_slot [OF d length_page_bytes] obtain d' where
    d': "swap_write (swap_disk (mm st)) (i * 8) (i * 8 + 8) 0 (page_bytes (load (vm_mmu (mm st))) k) = Some d'"
      "slot_fits d' i" "disk_ok d'" "slot_bytes d' i 0 = page_bytes (load (vm_mmu (mm st))) k"
      "\<forall>j. j \<noteq> i \<longrightarrow> slot_fits (swap_disk (mm st)) j \<longrightarrow> slot_bytes d' j 0 = slot_bytes (swap_disk (mm st)) j 0"
    by blast
  have "\<exists>d2 m'. swap_read d' (i * 8) (i * 8 + 8) 0 k' m = Some (d2, m') \<and>
      page_bytes (load m') k' = page_bytes (load (vm_mmu (mm st))) k" for k' m
    using swap_read_ok [OF d'(2) _ d'(3), of 0 k' m] d'(4) by auto
  then show ?thesis
    using st1 d'(1,5) p(2,3) by (auto simp: swap_out_page_def set_swap_disk_def)
qed

theorem swap_roundtrip_witness:
  "\<exists>st'. swap_out_page demo_services 1 demo_frame demo_page 0xc0014000 demo_swap = Some st' \<and>
    (\<exists>d' m'. swap_read (swap_disk (mm st')) 8 16 0 0xc0015000 demo_mmu = Some (d', m') \<and>
      page_bytes (load m') 0xc0015000 = page_bytes (load (vm_mmu (mm demo_swap))) 0xc0014000)"
proof -
  from swap_roundtrip [OF demo_fault_ok(3) demo_swap_ok(1,2,3,4) _ demo_swap_ok(5,6), of "0xc0014000"] obtain st' where
    "swap_out_page demo_services 1 demo_frame demo_page 0xc0014000 demo_swap = Some st'"
    "\<And>k' m. \<exists>d' m'. swap_read (swap_disk (mm st')) (1 * 8) (1 * 8 + 8) 0 k' m = Some (d', m') \<and>
      page_bytes (load m') k' = page_bytes (load (vm_mmu (mm demo_swap))) 0xc0014000" by auto
  from this(1) this(2) [of "0xc0015000" demo_mmu] show ?thesis by auto
qed

text \<open>A machine whose only user frame holds the page of \<open>demo_swap\<close>, with the given swap table.\<close>

definition demo_evict :: "u32 \<Rightarrow> vm_state" where
  "demo_evict w = demo_swap\<lparr>mm := (mm demo_swap)\<lparr>vm_mmu := demo_mapped, frame_table := [demo_frame],
     swap_table := Some \<lparr>bit_cnt = 2, bits = [w]\<rparr>\<rparr>\<rparr>"

lemma demo_evictable: "evictable (demo_evict w) demo_frame demo_page 0xc0014000"
proof -
  have sel: "vm_mmu (mm (demo_evict w)) = demo_mapped" "frame_table (mm (demo_evict w)) = [demo_frame]"
    "vm_threads (demo_evict w) = vm_threads demo_swap" "\<not> frame_lock (mm (demo_evict w))"
    "\<not> swap_lock (mm (demo_evict w))"
    by (simp_all add: demo_evict_def demo_swap_def demo_fault_def demo_frames_def)
  have fr: "fr_pd demo_frame = 0xc0010000" "fr_vaddr demo_frame = 0x08048000" by (simp_all add: demo_frame_def)
  have "frames_ok (mm (demo_evict w))"
    using demo_frames_ok(1) sel by (simp add: frames_ok_def demo_frames_def)
  moreover have u: "bits_of (used_map (user_pool (pal demo_mapped))) = [True]"
    by (simp add: demo_mapped_def bits_of_def bit_at_def upt_rec)
  moreover have "0xc0014000 \<in> used_pages (user_pool (pal demo_mapped)) [True]"
    by (simp add: used_pages_def page_at_def image_iff demo_mapped_def)
  moreover have "pte_of demo_mapped 0xc0010000 0x08048000 = 0x00014007"
    by (simp add: demo_mapped_entries pd_no_def pt_no_def PGBITS_def PTBITS_def PTMASK_def BITMASK_def)
  moreover have "table_of 0x00014007 = 0xc0014000" "0x00014007 AND PTE_P \<noteq> 0" "pg_ofs 0x08048000 = 0"
    by (simp_all add: table_of_def PTE_ADDR_def PHYS_BASE_def PTE_P_def pg_ofs_0)
  moreover have "0xc0014000 \<notin> dir_pages demo_mapped 0xc0010000"
    by (simp add: dir_pages_def demo_mapped_wf(4))
  ultimately show ?thesis
    using demo_swap_ok(1-4) demo_frames_ok(2) sel fr unfolding evictable_def Let_def by simp
qed

lemma demo_evict_bits: "swap_bits (demo_evict 1) = Some [True, False]" "swap_bits (demo_evict 3) = Some [True, True]"
  "swap_disk (mm (demo_evict w)) = swap_disk (mm demo_swap)"
  by (simp_all add: swap_bits_def demo_evict_def bitmap_rep_def bits_of_def bit_at_def upt_rec)

text \<open>
  C28. With a free slot in the swap table, eviction saves its victim.  When the user pool is
  exhausted, \<open>evict_frame\<close> takes the frame that the second-chance scan chooses, writes the 4096 bytes of
  its page to the first free slot, which it marks as taken, changes no other slot, records the slot in
  the page's record, removes the mapping and the frame table entry, and returns the same frame,
  zeroed, with the swap lock released.  The victim is not memory mapped.\<close>

theorem eviction_saves_page:
  assumes ev: "evictable st fr p k" and s: "services_ok s" and xs: "swap_bits st = Some xs" "False \<in> set xs"
    and d: "\<And>i. unat i < length xs \<Longrightarrow> slot_fits (swap_disk (mm st)) i" "disk_ok (swap_disk (mm st))"
  shows "\<exists>i st'. evict_frame s st = Some (k, st') \<and> evicted st fr p k i st' \<and>
    unat i < length xs \<and> \<not> xs ! unat i \<and> (\<forall>j < unat i. xs ! j) \<and>
    slot_bytes (swap_disk (mm st')) i 0 = page_bytes (load (vm_mmu (mm st))) k \<and>
    (\<forall>j. j \<noteq> i \<longrightarrow> slot_fits (swap_disk (mm st)) j \<longrightarrow>
      slot_bytes (swap_disk (mm st')) j 0 = slot_bytes (swap_disk (mm st)) j 0) \<and>
    swap_bits st' = Some (xs[unat i := True])"
proof -
  have lock: "\<not> swap_lock (mm st)" using ev by (simp add: evictable_def Let_def)
  show ?thesis
  proof (cases rule: scan_slot [OF xs(1) lock])
    case (1 i b)
    from swap_write_slot [OF d(1) [OF 1(1)] d(2) length_page_bytes] obtain d' where
      d': "swap_write (swap_disk (mm st)) (i * 8) (i * 8 + 8) 0 (page_bytes (load (vm_mmu (mm st))) k) = Some d'"
        "slot_bytes d' i 0 = page_bytes (load (vm_mmu (mm st))) k"
        "\<forall>j. j \<noteq> i \<longrightarrow> slot_fits (swap_disk (mm st)) j \<longrightarrow> slot_bytes d' j 0 = slot_bytes (swap_disk (mm st)) j 0"
      by blast
    from evict_frame_run [OF ev s 1(4) d'(1)] obtain st' where
      st': "evict_frame s st = Some (k, st')" "swap_disk (mm st') = d'" "swap_table (mm st') = Some b"
        "evicted st fr p k i st'" by blast
    have "swap_bits st' = Some (xs[unat i := True])"
      using 1(5) st'(3) by (simp add: swap_bits_def bitmap_rep_def)
    with st' d'(2,3) 1(1-3) show ?thesis by (intro exI [of _ i] exI [of _ st']) simp
  next
    case (2 b)
    with xs(2) show ?thesis by simp
  qed
qed

theorem eviction_saves_page_witness:
  "\<exists>st'. evict_frame demo_services (demo_evict 1) = Some (0xc0014000, st') \<and>
     slot_bytes (swap_disk (mm st')) 1 0 = page_bytes (load demo_mapped) 0xc0014000 \<and>
     swap_bits st' = Some [True, True]"
proof -
  have d: "slot_fits (swap_disk (mm (demo_evict 1))) i" if "unat i < length [True, False]" for i
    using that by (simp add: slot_fits_def demo_evict_bits(3) demo_swap_def)
  have "disk_ok (swap_disk (mm (demo_evict 1)))" using demo_swap_ok(6) by (simp add: demo_evict_bits(3))
  from eviction_saves_page [OF demo_evictable demo_fault_ok(3) demo_evict_bits(1) _ d this] obtain i st' where
    st': "evict_frame demo_services (demo_evict 1) = Some (0xc0014000, st')" "unat i < length [True, False]"
      "\<not> [True, False] ! unat i" "slot_bytes (swap_disk (mm st')) i 0 = page_bytes (load demo_mapped) 0xc0014000"
      "swap_bits st' = Some ([True, False][unat i := True])"
    by (auto simp: demo_evict_def)
  from st'(2,3) have i: "i = 1" by (cases "unat i") (auto simp: word_unat_eq_iff)
  with st'(1,4,5) show ?thesis by auto
qed

text \<open>
  C29. When every slot of the swap table is taken, the victim is lost: \<open>evict_frame\<close> does not check the
  \<open>BITMAP_ERROR\<close> that the scan of the swap table answers, and the sector bounds that it computes from it
  wrap around to an empty range.  So it succeeds and hands out the victim's frame, zeroed, with the
  page recorded as swapped out, but has written nothing to the swap disk.\<close>

theorem swap_full_loses_page:
  assumes ev: "evictable st fr p k" and s: "services_ok s" and full: "swap_bits st = Some xs" "False \<notin> set xs"
  shows "\<exists>st'. evict_frame s st = Some (k, st') \<and> evicted st fr p k BITMAP_ERROR st' \<and>
    swap_disk (mm st') = swap_disk (mm st) \<and> swap_bits st' = swap_bits st"
proof -
  have lock: "\<not> swap_lock (mm st)" using ev by (simp add: evictable_def Let_def)
  have w: "swap_write d (BITMAP_ERROR * 8) (BITMAP_ERROR * 8 + 8) n bs = Some d" for d n bs
    by (subst swap_write.simps) (simp add: BITMAP_ERROR_def)
  show ?thesis
  proof (cases rule: scan_slot [OF full(1) lock])
    case (1 i b)
    with full(2) nth_mem [OF 1(1)] show ?thesis by simp
  next
    case (2 b)
    from evict_frame_run [OF ev s 2(3) w] obtain st' where
      "evict_frame s st = Some (k, st')" "swap_disk (mm st') = swap_disk (mm st)" "swap_table (mm st') = Some b"
      "evicted st fr p k BITMAP_ERROR st'" by blast
    moreover from this 2(2) full(1) have "swap_bits st' = swap_bits st" by (simp add: swap_bits_def bitmap_rep_def)
    ultimately show ?thesis by blast
  qed
qed

theorem swap_full_loses_page_witness:
  "\<exists>st'. evict_frame demo_services (demo_evict 3) = Some (0xc0014000, st') \<and>
     page_bytes (load (vm_mmu (mm st'))) 0xc0014000 = replicate 4096 0 \<and>
     swap_disk (mm st') = swap_disk (mm (demo_evict 3))"
  using swap_full_loses_page [OF demo_evictable demo_fault_ok(3) demo_evict_bits(2)]
  by (auto simp: evicted_def)

end
