(* ===== verification/Stdlib.thy ===== *)
theory Stdlib
  imports Strings
begin

text \<open>
  \<open>lib/stdlib.c\<close>: sorting and searching arrays in byte memory.

  An array is a base address, a number of elements and their size in bytes; \<open>sort\<close> works on it in
  place, through a comparison function that receives the addresses of two elements.  The comparison
  function is a parameter that reads memory; its \<open>aux\<close> argument is part of the function.  The loop
  of \<open>heapify\<close> and that of \<open>binary_search\<close> are partial functions, shown to return.

  The section on lists is the algorithm without memory: \<open>sift\<close> is \<open>heapify\<close> on the list of
  elements.  The interface \<open>comparator\<close> says what the comments of \<open>stdlib.c\<close> ask of the comparison,
  and is interpreted on \<open>memcmp\<close>.
\<close>

section \<open>Definitions\<close>

type_synonym compare_func = "addr \<Rightarrow> addr \<Rightarrow> bmem \<Rightarrow> int"

lemma one_less_pos: "1 < i \<Longrightarrow> 0 < i"
  for i :: u32
  by (simp add: word_less_nat_alt)

definition compare_thunk :: "compare_func \<Rightarrow> compare_func" where
  "compare_thunk compare a b m = compare a b m"

function do_swap_loop :: "addr \<Rightarrow> addr \<Rightarrow> size_t \<Rightarrow> size_t \<Rightarrow> bmem \<Rightarrow> bmem" where
  "do_swap_loop a b size' i m =
     (if i < size' then do_swap_loop a b size' (i + 1) (m(a + i := m (b + i), b + i := m (a + i))) else m)"
  by pat_completeness auto
termination by (relation "measure (\<lambda>(_, _, n, i, _). unat n - unat i)") (auto simp: count_below_measure)

definition do_swap :: "addr \<Rightarrow> size_t \<Rightarrow> size_t \<Rightarrow> size_t \<Rightarrow> bmem \<Rightarrow> bmem" where
  "do_swap array a_idx b_idx size' m =
     do_swap_loop (array + (a_idx - 1) * size') (array + (b_idx - 1) * size') size' 0 m"

definition do_compare :: "addr \<Rightarrow> size_t \<Rightarrow> size_t \<Rightarrow> size_t \<Rightarrow> compare_func \<Rightarrow> bmem \<Rightarrow> int" where
  "do_compare array a_idx b_idx size' compare m =
     compare (array + (a_idx - 1) * size') (array + (b_idx - 1) * size') m"

partial_function (option) heapify ::
  "addr \<Rightarrow> size_t \<Rightarrow> size_t \<Rightarrow> size_t \<Rightarrow> compare_func \<Rightarrow> bmem \<Rightarrow> bmem option" where
  "heapify array i cnt size' compare m =
     (let left = 2 * i;
          right = 2 * i + 1;
          mx = i;
          mx = (if left \<le> cnt \<and> do_compare array left mx size' compare m > 0 then left else mx);
          mx = (if right \<le> cnt \<and> do_compare array right mx size' compare m > 0 then right else mx)
      in if mx = i then Some m
         else heapify array mx cnt size' compare (do_swap array i mx size' m))"

function build_loop :: "addr \<Rightarrow> size_t \<Rightarrow> size_t \<Rightarrow> size_t \<Rightarrow> compare_func \<Rightarrow> bmem \<Rightarrow> bmem option" where
  "build_loop array i cnt size' compare m =
     (if i > 0
      then do {
        m \<leftarrow> heapify array i cnt size' compare m;
        build_loop array (i - 1) cnt size' compare m
      }
      else Some m)"
  by pat_completeness auto
termination by (relation "measure (\<lambda>(_, i, _). unat i)") (auto simp: count_down_measure)

function heap_sort_loop :: "addr \<Rightarrow> size_t \<Rightarrow> size_t \<Rightarrow> compare_func \<Rightarrow> bmem \<Rightarrow> bmem option" where
  "heap_sort_loop array i size' compare m =
     (if i > 1
      then do {
        let m = do_swap array 1 i size' m;
        m \<leftarrow> heapify array 1 (i - 1) size' compare m;
        heap_sort_loop array (i - 1) size' compare m
      }
      else Some m)"
  by pat_completeness auto
termination
  by (relation "measure (\<lambda>(_, i, _). unat i)") (auto simp: count_down_measure dest: one_less_pos)

definition sort_array :: "addr \<Rightarrow> size_t \<Rightarrow> size_t \<Rightarrow> compare_func \<Rightarrow> bmem \<Rightarrow> bmem option" where
  "sort_array array cnt size' compare m = do {
     ASSERT (array \<noteq> 0 \<or> cnt = 0);
     ASSERT (size' > 0);
     m \<leftarrow> build_loop array (cnt div 2) cnt size' compare m;
     heap_sort_loop array cnt size' compare m
   }"

definition qsort :: "addr \<Rightarrow> size_t \<Rightarrow> size_t \<Rightarrow> compare_func \<Rightarrow> bmem \<Rightarrow> bmem option" where
  "qsort array cnt size' compare m = sort_array array cnt size' (compare_thunk compare) m"

partial_function (option) search_loop ::
  "addr \<Rightarrow> addr \<Rightarrow> addr \<Rightarrow> size_t \<Rightarrow> compare_func \<Rightarrow> bmem \<Rightarrow> addr option" where
  "search_loop key fst' lst size' compare m =
     (if fst' < lst
      then let range' = (lst - fst') div size';
               middle = fst' + range' div 2 * size';
               c = compare key middle m
           in if c < 0 then search_loop key fst' middle size' compare m
              else if c > 0 then search_loop key (middle + size') lst size' compare m
              else Some middle
      else Some 0)"

definition binary_search :: "addr \<Rightarrow> addr \<Rightarrow> size_t \<Rightarrow> size_t \<Rightarrow> compare_func \<Rightarrow> bmem \<Rightarrow> addr option" where
  "binary_search key array cnt size' compare m =
     search_loop key array (array + size' * cnt) size' compare m"

definition bsearch :: "addr \<Rightarrow> addr \<Rightarrow> size_t \<Rightarrow> size_t \<Rightarrow> compare_func \<Rightarrow> bmem \<Rightarrow> addr option" where
  "bsearch key array cnt size' compare m = binary_search key array cnt size' (compare_thunk compare) m"

declare do_swap_loop.simps [simp del] build_loop.simps [simp del] heap_sort_loop.simps [simp del]

section \<open>Heap sort on lists\<close>

text \<open>Elements have one-based indices.\<close>

definition elt :: "'b list \<Rightarrow> nat \<Rightarrow> 'b" where
  "elt xs k = xs ! (k - 1)"

definition swap :: "'b list \<Rightarrow> nat \<Rightarrow> nat \<Rightarrow> 'b list" where
  "swap xs a b = xs[a - 1 := elt xs b, b - 1 := elt xs a]"

definition biggest :: "('b \<Rightarrow> 'b \<Rightarrow> int) \<Rightarrow> 'b list \<Rightarrow> nat \<Rightarrow> nat \<Rightarrow> nat" where
  "biggest cmp xs cnt i =
     (let mx = (if 2 * i \<le> cnt \<and> cmp (elt xs (2 * i)) (elt xs i) > 0 then 2 * i else i)
      in if 2 * i + 1 \<le> cnt \<and> cmp (elt xs (2 * i + 1)) (elt xs mx) > 0 then 2 * i + 1 else mx)"

lemma biggest_bounds: "biggest cmp xs cnt i \<noteq> i \<Longrightarrow> i < biggest cmp xs cnt i \<and> biggest cmp xs cnt i \<le> cnt"
  by (auto simp: biggest_def Let_def split: if_splits)

function sift :: "('b \<Rightarrow> 'b \<Rightarrow> int) \<Rightarrow> nat \<Rightarrow> nat \<Rightarrow> 'b list \<Rightarrow> 'b list" where
  "sift cmp cnt i xs =
     (if biggest cmp xs cnt i = i then xs
      else sift cmp cnt (biggest cmp xs cnt i) (swap xs i (biggest cmp xs cnt i)))"
  by pat_completeness auto
termination
proof (relation "measure (\<lambda>(_, cnt, i, _). cnt - i)")
  fix cmp cnt i and xs :: "'b list"
  assume "biggest cmp xs cnt i \<noteq> i"
  from biggest_bounds [OF this]
  show "((cmp, cnt, biggest cmp xs cnt i, swap xs i (biggest cmp xs cnt i)), cmp, cnt, i, xs)
      \<in> measure (\<lambda>(_, cnt, i, _). cnt - i)" by auto
qed simp

declare sift.simps [simp del]

fun build_heap :: "('b \<Rightarrow> 'b \<Rightarrow> int) \<Rightarrow> nat \<Rightarrow> nat \<Rightarrow> 'b list \<Rightarrow> 'b list" where
  "build_heap cmp cnt 0 xs = xs"
| "build_heap cmp cnt (Suc i) xs = build_heap cmp cnt i (sift cmp cnt (Suc i) xs)"

fun unheap :: "('b \<Rightarrow> 'b \<Rightarrow> int) \<Rightarrow> nat \<Rightarrow> 'b list \<Rightarrow> 'b list" where
  "unheap cmp (Suc (Suc i)) xs = unheap cmp (Suc i) (sift cmp (Suc i) 1 (swap xs 1 (Suc (Suc i))))"
| "unheap cmp _ xs = xs"

lemma length_swap [simp]: "length (swap xs a b) = length xs"
  by (simp add: swap_def)

lemma elt_swap:
  assumes "1 \<le> a" "a \<le> length xs" "1 \<le> b" "b \<le> length xs" "1 \<le> k"
  shows "elt (swap xs a b) k = (if k = a then elt xs b else if k = b then elt xs a else elt xs k)"
  using assms by (cases a; cases b; cases k) (auto simp: elt_def swap_def nth_list_update)

lemma mset_swap:
  assumes "1 \<le> a" "a \<le> length xs" "1 \<le> b" "b \<le> length xs"
  shows "mset (swap xs a b) = mset xs"
  using assms mset_swap [of "b - 1" xs "a - 1"]
  by (cases "a = b") (auto simp: swap_def elt_def)

lemma swap_prefix:
  assumes "1 \<le> a" "a \<le> n" "1 \<le> b" "b \<le> n" "n \<le> length xs"
  shows "drop n (swap xs a b) = drop n xs" "take n (swap xs a b) = swap (take n xs) a b"
  using assms by (auto simp: swap_def elt_def take_update_swap)

lemma sift_prefix:
  assumes "1 \<le> i" "i \<le> cnt" "cnt \<le> length xs"
  shows "length (sift cmp cnt i xs) = length xs \<and> drop cnt (sift cmp cnt i xs) = drop cnt xs \<and>
    mset (take cnt (sift cmp cnt i xs)) = mset (take cnt xs)"
  using assms
proof (induction cmp cnt i xs rule: sift.induct)
  case (1 cmp cnt i xs)
  show ?case
  proof (cases "biggest cmp xs cnt i = i")
    case True
    then show ?thesis by (subst (1 2 3) sift.simps) simp
  next
    case False
    let ?b = "biggest cmp xs cnt i"
    have b: "i < ?b" "?b \<le> cnt" using biggest_bounds [OF False] by auto
    have "mset (take cnt (swap xs i ?b)) = mset (take cnt xs)"
      using 1(2-4) b swap_prefix(2) [of i cnt ?b xs] by (simp add: Stdlib.mset_swap)
    then show ?thesis
      using 1(1) [OF False] 1(2-4) b False swap_prefix(1) [of i cnt ?b xs] by (subst (1 2 3) sift.simps) simp
  qed
qed

text \<open>
  The comparison function of the callers of \<open>sort\<close>: it depends on the bytes of the two elements
  only, its sign changes when the elements are exchanged, and it is transitive.
\<close>

locale ordering_function =
  fixes cmp :: "'b \<Rightarrow> 'b \<Rightarrow> int"
  assumes flip: "cmp x y > 0 \<longleftrightarrow> cmp y x < 0"
    and trans: "cmp x y \<le> 0 \<Longrightarrow> cmp y z \<le> 0 \<Longrightarrow> cmp x z \<le> 0"
begin

lemma total: "cmp x y \<le> 0 \<or> cmp y x \<le> 0"
  using flip [of x y] by linarith

lemma refl: "cmp x x \<le> 0"
  using total by blast

definition heap :: "'b list \<Rightarrow> nat \<Rightarrow> nat \<Rightarrow> bool" where
  "heap xs lo cnt \<longleftrightarrow> (\<forall>k \<le> cnt. lo \<le> k div 2 \<longrightarrow> cmp (elt xs k) (elt xs (k div 2)) \<le> 0)"

definition hole :: "'b list \<Rightarrow> nat \<Rightarrow> nat \<Rightarrow> nat \<Rightarrow> bool" where
  "hole xs lo i cnt \<longleftrightarrow>
     (\<forall>k \<le> cnt. lo \<le> k div 2 \<longrightarrow> k div 2 \<noteq> i \<longrightarrow> cmp (elt xs k) (elt xs (k div 2)) \<le> 0) \<and>
     (\<forall>k \<le> cnt. k div 2 = i \<longrightarrow> lo \<le> i div 2 \<longrightarrow> cmp (elt xs k) (elt xs (i div 2)) \<le> 0)"

lemma biggest_bound:
  "cmp (elt xs i) (elt xs (biggest cmp xs cnt i)) \<le> 0"
  "2 * i \<le> cnt \<Longrightarrow> cmp (elt xs (2 * i)) (elt xs (biggest cmp xs cnt i)) \<le> 0"
  "2 * i + 1 \<le> cnt \<Longrightarrow> cmp (elt xs (2 * i + 1)) (elt xs (biggest cmp xs cnt i)) \<le> 0"
proof -
  define mx where "mx = (if 2 * i \<le> cnt \<and> cmp (elt xs (2 * i)) (elt xs i) > 0 then 2 * i else i)"
  have mx: "cmp (elt xs i) (elt xs mx) \<le> 0" "2 * i \<le> cnt \<Longrightarrow> cmp (elt xs (2 * i)) (elt xs mx) \<le> 0"
    using refl flip [of "elt xs (2 * i)" "elt xs i"] by (auto simp: mx_def)
  have b: "biggest cmp xs cnt i = (if 2 * i + 1 \<le> cnt \<and> cmp (elt xs (2 * i + 1)) (elt xs mx) > 0 then 2 * i + 1 else mx)"
    by (simp add: biggest_def mx_def Let_def)
  have m: "cmp (elt xs mx) (elt xs (biggest cmp xs cnt i)) \<le> 0"
    using refl flip [of "elt xs (2 * i + 1)" "elt xs mx"] by (auto simp: b)
  show "cmp (elt xs i) (elt xs (biggest cmp xs cnt i)) \<le> 0"
    "2 * i \<le> cnt \<Longrightarrow> cmp (elt xs (2 * i)) (elt xs (biggest cmp xs cnt i)) \<le> 0"
    using trans [OF _ m] mx by blast+
  show "2 * i + 1 \<le> cnt \<Longrightarrow> cmp (elt xs (2 * i + 1)) (elt xs (biggest cmp xs cnt i)) \<le> 0"
    using refl by (auto simp: b)
qed

lemma biggest_child:
  assumes "k \<le> cnt" "k div 2 = i"
  shows "cmp (elt xs k) (elt xs (biggest cmp xs cnt i)) \<le> 0"
proof -
  have "k = 2 * i \<or> k = 2 * i + 1" using assms(2) by auto
  then show ?thesis using biggest_bound(2,3) [of i cnt xs] assms(1) by auto
qed

lemma biggest_parent: "biggest cmp xs cnt i \<noteq> i \<Longrightarrow> biggest cmp xs cnt i div 2 = i"
  by (auto simp: biggest_def Let_def split: if_splits)

lemma sift_heap:
  assumes "1 \<le> lo" "lo \<le> i" "i \<le> cnt" "cnt \<le> length xs" "hole xs lo i cnt"
  shows "heap (sift cmp cnt i xs) lo cnt"
  using assms
proof (induction "cnt - i" arbitrary: i xs rule: less_induct)
  case less
  let ?b = "biggest cmp xs cnt i"
  note h = less.prems(5) [unfolded hole_def]
  show ?case
  proof (cases "?b = i")
    case True
    then have "cmp (elt xs k) (elt xs (k div 2)) \<le> 0" if "k \<le> cnt" "lo \<le> k div 2" for k
      using h that biggest_child [OF that(1), of i xs] by (cases "k div 2 = i") auto
    then show ?thesis using True by (subst sift.simps) (simp add: heap_def)
  next
    case False
    note b = biggest_bounds [OF False] biggest_parent [OF False]
    let ?ys = "swap xs i ?b"
    have e: "elt ?ys k = (if k = i then elt xs ?b else if k = ?b then elt xs i else elt xs k)" if "1 \<le> k" for k
      using less.prems b that by (intro elt_swap) auto
    have ei: "elt ?ys i = elt xs ?b" using less.prems(1,2) by (simp add: e)
    have bi: "cmp (elt xs ?b) (elt xs (i div 2)) \<le> 0" if "lo \<le> i div 2"
      using h b that less.prems(1,2) by auto
    have "cmp (elt ?ys k) (elt ?ys (k div 2)) \<le> 0" if k: "k \<le> cnt" "lo \<le> k div 2" "k div 2 \<noteq> ?b" for k
    proof -
      have k1: "1 \<le> k" "1 \<le> k div 2" using k(2) less.prems(1) by auto
      consider "k = i" | "k = ?b" | "k \<noteq> i" "k \<noteq> ?b" "k div 2 = i" | "k \<noteq> i" "k \<noteq> ?b" "k div 2 \<noteq> i" by blast
      then show ?thesis
      proof cases
        case 1
        then have "i div 2 \<noteq> i" using k1 by auto
        then show ?thesis using 1 bi k b k1 by (simp add: e [OF k1(2) [unfolded 1]] e [OF k1(1) [unfolded 1]])
      next
        case 2
        then show ?thesis using b biggest_bound(1) less.prems(1,2) by (simp add: e)
      next
        case 3
        then show ?thesis using biggest_child [OF k(1), of i xs] by (simp add: e [OF k1(1)] ei)
      next
        case 4
        then show ?thesis using h k by (simp add: e [OF k1(1)] e [OF k1(2)])
      qed
    qed
    moreover have "cmp (elt ?ys k) (elt ?ys (?b div 2)) \<le> 0" if k: "k \<le> cnt" "k div 2 = ?b" for k
    proof -
      have "k \<noteq> i" "k \<noteq> ?b" "1 \<le> k" "k div 2 \<noteq> i" "lo \<le> k div 2" using b k(2) less.prems(1,2) by auto
      moreover from this have "cmp (elt xs k) (elt xs (k div 2)) \<le> 0" using h k(1) by blast
      ultimately show ?thesis using k(2) b by (simp add: e ei)
    qed
    ultimately have "hole ?ys lo ?b cnt" by (auto simp: hole_def)
    then have "heap (sift cmp cnt ?b ?ys) lo cnt"
      using less.prems b by (intro less.hyps) auto
    then show ?thesis using False by (subst sift.simps) simp
  qed
qed

lemma heap_hole: "heap xs (Suc i) cnt \<Longrightarrow> 1 \<le> i \<Longrightarrow> hole xs i i cnt"
  by (auto simp: heap_def hole_def)

lemma build_heap_ok:
  assumes "heap xs (Suc i) cnt" "i \<le> cnt" "cnt \<le> length xs"
  shows "heap (build_heap cmp cnt i xs) 1 cnt \<and> length (build_heap cmp cnt i xs) = length xs \<and>
    drop cnt (build_heap cmp cnt i xs) = drop cnt xs \<and> mset (take cnt (build_heap cmp cnt i xs)) = mset (take cnt xs)"
  using assms
proof (induction i arbitrary: xs)
  case (Suc i)
  have "hole xs (Suc i) (Suc i) cnt" using Suc.prems(1) by (rule heap_hole) simp
  then have "heap (sift cmp cnt (Suc i) xs) (Suc i) cnt" using Suc.prems by (intro sift_heap) auto
  with Suc.IH [of "sift cmp cnt (Suc i) xs"] sift_prefix [of "Suc i" cnt xs cmp] Suc.prems show ?case by auto
qed auto

lemma heap_max: "heap xs 1 cnt \<Longrightarrow> 1 \<le> k \<Longrightarrow> k \<le> cnt \<Longrightarrow> cmp (elt xs k) (elt xs 1) \<le> 0"
proof (induction k rule: less_induct)
  case (less k)
  show ?case
  proof (cases "k = 1")
    case False
    then have "1 \<le> k div 2" "k div 2 < k" using less.prems by auto
    moreover from this have "cmp (elt xs (k div 2)) (elt xs 1) \<le> 0" using less.prems by (intro less.IH) auto
    ultimately show ?thesis using less.prems trans [of "elt xs k" "elt xs (k div 2)"] by (auto simp: heap_def)
  qed (simp add: refl)
qed

lemma heap_max_set: "heap xs 1 cnt \<Longrightarrow> cnt \<le> length xs \<Longrightarrow> x \<in> set (take cnt xs) \<Longrightarrow> cmp x (elt xs 1) \<le> 0"
  using heap_max [of xs cnt "Suc k" for k] by (auto simp: in_set_conv_nth elt_def)

lemma heap_after_swap:
  assumes "heap xs 1 (Suc n)" "1 \<le> n" "Suc n \<le> length xs"
  shows "hole (swap xs 1 (Suc n)) 1 1 n"
  using assms by (auto simp: hole_def heap_def elt_swap)

lemma unheap_step:
  assumes "heap xs 1 (Suc n)" "1 \<le> n" "Suc n \<le> length xs"
  defines "ys \<equiv> sift cmp n 1 (swap xs 1 (Suc n))"
  shows "heap ys 1 n" "length ys = length xs" "drop n ys = elt xs 1 # drop (Suc n) xs" "mset ys = mset xs"
    "set (take n ys) \<subseteq> set (take (Suc n) xs)"
proof -
  let ?zs = "swap xs 1 (Suc n)"
  have s: "length ys = length ?zs" "drop n ys = drop n ?zs" "mset (take n ys) = mset (take n ?zs)"
    using sift_prefix [of 1 n ?zs cmp] assms(2,3) by (simp_all add: ys_def)
  show "heap ys 1 n" unfolding ys_def using assms(2,3) heap_after_swap [OF assms(1-3)] by (intro sift_heap) auto
  show "length ys = length xs" using s(1) by simp
  have "drop n ?zs = ?zs ! n # drop (Suc n) ?zs" using assms(3) by (simp add: Cons_nth_drop_Suc)
  moreover have "?zs ! n = elt xs 1" using elt_swap [of 1 xs "Suc n" "Suc n"] assms(2,3) by (simp add: elt_def)
  moreover have "drop (Suc n) ?zs = drop (Suc n) xs" by (rule swap_prefix) (use assms in auto)
  ultimately show d: "drop n ys = elt xs 1 # drop (Suc n) xs" using s(2) by simp
  have "mset ys = mset (take n ys @ drop n ys)" by simp
  also have "\<dots> = mset (take n ?zs @ drop n ?zs)" unfolding mset_append using s by simp
  also have "\<dots> = mset xs" using assms(2,3) by (simp add: Stdlib.mset_swap)
  finally show "mset ys = mset xs" .
  have "mset (take (Suc n) ?zs) = mset (take (Suc n) xs)"
    using swap_prefix(2) [of 1 "Suc n" "Suc n" xs] assms(2,3) by (simp add: Stdlib.mset_swap)
  then have "set (take (Suc n) ?zs) = set (take (Suc n) xs)" by (rule mset_eq_setD)
  moreover have "set (take n ys) = set (take n ?zs)" using s(3) by (rule mset_eq_setD)
  ultimately show "set (take n ys) \<subseteq> set (take (Suc n) xs)"
    using set_take_subset_set_take [of n "Suc n" ?zs] by simp
qed

lemma unheap_sorts:
  assumes "heap xs 1 i" "i \<le> length xs" "sorted_wrt (\<lambda>x y. cmp x y \<le> 0) (drop i xs)"
    "\<forall>x \<in> set (take i xs). \<forall>y \<in> set (drop i xs). cmp x y \<le> 0"
  shows "sorted_wrt (\<lambda>x y. cmp x y \<le> 0) (unheap cmp i xs) \<and> mset (unheap cmp i xs) = mset xs"
  using assms
proof (induction i arbitrary: xs)
  case 0
  then show ?case by simp
next
  case (Suc n)
  show ?case
  proof (cases n)
    case 0
    obtain z zs where "xs = z # zs" using Suc.prems(2) by (cases xs) auto
    then show ?thesis using Suc.prems(3,4) 0 by simp
  next
    case (Suc n')
    then have n: "1 \<le> n" by simp
    define ys where "ys = sift cmp n 1 (swap xs 1 (Suc n))"
    note y = unheap_step [OF Suc.prems(1) n Suc.prems(2), folded ys_def]
    have "elt xs 1 \<in> set (take (Suc n) xs)" using Suc.prems(2) by (cases xs) (auto simp: elt_def)
    then have "sorted_wrt (\<lambda>x y. cmp x y \<le> 0) (drop n ys)" using y(3) Suc.prems(3,4) by simp
    moreover have "\<forall>x \<in> set (take n ys). \<forall>y \<in> set (drop n ys). cmp x y \<le> 0"
      using y(3,5) Suc.prems(4) heap_max_set [OF Suc.prems(1,2)] by auto
    ultimately have "sorted_wrt (\<lambda>x y. cmp x y \<le> 0) (unheap cmp n ys) \<and> mset (unheap cmp n ys) = mset ys"
      using y(1,2) Suc.prems(2) by (intro Suc.IH) auto
    moreover have "unheap cmp (Suc n) xs = unheap cmp n ys" using Suc by (simp add: ys_def)
    ultimately show ?thesis using y(4) by simp
  qed
qed

theorem heap_sort_sorts:
  "sorted_wrt (\<lambda>x y. cmp x y \<le> 0) (unheap cmp (length xs) (build_heap cmp (length xs) (length xs div 2) xs))"
  "mset (unheap cmp (length xs) (build_heap cmp (length xs) (length xs div 2) xs)) = mset xs"
proof -
  let ?ys = "build_heap cmp (length xs) (length xs div 2) xs"
  have "heap xs (Suc (length xs div 2)) (length xs)" by (auto simp: heap_def)
  then have "heap ?ys 1 (length xs)" "length ?ys = length xs" "mset ?ys = mset xs"
    using build_heap_ok [of xs "length xs div 2" "length xs"] by auto
  with unheap_sorts [of ?ys "length xs"] show
    "sorted_wrt (\<lambda>x y. cmp x y \<le> 0) (unheap cmp (length xs) ?ys)" "mset (unheap cmp (length xs) ?ys) = mset xs" by auto
qed

end

section \<open>Arrays in memory\<close>

definition elem_addr :: "addr \<Rightarrow> size_t \<Rightarrow> nat \<Rightarrow> addr" where
  "elem_addr array size' k = array + of_nat k * size'"

definition elts :: "bmem \<Rightarrow> addr \<Rightarrow> size_t \<Rightarrow> nat \<Rightarrow> byte list list" where
  "elts m array size' cnt = map (\<lambda>k. bytes m (elem_addr array size' k) (unat size')) [0..<cnt]"

definition arr_ok :: "addr \<Rightarrow> nat \<Rightarrow> size_t \<Rightarrow> bool" where
  "arr_ok array cnt size' \<longleftrightarrow> array \<noteq> 0 \<and> size' \<noteq> 0 \<and> unat array + cnt * unat size' < 2 ^ 32 \<and> cnt < 2 ^ 31"

definition outside :: "addr \<Rightarrow> nat \<Rightarrow> size_t \<Rightarrow> addr \<Rightarrow> bool" where
  "outside array cnt size' p \<longleftrightarrow> (\<forall>k < cnt. \<not> p - elem_addr array size' k < size')"

lemma unat_index: "k < 2 ^ 31 \<Longrightarrow> unat (of_nat k :: u32) = k"
  by (simp add: unat_of_nat take_bit_eq_mod)

lemma length_elts [simp]: "length (elts m array size' cnt) = cnt"
  by (simp add: elts_def)

lemma elt_elts: "1 \<le> k \<Longrightarrow> k \<le> cnt \<Longrightarrow>
  elt (elts m array size' cnt) k = bytes m (elem_addr array size' (k - 1)) (unat size')"
  by (cases k) (simp_all add: elts_def elt_def)

lemma unat_elem_addr:
  assumes "arr_ok array cnt size'" "k \<le> cnt" "unat x + k * unat size' \<le> cnt * unat size'"
  shows "unat (elem_addr array size' k + x) = unat array + k * unat size' + unat x"
proof -
  have k: "unat (of_nat k :: u32) = k" using assms(1,2) by (simp add: arr_ok_def unat_of_nat take_bit_eq_mod)
  have lt: "unat array + (k * unat size' + unat x) < 2 ^ 32" using assms by (simp add: arr_ok_def)
  then have "unat (of_nat k * size') = k * unat size'" by (simp add: unat_word_ariths k)
  then show ?thesis using lt by (simp add: elem_addr_def unat_word_ariths)
qed

lemma unat_in_elem:
  assumes "arr_ok array cnt size'" "k < cnt" "x < size'"
  shows "unat (elem_addr array size' k + x) = unat array + k * unat size' + unat x"
proof (rule unat_elem_addr [OF assms(1)])
  have "unat x + k * unat size' \<le> Suc k * unat size'" using assms(3) by (simp add: word_less_nat_alt)
  also have "\<dots> \<le> cnt * unat size'" using assms(2) by (intro mult_le_mono1) simp
  finally show "unat x + k * unat size' \<le> cnt * unat size'" .
qed (use assms(2) in simp)

lemma elem_sep:
  assumes "arr_ok array cnt size'" "k < cnt" "l < cnt" "p - elem_addr array size' k < size'"
    "p - elem_addr array size' l < size'"
  shows "k = l"
proof -
  have "k * unat size' + unat (p - elem_addr array size' k) = l * unat size' + unat (p - elem_addr array size' l)"
    using unat_in_elem [OF assms(1,2,4)] unat_in_elem [OF assms(1,3,5)] by simp
  moreover have "unat (p - elem_addr array size' j) < unat size'" if "j = k \<or> j = l" for j
    using that assms(4,5) by (auto simp: word_less_nat_alt)
  ultimately show ?thesis
    by (metis div_less div_mult_self3 add.commute add_0 less_nat_zero_code)
qed

lemma inc_le: "i < n \<Longrightarrow> i + 1 \<le> x \<longleftrightarrow> i < x"
  for i n x :: u32
  by (simp add: word_le_nat_alt word_less_nat_alt unat_inc_less Suc_le_eq [symmetric])

lemma do_swap_loop_at:
  assumes "a = b \<or> (\<forall>p. \<not> (p - a < n \<and> p - b < n))" "i \<le> n"
  shows "do_swap_loop a b n i m p =
    (if i \<le> p - a \<and> p - a < n then m (b + (p - a))
     else if i \<le> p - b \<and> p - b < n then m (a + (p - b)) else m p)"
  using assms
proof (induction a b n i m rule: do_swap_loop.induct)
  case (1 a b n i m)
  show ?case
  proof (cases "i < n")
    case False
    then show ?thesis using 1(3) by (subst do_swap_loop.simps) auto
  next
    case True
    let ?m = "m(a + i := m (b + i), b + i := m (a + i))"
    have le: "i + 1 \<le> n" using True by (simp add: inc_le)
    have step: "do_swap_loop a b n i m p = do_swap_loop a b n (i + 1) ?m p"
      using True by (subst do_swap_loop.simps) simp
    note run = step 1(1) [OF True 1(2) le] inc_le [OF True]
    show ?thesis
    proof (cases "a = b")
      case True
      then have "?m = m" by simp
      with True show ?thesis using run by simp
    next
      case False
      have sep: "\<not> (q - a < n \<and> q - b < n)" for q using 1(2) False by blast
      have ai: "a + i \<noteq> b + j" if "j < n" for j
        using sep [of "a + i"] True that by (metis add_diff_cancel_left')
      have bi: "b + i \<noteq> a + j" if "j < n" for j
        using sep [of "b + i"] True that by (metis add_diff_cancel_left')
      have "p = x + i" if "p - x = i" for x using that by (metis add.commute diff_add_cancel)
      then consider "p = a + i" | "p = b + i" | "p - a \<noteq> i" "p - b \<noteq> i" by blast
      then show ?thesis
      proof cases
        case 1
        then have "p - a = i" "\<not> p - b < n" "?m p = m (b + i)" using sep [of p] ai [OF True] True by simp_all
        then show ?thesis using True unfolding run by simp
      next
        case 2
        then have "p - b = i" "\<not> p - a < n" "?m p = m (a + i)" using sep [of p] True by simp_all
        then show ?thesis using True unfolding run by simp
      next
        case 3
        then have "p \<noteq> a + i" "p \<noteq> b + i" by (metis add_diff_cancel_left')+
        then have "?m p = m p" by simp
        moreover have "?m (b + (p - a)) = m (b + (p - a))" if "p - a < n"
          using ai [OF that] 3 by (simp add: eq_commute)
        moreover have "?m (a + (p - b)) = m (a + (p - b))" if "p - b < n"
          using bi [OF that] 3 by (simp add: eq_commute)
        ultimately show ?thesis using 3 unfolding run by (simp add: order_less_le eq_commute)
      qed
    qed
  qed
qed

lemma elem_index: "1 \<le> unat i \<Longrightarrow> array + (i - 1) * size' = elem_addr array size' (unat i - 1)"
proof -
  assume "1 \<le> unat i"
  then have "i \<noteq> 0" by auto
  moreover have "of_nat (unat (i - 1)) = i - 1" by simp
  ultimately have "i - 1 = of_nat (unat i - 1)" using unat_pred [of i] by simp
  then show ?thesis by (simp add: elem_addr_def)
qed

lemma do_swap_at:
  assumes "arr_ok array cnt size'" "1 \<le> unat a" "unat a \<le> cnt" "1 \<le> unat b" "unat b \<le> cnt"
  defines "A \<equiv> elem_addr array size' (unat a - 1)" and "B \<equiv> elem_addr array size' (unat b - 1)"
  shows "do_swap array a b size' m p =
    (if p - A < size' then m (B + (p - A)) else if p - B < size' then m (A + (p - B)) else m p)"
proof -
  have "A = B \<or> (\<forall>p. \<not> (p - A < size' \<and> p - B < size'))"
    using elem_sep [OF assms(1), of "unat a - 1" "unat b - 1"] assms(2-5) unfolding A_def B_def by force
  then show ?thesis
    using assms(2,4) do_swap_loop_at [of A B size' 0 m p] by (simp add: do_swap_def elem_index A_def B_def)
qed

lemma block_offset: "i < unat n \<Longrightarrow> (p + of_nat i - p :: addr) = of_nat i \<and> (of_nat i :: addr) < n"
  using unat_u32_bound [of n] by (simp add: word_less_nat_alt unat_of_nat take_bit_eq_mod)

lemma elts_do_swap:
  assumes "arr_ok array cnt size'" "1 \<le> unat a" "unat a \<le> cnt" "1 \<le> unat b" "unat b \<le> cnt"
  shows "elts (do_swap array a b size' m) array size' cnt = swap (elts m array size' cnt) (unat a) (unat b)"
    "outside array cnt size' p \<Longrightarrow> do_swap array a b size' m p = m p"
proof -
  note at = do_swap_at [OF assms]
  let ?A = "elem_addr array size'"
  have blk: "bytes (do_swap array a b size' m) (?A k) (unat size') =
      bytes m (?A (if k = unat a - 1 then unat b - 1 else if k = unat b - 1 then unat a - 1 else k)) (unat size')"
    if k: "k < cnt" for k
  proof (rule bytes_cong)
    fix i assume i: "i < unat size'"
    note o = block_offset [OF i, of "?A k"]
    have "?A k + of_nat i - ?A l < size' \<longleftrightarrow> l = k" if "l < cnt" for l
      using elem_sep [OF assms(1) that k, of "?A k + of_nat i"] o by auto
    from this [of "unat a - 1"] this [of "unat b - 1"] o assms(2-5)
    show "do_swap array a b size' m (?A k + of_nat i) =
      m (?A (if k = unat a - 1 then unat b - 1 else if k = unat b - 1 then unat a - 1 else k) + of_nat i)"
      unfolding at by auto
  qed
  show "elts (do_swap array a b size' m) array size' cnt = swap (elts m array size' cnt) (unat a) (unat b)"
  proof (rule nth_equalityI)
    fix k assume "k < length (elts (do_swap array a b size' m) array size' cnt)"
    then have k: "k < cnt" by simp
    have "elts (do_swap array a b size' m) array size' cnt ! k =
        bytes m (?A (if k = unat a - 1 then unat b - 1 else if k = unat b - 1 then unat a - 1 else k)) (unat size')"
      using k blk by (simp add: elts_def)
    also have "\<dots> = swap (elts m array size' cnt) (unat a) (unat b) ! k"
      using k assms(2-5) elt_elts [of _ cnt m array size']
      by (simp add: swap_def nth_list_update) (simp add: elts_def)
    finally show "elts (do_swap array a b size' m) array size' cnt ! k = swap (elts m array size' cnt) (unat a) (unat b) ! k" .
  qed simp
  assume "outside array cnt size' p"
  then have "\<not> p - ?A (unat a - 1) < size'" "\<not> p - ?A (unat b - 1) < size'"
    using assms(2-5) by (auto simp: outside_def)
  then show "do_swap array a b size' m p = m p" by (simp add: at)
qed

locale comparator = ordering_function cmp for cmp :: "byte list \<Rightarrow> byte list \<Rightarrow> int" +
  fixes compare :: compare_func and size' :: size_t
  assumes reads: "compare a b m = cmp (bytes m a (unat size')) (bytes m b (unat size'))"
begin

lemma do_compare_elts:
  assumes "1 \<le> unat a" "unat a \<le> cnt" "1 \<le> unat b" "unat b \<le> cnt"
  shows "do_compare array a b size' compare m =
    cmp (elt (elts m array size' cnt) (unat a)) (elt (elts m array size' cnt) (unat b))"
  using assms by (simp add: do_compare_def elem_index reads elt_elts)

lemma heapify_sift:
  assumes "arr_ok array cnt size'" "1 \<le> unat i" "unat i \<le> unat n" "unat n \<le> cnt"
  shows "\<exists>m'. heapify array i n size' compare m = Some m' \<and>
    elts m' array size' cnt = sift cmp (unat n) (unat i) (elts m array size' cnt) \<and>
    (\<forall>p. outside array cnt size' p \<longrightarrow> m' p = m p)"
  using assms
proof (induction "unat n - unat i" arbitrary: i m rule: less_induct)
  case less
  let ?xs = "elts m array size' cnt"
  define mx where "mx = (if 2 * i \<le> n \<and> do_compare array (2 * i) i size' compare m > 0 then 2 * i else i)"
  define b where "b = (if 2 * i + 1 \<le> n \<and> do_compare array (2 * i + 1) mx size' compare m > 0 then 2 * i + 1 else mx)"
  have run: "heapify array i n size' compare m = (if b = i then Some m
      else heapify array b n size' compare (do_swap array i b size' m))"
    unfolding b_def mx_def by (subst heapify.simps) (simp only: Let_def)
  have u: "unat (2 * i) = 2 * unat i" "unat (2 * i + 1) = 2 * unat i + 1"
    using less.prems by (simp_all add: arr_ok_def unat_word_ariths)
  define ux where "ux = (if 2 * unat i \<le> unat n \<and> cmp (elt ?xs (2 * unat i)) (elt ?xs (unat i)) > 0 then 2 * unat i else unat i)"
  have ux: "unat mx = ux" "1 \<le> ux" "ux \<le> unat n"
    using less.prems do_compare_elts [of "2 * i" cnt i array m]
    by (auto simp: mx_def ux_def word_le_nat_alt u split: if_splits)
  have ub: "unat b = biggest cmp ?xs (unat n) (unat i)"
    using less.prems ux do_compare_elts [of "2 * i + 1" cnt mx array m]
    by (auto simp: b_def biggest_def ux_def [symmetric] Let_def word_le_nat_alt u)
  show ?case
  proof (cases "b = i")
    case True
    then show ?thesis using run ub by (subst sift.simps) auto
  next
    case False
    then have nb: "biggest cmp ?xs (unat n) (unat i) \<noteq> unat i" using ub by (simp add: word_unat_eq_iff)
    note bb = biggest_bounds [OF nb, folded ub]
    note sw = elts_do_swap [OF less.prems(1), where a = i and b = b and m = m]
    from less.hyps [of b "do_swap array i b size' m"] bb less.prems obtain m' where
      m': "heapify array b n size' compare (do_swap array i b size' m) = Some m'"
      "elts m' array size' cnt = sift cmp (unat n) (unat b) (elts (do_swap array i b size' m) array size' cnt)"
      "\<forall>p. outside array cnt size' p \<longrightarrow> m' p = do_swap array i b size' m p" by fastforce
    have "elts (do_swap array i b size' m) array size' cnt = swap ?xs (unat i) (unat b)"
      "\<forall>p. outside array cnt size' p \<longrightarrow> do_swap array i b size' m p = m p"
      using sw bb less.prems by auto
    with m' run False nb ub show ?thesis by (subst sift.simps) auto
  qed
qed

lemma build_loop_heap:
  assumes "arr_ok array cnt size'" "unat i \<le> unat n" "unat n \<le> cnt"
  shows "\<exists>m'. build_loop array i n size' compare m = Some m' \<and>
    elts m' array size' cnt = build_heap cmp (unat n) (unat i) (elts m array size' cnt) \<and>
    (\<forall>p. outside array cnt size' p \<longrightarrow> m' p = m p)"
  using assms
proof (induction "unat i" arbitrary: i m)
  case 0
  then have "i = 0" by (simp add: unsigned_eq_0_iff)
  then show ?case by (subst build_loop.simps) simp
next
  case (Suc k)
  then have i: "i \<noteq> 0" by auto
  moreover from this have "unat (i - 1) = k" using unat_pred [of i] Suc.hyps(2) by simp
  ultimately have i: "i \<noteq> 0" "unat (i - 1) = k" by simp_all
  from heapify_sift [OF assms(1), of i n m] Suc.prems Suc.hyps(2) obtain m1 where
    m1: "heapify array i n size' compare m = Some m1"
      "elts m1 array size' cnt = sift cmp (unat n) (Suc k) (elts m array size' cnt)"
      "\<forall>p. outside array cnt size' p \<longrightarrow> m1 p = m p" by auto
  from Suc.hyps(1) [OF i(2) [symmetric] assms(1), of m1] i Suc.prems Suc.hyps(2) obtain m' where
    "build_loop array (i - 1) n size' compare m1 = Some m'"
      "elts m' array size' cnt = build_heap cmp (unat n) k (elts m1 array size' cnt)"
      "\<forall>p. outside array cnt size' p \<longrightarrow> m' p = m1 p" by auto
  with m1 i show ?case unfolding Suc.hyps(2) [symmetric]
    by (subst build_loop.simps) (auto simp: word_gt_0)
qed

lemma sort_loop_unheap:
  assumes "arr_ok array cnt size'" "unat i \<le> cnt"
  shows "\<exists>m'. heap_sort_loop array i size' compare m = Some m' \<and>
    elts m' array size' cnt = unheap cmp (unat i) (elts m array size' cnt) \<and>
    (\<forall>p. outside array cnt size' p \<longrightarrow> m' p = m p)"
  using assms
proof (induction "unat i" arbitrary: i m)
  case 0
  then show ?case by (subst heap_sort_loop.simps) (simp add: word_less_nat_alt)
next
  case (Suc k)
  then have i: "i \<noteq> 0" by auto
  moreover from this have "unat (i - 1) = k" using unat_pred [of i] Suc.hyps(2) by simp
  ultimately have i: "i \<noteq> 0" "unat (i - 1) = k" by simp_all
  show ?case
  proof (cases k)
    case 0
    then have "unat i = 1" using Suc.hyps(2) by simp
    then show ?thesis by (subst heap_sort_loop.simps) (simp add: word_less_nat_alt)
  next
    case (Suc j)
    let ?m = "do_swap array 1 i size' m"
    have sw: "elts ?m array size' cnt = swap (elts m array size' cnt) 1 (Suc k)"
      "\<forall>p. outside array cnt size' p \<longrightarrow> ?m p = m p"
      using elts_do_swap [OF assms(1), where a = 1 and b = i and m = m] Suc.prems Suc.hyps(2) by auto
    from heapify_sift [OF assms(1), of 1 "i - 1" ?m] Suc i Suc.prems Suc.hyps(2) obtain m1 where
      m1: "heapify array 1 (i - 1) size' compare ?m = Some m1"
        "elts m1 array size' cnt = sift cmp k 1 (elts ?m array size' cnt)"
        "\<forall>p. outside array cnt size' p \<longrightarrow> m1 p = ?m p" by auto
    from Suc.hyps(1) [OF i(2) [symmetric] assms(1), of m1] i Suc.prems Suc.hyps(2) obtain m' where
      "heap_sort_loop array (i - 1) size' compare m1 = Some m'"
        "elts m' array size' cnt = unheap cmp k (elts m1 array size' cnt)"
        "\<forall>p. outside array cnt size' p \<longrightarrow> m' p = m1 p" by auto
    moreover have "1 < i" using Suc Suc.hyps(2) by (simp add: word_less_nat_alt)
    ultimately show ?thesis unfolding Suc.hyps(2) [symmetric]
      using m1 sw Suc by (subst heap_sort_loop.simps) simp
  qed
qed

lemma sort_array_sorts:
  assumes "arr_ok array (unat cnt) size'"
  shows "\<exists>m'. sort_array array cnt size' compare m = Some m' \<and>
    sorted_wrt (\<lambda>x y. cmp x y \<le> 0) (elts m' array size' (unat cnt)) \<and>
    mset (elts m' array size' (unat cnt)) = mset (elts m array size' (unat cnt)) \<and>
    (\<forall>p. outside array (unat cnt) size' p \<longrightarrow> m' p = m p)"
proof -
  have "unat (cnt div 2) = unat cnt div 2" by (simp add: unat_div)
  with build_loop_heap [OF assms, of "cnt div 2" cnt m] obtain m1 where
    m1: "build_loop array (cnt div 2) cnt size' compare m = Some m1"
      "elts m1 array size' (unat cnt) = build_heap cmp (unat cnt) (unat cnt div 2) (elts m array size' (unat cnt))"
      "\<forall>p. outside array (unat cnt) size' p \<longrightarrow> m1 p = m p" by auto
  from sort_loop_unheap [OF assms, of cnt m1] obtain m' where
    "heap_sort_loop array cnt size' compare m1 = Some m'"
      "elts m' array size' (unat cnt) = unheap cmp (unat cnt) (elts m1 array size' (unat cnt))"
      "\<forall>p. outside array (unat cnt) size' p \<longrightarrow> m' p = m1 p" by auto
  with m1 heap_sort_sorts [of "elts m array size' (unat cnt)"] assms show ?thesis
    by (auto simp: sort_array_def arr_ok_def word_gt_0)
qed

lemma elem_addr_order:
  assumes "arr_ok array cnt size'" "lo \<le> cnt" "hi \<le> cnt"
  shows "elem_addr array size' lo < elem_addr array size' hi \<longleftrightarrow> lo < hi"
    "lo \<le> hi \<Longrightarrow> (elem_addr array size' hi - elem_addr array size' lo) div size' = of_nat (hi - lo)"
proof -
  have u: "unat (elem_addr array size' k) = unat array + k * unat size'" if "k \<le> cnt" for k
    using unat_elem_addr [OF assms(1) that, of 0] that by simp
  have pos: "0 < unat size'" using assms(1) by (simp add: arr_ok_def unat_gt_0)
  then show lt: "elem_addr array size' lo < elem_addr array size' hi \<longleftrightarrow> lo < hi"
    by (simp add: word_less_nat_alt u assms)
  assume le: "lo \<le> hi"
  then have "unat (elem_addr array size' hi - elem_addr array size' lo) = (hi - lo) * unat size'"
    using assms by (simp add: unat_sub word_le_nat_alt u diff_mult_distrib mult_le_mono1)
  then have "unat ((elem_addr array size' hi - elem_addr array size' lo) div size') = hi - lo"
    using pos by (simp add: unat_div)
  moreover have "unat (of_nat (hi - lo) :: u32) = hi - lo"
    using assms unfolding arr_ok_def by (intro unat_index) linarith
  ultimately show "(elem_addr array size' hi - elem_addr array size' lo) div size' = of_nat (hi - lo)"
    by (simp add: word_unat_eq_iff)
qed

lemma search_loop_finds:
  fixes key :: addr
  assumes ok: "arr_ok array cnt size'" and sorted: "sorted_wrt (\<lambda>x y. cmp x y \<le> 0) (elts m array size' cnt)"
    and range: "lo \<le> hi" "hi \<le> cnt"
  defines "xs \<equiv> elts m array size' cnt" and "k \<equiv> bytes m key (unat size')"
  assumes inv: "\<And>i. i < lo \<Longrightarrow> cmp k (xs ! i) > 0" "\<And>i. hi \<le> i \<Longrightarrow> i < cnt \<Longrightarrow> cmp k (xs ! i) < 0"
  shows "\<exists>p. search_loop key (elem_addr array size' lo) (elem_addr array size' hi) size' compare m = Some p \<and>
    ((\<exists>i < cnt. p = elem_addr array size' i \<and> cmp k (xs ! i) = 0) \<or> p = 0 \<and> (\<forall>i < cnt. cmp k (xs ! i) \<noteq> 0))"
  using range inv
proof (induction "hi - lo" arbitrary: lo hi rule: less_induct)
  case less
  let ?A = "elem_addr array size'"
  note ord = elem_addr_order [OF ok, of lo hi]
  show ?case
  proof (cases "lo < hi")
    case False
    then have "cmp k (xs ! i) \<noteq> 0" if "i < cnt" for i
      using less.prems(1) less.prems(3) [of i] less.prems(4) [of i] that by (cases "i < lo") auto
    then show ?thesis using False ord less.prems by (subst search_loop.simps) auto
  next
    case True
    define mid where "mid = lo + (hi - lo) div 2"
    have mid: "lo \<le> mid" "mid < hi" using True by (auto simp: mid_def)
    have "of_nat (hi - lo) div (2 :: u32) = of_nat ((hi - lo) div 2)"
    proof -
      have "hi - lo < 2 ^ 31" "(hi - lo) div 2 < 2 ^ 31" using less.prems(2) ok unfolding arr_ok_def by linarith+
      then show ?thesis by (simp add: word_unat_eq_iff unat_div unat_index del: unat_of_nat)
    qed
    then have "(?A hi - ?A lo) div size' div 2 = of_nat ((hi - lo) div 2)" using ord(2) less.prems(1,2) by simp
    then have "?A lo + (?A hi - ?A lo) div size' div 2 * size' = ?A mid"
      by (simp only: mid_def) (simp add: elem_addr_def algebra_simps)
    moreover have "compare key (?A mid) m = cmp k (xs ! mid)"
      using mid less.prems(2) by (simp add: reads k_def xs_def elts_def)
    ultimately have run: "search_loop key (?A lo) (?A hi) size' compare m =
        (if cmp k (xs ! mid) < 0 then search_loop key (?A lo) (?A mid) size' compare m
         else if cmp k (xs ! mid) > 0 then search_loop key (?A (Suc mid)) (?A hi) size' compare m
         else Some (?A mid))"
      using True ord(1) less.prems(1,2)
      by (subst search_loop.simps) (simp add: Let_def elem_addr_def algebra_simps)
    have le: "cmp (xs ! i) (xs ! j) \<le> 0" if "i \<le> j" "j < cnt" for i j
      using sorted that refl by (cases "i = j") (auto simp: sorted_wrt_iff_nth_less xs_def)
    consider "cmp k (xs ! mid) < 0" | "cmp k (xs ! mid) > 0" | "cmp k (xs ! mid) = 0" by linarith
    then show ?thesis
    proof cases
      case 1
      have "cmp k (xs ! i) < 0" if "mid \<le> i" "i < cnt" for i
      proof -
        have "\<not> cmp (xs ! i) k \<le> 0" using trans [OF le [OF that], of k] 1 flip [of "xs ! mid" k] by linarith
        then show ?thesis using flip [of "xs ! i" k] by linarith
      qed
      then have "\<exists>p. search_loop key (?A lo) (?A mid) size' compare m = Some p \<and>
          ((\<exists>i < cnt. p = ?A i \<and> cmp k (xs ! i) = 0) \<or> p = 0 \<and> (\<forall>i < cnt. cmp k (xs ! i) \<noteq> 0))"
        using mid less.prems by (intro less.hyps) auto
      with 1 run show ?thesis by simp
    next
      case 2
      have "cmp k (xs ! i) > 0" if "i < Suc mid" for i
      proof (rule ccontr)
        assume "\<not> ?thesis"
        then have "cmp k (xs ! mid) \<le> 0" using trans [of k "xs ! i" "xs ! mid"] le [of i mid] that mid less.prems(2) by auto
        with 2 show False by simp
      qed
      then have "\<exists>p. search_loop key (?A (Suc mid)) (?A hi) size' compare m = Some p \<and>
          ((\<exists>i < cnt. p = ?A i \<and> cmp k (xs ! i) = 0) \<or> p = 0 \<and> (\<forall>i < cnt. cmp k (xs ! i) \<noteq> 0))"
        using mid less.prems by (intro less.hyps) auto
      with 2 run show ?thesis by simp
    next
      case 3
      then show ?thesis using run mid less.prems(2) by auto
    qed
  qed
qed

end

definition bytes_order :: "byte list \<Rightarrow> byte list \<Rightarrow> int" where
  "bytes_order xs ys = (if length xs = length ys then cmp_bytes xs ys else int (length xs) - int (length ys))"

lemma cmp_bytes_flip: "cmp_bytes ys xs = - cmp_bytes xs ys"
  by (induction xs ys rule: cmp_bytes.induct) auto

lemma cmp_bytes_trans:
  "length xs = length ys \<Longrightarrow> length ys = length zs \<Longrightarrow> cmp_bytes xs ys \<le> 0 \<Longrightarrow> cmp_bytes ys zs \<le> 0 \<Longrightarrow> cmp_bytes xs zs \<le> 0"
  by (induction xs ys zs rule: list_induct3) (auto split: if_splits)

interpretation mc: comparator bytes_order "\<lambda>a b m. memcmp_loop a b n m" n for n :: size_t
proof unfold_locales
  show "bytes_order x y > 0 \<longleftrightarrow> bytes_order y x < 0" for x y
    using cmp_bytes_flip [of x y] by (simp add: bytes_order_def)
  show "bytes_order x z \<le> 0" if "bytes_order x y \<le> 0" "bytes_order y z \<le> 0" for x y z
    using that cmp_bytes_trans [of x y z] by (auto simp: bytes_order_def split: if_splits)
  show "memcmp_loop a b n m = bytes_order (bytes m a (unat n)) (bytes m b (unat n))" for a b m
    by (simp add: memcmp_loop_bytes bytes_order_def)
qed

section \<open>Properties\<close>

text \<open>
  C32. \<open>qsort\<close> with a comparison function that is a total preorder on the elements always returns,
  and leaves the array sorted, with the same elements, and every byte outside the array as it was.\<close>

theorem qsort_sorts:
  assumes "comparator cmp compare size'" "arr_ok array (unat cnt) size'"
  shows "\<exists>m'. qsort array cnt size' compare m = Some m' \<and>
    sorted_wrt (\<lambda>x y. cmp x y \<le> 0) (elts m' array size' (unat cnt)) \<and>
    mset (elts m' array size' (unat cnt)) = mset (elts m array size' (unat cnt)) \<and>
    (\<forall>p. outside array (unat cnt) size' p \<longrightarrow> m' p = m p)"
  using comparator.sort_array_sorts [OF assms, of m] by (simp add: qsort_def compare_thunk_def [abs_def])

text \<open>An array of four bytes, sorted and searched with \<open>memcmp\<close>.\<close>

definition demo_bytes :: bmem where
  "demo_bytes = (\<lambda>_. 0)(0x1000 := 7, 0x1001 := 3, 0x1002 := 9, 0x1003 := 3, 0x2000 := 3)"

lemma demo_arr_ok: "arr_ok 0x1000 (unat (4 :: u32)) 1"
  by (simp add: arr_ok_def)

theorem qsort_sorts_witness:
  "\<exists>m'. qsort 0x1000 4 1 (\<lambda>a b m. memcmp_loop a b 1 m) demo_bytes = Some m' \<and>
    mset (elts m' 0x1000 1 4) = {# [3], [3], [7], [9] #}"
proof -
  have "mset (elts demo_bytes 0x1000 1 4) = {# [3], [3], [7], [9] #}"
    by (simp add: elts_def elem_addr_def demo_bytes_def upt_rec)
  with qsort_sorts [OF mc.comparator_axioms demo_arr_ok, of demo_bytes] show ?thesis by auto
qed

text \<open>
  C33. \<open>bsearch\<close> in a sorted array returns the address of an element equal to the key when there is
  one, and the null pointer when there is none.\<close>

theorem bsearch_finds:
  assumes "comparator cmp compare size'" "arr_ok array (unat cnt) size'"
    "sorted_wrt (\<lambda>x y. cmp x y \<le> 0) (elts m array size' (unat cnt))"
  shows "\<exists>p. bsearch key array cnt size' compare m = Some p \<and>
    ((\<exists>i < unat cnt. p = elem_addr array size' i \<and> cmp (bytes m key (unat size')) (elts m array size' (unat cnt) ! i) = 0) \<or>
     p = 0 \<and> (\<forall>i < unat cnt. cmp (bytes m key (unat size')) (elts m array size' (unat cnt) ! i) \<noteq> 0))"
proof -
  have "elem_addr array size' 0 = array" "elem_addr array size' (unat cnt) = array + size' * cnt"
    by (simp_all add: elem_addr_def mult.commute)
  with comparator.search_loop_finds [OF assms, of 0 "unat cnt" key] show ?thesis
    by (simp add: bsearch_def binary_search_def compare_thunk_def [abs_def])
qed

theorem bsearch_finds_witness:
  "\<exists>m' p. qsort 0x1000 4 1 (\<lambda>a b m. memcmp_loop a b 1 m) demo_bytes = Some m' \<and>
    bsearch 0x2000 0x1000 4 1 (\<lambda>a b m. memcmp_loop a b 1 m) m' = Some p"
proof -
  obtain m' where m': "qsort 0x1000 4 1 (\<lambda>a b m. memcmp_loop a b 1 m) demo_bytes = Some m'"
    "sorted_wrt (\<lambda>x y. bytes_order x y \<le> 0) (elts m' 0x1000 1 (unat (4 :: u32)))"
    using mc.sort_array_sorts [OF demo_arr_ok, of demo_bytes] by (auto simp: qsort_def compare_thunk_def [abs_def])
  from bsearch_finds [OF mc.comparator_axioms demo_arr_ok m'(2), of "0x2000"] m'(1) show ?thesis by blast
qed

end
