(* ===== verification/Stdio.thy ===== *)
theory Stdio
  imports Strings
begin

text \<open>
  Formatted output (\<open>lib/stdio.c\<close>) and \<open>atoi\<close> (\<open>lib/stdlib.c\<close>).

  A format is the list of its characters; the end of the list is the terminating null character,
  and a read beyond it is undefined (\<open>None\<close>).  The variable arguments are the stack slots of the
  caller, 32-bit words in order; a 64-bit argument takes two.  The output function and its auxiliary
  data are a function \<open>output\<close> on a state of any type, from which \<open>peek\<close> reads the memory that holds
  string arguments.  A \<open>char\<close> is a byte; \<open>int\<close> values are 32-bit words compared as signed numbers,
  and \<open>intmax_t\<close> is a 64-bit word.
\<close>

section \<open>Definitions\<close>

definition chr :: "char \<Rightarrow> byte" where
  "chr c = of_char c"

definition str :: "string \<Rightarrow> byte list" where
  "str s = map chr s"

definition isdigit :: "byte \<Rightarrow> bool" where
  "isdigit c \<longleftrightarrow> chr CHR ''0'' \<le> c \<and> c \<le> chr CHR ''9''"

definition isspace :: "byte \<Rightarrow> bool" where
  "isspace c \<longleftrightarrow> c = chr CHR '' '' \<or> c = 12 \<or> c = 10 \<or> c = 13 \<or> c = 9 \<or> c = 11"

definition isprint :: "byte \<Rightarrow> bool" where
  "isprint c \<longleftrightarrow> 32 \<le> c \<and> c < 127"

subsection \<open>Conversions\<close>

definition MINUS :: u32 where "MINUS = 1"
definition PLUS :: u32 where "PLUS = 2"
definition SPACE :: u32 where "SPACE = 4"
definition POUND :: u32 where "POUND = 8"
definition ZERO :: u32 where "ZERO = 16"
definition GROUP :: u32 where "GROUP = 32"

datatype conv_type = CHAR' | SHORT | INT' | INTMAX | LONG | LONGLONG | PTRDIFFT | SIZET

record printf_conversion =
  flags :: u32
  width :: u32
  precision :: u32
  type_of :: conv_type

record integer_base =
  ib_base :: u64
  ib_digits :: "byte list"
  ib_x :: byte
  ib_group :: nat

definition base_d :: integer_base where
  "base_d = \<lparr>ib_base = 10, ib_digits = str ''0123456789'', ib_x = 0, ib_group = 3\<rparr>"

definition base_o :: integer_base where
  "base_o = \<lparr>ib_base = 8, ib_digits = str ''01234567'', ib_x = 0, ib_group = 3\<rparr>"

definition base_x :: integer_base where
  "base_x = \<lparr>ib_base = 16, ib_digits = str ''0123456789abcdef'', ib_x = chr CHR ''x'', ib_group = 4\<rparr>"

definition base_X :: integer_base where
  "base_X = \<lparr>ib_base = 16, ib_digits = str ''0123456789ABCDEF'', ib_x = chr CHR ''X'', ib_group = 4\<rparr>"

fun va_arg :: "u32 list \<Rightarrow> (u32 \<times> u32 list) option" where
  "va_arg (a # args) = Some (a, args)"
| "va_arg [] = None"

fun va_arg64 :: "u32 list \<Rightarrow> (u64 \<times> u32 list) option" where
  "va_arg64 (a # b # args) = Some (push_bit 32 (ucast b) OR ucast a, args)"
| "va_arg64 _ = None"

subsection \<open>Parsing a conversion\<close>

fun parse_flags :: "byte list \<Rightarrow> u32 \<Rightarrow> byte list \<times> u32" where
  "parse_flags (x # xs) fl =
     (if x = chr CHR ''-'' then parse_flags xs (fl OR MINUS)
      else if x = chr CHR ''+'' then parse_flags xs (fl OR PLUS)
      else if x = chr CHR '' '' then parse_flags xs (fl OR SPACE)
      else if x = chr CHR ''#'' then parse_flags xs (fl OR POUND)
      else if x = chr CHR ''0'' then parse_flags xs (fl OR ZERO)
      else if x = 39 then parse_flags xs (fl OR GROUP)
      else (x # xs, fl))"
| "parse_flags [] fl = ([], fl)"

fun parse_number :: "byte list \<Rightarrow> u32 \<Rightarrow> byte list \<times> u32" where
  "parse_number (x # xs) n =
     (if isdigit x then parse_number xs (n * 10 + ucast x - ucast (chr CHR ''0'')) else (x # xs, n))"
| "parse_number [] n = ([], n)"

definition starts :: "char \<Rightarrow> byte list \<Rightarrow> bool" where
  "starts c xs \<longleftrightarrow> xs \<noteq> [] \<and> hd xs = chr c"

definition parse_width :: "byte list \<Rightarrow> u32 list \<Rightarrow> (byte list \<times> u32 \<times> u32 list) option" where
  "parse_width format args =
     (if starts CHR ''*'' format
      then do {
        (w, args) \<leftarrow> va_arg args;
        Some (tl format, w, args)
      }
      else let (format, w) = parse_number format 0 in Some (format, w, args))"

definition parse_precision :: "byte list \<Rightarrow> u32 list \<Rightarrow> (byte list \<times> u32 \<times> u32 list) option" where
  "parse_precision format args =
     (if starts CHR ''.'' format
      then do {
        let format = tl format;
        (format, p, args) \<leftarrow> (if starts CHR ''*'' format
          then do {
            (p, args) \<leftarrow> va_arg args;
            Some (tl format, p, args)
          }
          else let (format, p) = parse_number format 0 in Some (format, p, args));
        Some (format, if p <s 0 then - 1 else p, args)
      }
      else Some (format, - 1, args))"

definition parse_type :: "byte list \<Rightarrow> byte list \<times> conv_type" where
  "parse_type format =
     (if starts CHR ''h'' format
      then if starts CHR ''h'' (tl format) then (tl (tl format), CHAR') else (tl format, SHORT)
      else if starts CHR ''j'' format then (tl format, INTMAX)
      else if starts CHR ''l'' format
      then if starts CHR ''l'' (tl format) then (tl (tl format), LONGLONG) else (tl format, LONG)
      else if starts CHR ''t'' format then (tl format, PTRDIFFT)
      else if starts CHR ''z'' format then (tl format, SIZET)
      else (format, INT'))"

definition parse_conversion ::
  "byte list \<Rightarrow> u32 list \<Rightarrow> (byte list \<times> printf_conversion \<times> u32 list) option" where
  "parse_conversion format args = do {
     let (format, fl) = parse_flags format 0;
     let fl = (if fl AND MINUS \<noteq> 0 then fl AND NOT ZERO else fl);
     let fl = (if fl AND PLUS \<noteq> 0 then fl AND NOT SPACE else fl);
     (format, w, args) \<leftarrow> parse_width format args;
     let (w, fl) = (if w <s 0 then (- w, fl OR MINUS) else (w, fl));
     (format, p, args) \<leftarrow> parse_precision format args;
     let fl = (if 0 \<le>s p then fl AND NOT ZERO else fl);
     let (format, t) = parse_type format;
     Some (format, \<lparr>flags = fl, width = w, precision = p, type_of = t\<rparr>, args)
   }"

subsection \<open>Output\<close>

function output_dup :: "byte \<Rightarrow> size_t \<Rightarrow> (byte \<Rightarrow> 's \<Rightarrow> 's) \<Rightarrow> 's \<Rightarrow> 's" where
  "output_dup c cnt output aux = (if cnt > 0 then output_dup c (cnt - 1) output (output c aux) else aux)"
  by pat_completeness auto
termination by (relation "measure (\<lambda>(_, cnt, _). unat cnt)") (auto simp: count_down_measure)

declare output_dup.simps [simp del]

definition buf_put :: "byte list \<Rightarrow> byte \<Rightarrow> byte list option" where
  "buf_put buf c = (if length buf < 64 then Some (buf @ [c]) else None)"

lemma buf_put_Some [simp]: "buf_put buf c = Some buf' \<longleftrightarrow> length buf < 64 \<and> buf' = buf @ [c]"
  by (auto simp: buf_put_def)

function digit_loop :: "integer_base \<Rightarrow> u32 \<Rightarrow> u64 \<Rightarrow> byte list \<Rightarrow> nat \<Rightarrow> byte list option" where
  "digit_loop b fl v buf digit_cnt =
     (if v > 0
      then do {
        buf \<leftarrow> (if fl AND GROUP \<noteq> 0 \<and> digit_cnt > 0 \<and> digit_cnt mod ib_group b = 0
          then buf_put buf (chr CHR '','') else Some buf);
        d \<leftarrow> arr_get (ib_digits b) (unat (v mod ib_base b));
        buf' \<leftarrow> buf_put buf d;
        digit_loop b fl (v div ib_base b) buf' (digit_cnt + 1)
      }
      else Some buf)"
  by pat_completeness auto
termination
  by (relation "measure (\<lambda>(_, _, _, buf, _). 64 - length buf)") (auto split: if_splits)

function zero_loop :: "u32 \<Rightarrow> byte list \<Rightarrow> byte list" where
  "zero_loop p buf =
     (if int (length buf) < sint p \<and> length buf < 63 then zero_loop p (buf @ [chr CHR ''0'']) else buf)"
  by pat_completeness auto
termination by (relation "measure (\<lambda>(_, buf). 63 - length buf)") auto

declare digit_loop.simps [simp del] zero_loop.simps [simp del]

definition sign_char :: "u32 \<Rightarrow> bool \<Rightarrow> bool \<Rightarrow> byte" where
  "sign_char fl is_signed negative =
     (if is_signed
      then if fl AND PLUS \<noteq> 0 then if negative then chr CHR ''-'' else chr CHR ''+''
           else if fl AND SPACE \<noteq> 0 then if negative then chr CHR ''-'' else chr CHR '' ''
           else if negative then chr CHR ''-'' else 0
      else 0)"

definition integer_buf :: "u64 \<Rightarrow> integer_base \<Rightarrow> printf_conversion \<Rightarrow> byte list option" where
  "integer_buf v b c = do {
     buf \<leftarrow> digit_loop b (flags c) v [] 0;
     let buf = zero_loop (if precision c <s 0 then 1 else precision c) buf;
     if flags c AND POUND \<noteq> 0 \<and> ib_base b = 8 \<and> (buf = [] \<or> last buf \<noteq> chr CHR ''0'')
     then buf_put buf (chr CHR ''0'') else Some buf
   }"

definition format_integer ::
  "u64 \<Rightarrow> bool \<Rightarrow> bool \<Rightarrow> integer_base \<Rightarrow> printf_conversion \<Rightarrow> (byte \<Rightarrow> 's \<Rightarrow> 's) \<Rightarrow> 's \<Rightarrow> 's option" where
  "format_integer v is_signed negative b c output aux = do {
     let sgn' = sign_char (flags c) is_signed negative;
     let x = (if flags c AND POUND \<noteq> 0 \<and> v \<noteq> 0 then ib_x b else 0);
     buf \<leftarrow> integer_buf v b c;
     let pad_cnt = width c - of_nat (length buf) - (if x \<noteq> 0 then 2 else 0) - (if sgn' \<noteq> 0 then 1 else 0);
     let pad_cnt = (if pad_cnt <s 0 then 0 else pad_cnt);
     let aux = (if flags c AND (MINUS OR ZERO) = 0 then output_dup (chr CHR '' '') pad_cnt output aux else aux);
     let aux = (if sgn' \<noteq> 0 then output sgn' aux else aux);
     let aux = (if x \<noteq> 0 then output x (output (chr CHR ''0'') aux) else aux);
     let aux = (if flags c AND ZERO \<noteq> 0 then output_dup (chr CHR ''0'') pad_cnt output aux else aux);
     let aux = fold output (rev buf) aux;
     Some (if flags c AND MINUS \<noteq> 0 then output_dup (chr CHR '' '') pad_cnt output aux else aux)
   }"

definition format_string ::
  "('s \<Rightarrow> nat \<Rightarrow> byte) \<Rightarrow> u32 \<Rightarrow> printf_conversion \<Rightarrow> (byte \<Rightarrow> 's \<Rightarrow> 's) \<Rightarrow> 's \<Rightarrow> 's" where
  "format_string string' len c output aux =
     (let aux = (if len <s width c \<and> flags c AND MINUS = 0
            then output_dup (chr CHR '' '') (width c - len) output aux else aux);
          aux = fold (\<lambda>i aux. output (string' aux i) aux) [0..<nat (sint len)] aux
      in if len <s width c \<and> flags c AND MINUS \<noteq> 0
         then output_dup (chr CHR '' '') (width c - len) output aux else aux)"

subsection \<open>Formatted output\<close>

definition signed_arg :: "conv_type \<Rightarrow> u32 list \<Rightarrow> (u64 \<times> u32 list) option" where
  "signed_arg t args =
     (case t of
        CHAR' \<Rightarrow> map_option (\<lambda>(a, args). (scast (ucast a :: byte), args)) (va_arg args)
      | SHORT \<Rightarrow> map_option (\<lambda>(a, args). (scast (ucast a :: u16), args)) (va_arg args)
      | INT' \<Rightarrow> map_option (\<lambda>(a, args). (scast a, args)) (va_arg args)
      | INTMAX \<Rightarrow> va_arg64 args
      | LONG \<Rightarrow> map_option (\<lambda>(a, args). (scast a, args)) (va_arg args)
      | LONGLONG \<Rightarrow> va_arg64 args
      | PTRDIFFT \<Rightarrow> map_option (\<lambda>(a, args). (scast a, args)) (va_arg args)
      | SIZET \<Rightarrow> map_option (\<lambda>(a, args).
          (let v = ucast a :: u64 in if 0x7fffffff <s v then v - 0xffffffff - 1 else v, args)) (va_arg args))"

definition unsigned_arg :: "conv_type \<Rightarrow> u32 list \<Rightarrow> (u64 \<times> u32 list) option" where
  "unsigned_arg t args =
     (case t of
        CHAR' \<Rightarrow> map_option (\<lambda>(a, args). (ucast (ucast a :: byte), args)) (va_arg args)
      | SHORT \<Rightarrow> map_option (\<lambda>(a, args). (ucast (ucast a :: u16), args)) (va_arg args)
      | INT' \<Rightarrow> map_option (\<lambda>(a, args). (ucast a, args)) (va_arg args)
      | INTMAX \<Rightarrow> va_arg64 args
      | LONG \<Rightarrow> map_option (\<lambda>(a, args). (ucast a, args)) (va_arg args)
      | LONGLONG \<Rightarrow> va_arg64 args
      | PTRDIFFT \<Rightarrow> map_option (\<lambda>(a, args). (scast a AND 0xffffffff, args)) (va_arg args)
      | SIZET \<Rightarrow> map_option (\<lambda>(a, args). (ucast a, args)) (va_arg args))"

definition conv_base :: "byte \<Rightarrow> integer_base" where
  "conv_base k =
     (if k = chr CHR ''o'' then base_o else if k = chr CHR ''u'' then base_d
      else if k = chr CHR ''x'' then base_x else base_X)"

definition null_string :: "byte list" where
  "null_string = str ''(null)''"

definition convert ::
  "('s \<Rightarrow> bmem) \<Rightarrow> (byte \<Rightarrow> 's \<Rightarrow> 's) \<Rightarrow> byte \<Rightarrow> printf_conversion \<Rightarrow> u32 list \<Rightarrow> 's \<Rightarrow>
    (u32 list \<times> 's) option" where
  "convert peek output k c args aux =
     (if k \<in> set (str ''di'')
      then do {
        (v, args) \<leftarrow> signed_arg (type_of c) args;
        aux \<leftarrow> format_integer (if v <s 0 then - v else v) True (v <s 0) base_d c output aux;
        Some (args, aux)
      }
      else if k \<in> set (str ''ouxX'')
      then do {
        (v, args) \<leftarrow> unsigned_arg (type_of c) args;
        aux \<leftarrow> format_integer v False False (conv_base k) c output aux;
        Some (args, aux)
      }
      else if k = chr CHR ''c''
      then do {
        (a, args) \<leftarrow> va_arg args;
        Some (args, format_string (\<lambda>_ _. ucast a) 1 c output aux)
      }
      else if k = chr CHR ''s''
      then do {
        (s, args) \<leftarrow> va_arg args;
        Some (args,
          if s = 0
          then format_string (\<lambda>_ i. null_string ! i) (if precision c < 6 then precision c else 6) c output aux
          else format_string (\<lambda>aux i. peek aux (s + of_nat i)) (strnlen s (precision c) (peek aux)) c output aux)
      }
      else do {
        (p, args) \<leftarrow> va_arg args;
        let c = c\<lparr>flags := POUND\<rparr>;
        aux \<leftarrow> format_integer (ucast p) False False base_x c output aux;
        Some (args, aux)
      })"

definition unsupported :: "byte \<Rightarrow> byte list" where
  "unsupported k =
     (if k \<in> set (str ''feEgGn'') then str ''<<no %%%c in kernel>>'' else str ''<<no %%%c conversion>>'')"

partial_function (option) v_printf ::
  "('s \<Rightarrow> bmem) \<Rightarrow> (byte \<Rightarrow> 's \<Rightarrow> 's) \<Rightarrow> byte list \<Rightarrow> u32 list \<Rightarrow> 's \<Rightarrow> 's option" where
  "v_printf peek output format args aux =
     (if format = [] then Some aux
      else if hd format \<noteq> chr CHR ''%'' then v_printf peek output (tl format) args (output (hd format) aux)
      else if starts CHR ''%'' (tl format)
      then v_printf peek output (tl (tl format)) args (output (chr CHR ''%'') aux)
      else do {
        (format, c, args) \<leftarrow> parse_conversion (tl format) args;
        if format = [] then None
        else if hd format \<in> set (str ''diouxXcsp'')
        then do {
          (args, aux) \<leftarrow> convert peek output (hd format) c args aux;
          v_printf peek output (tl format) args aux
        }
        else do {
          aux \<leftarrow> v_printf peek output (unsupported (hd format)) [scast (hd format)] aux;
          v_printf peek output (tl format) args aux
        }
      })"

record vsnprintf_aux =
  out_p :: addr
  out_length :: u32
  max_length :: u32

fun vsnprintf_helper :: "byte \<Rightarrow> vsnprintf_aux \<times> bmem \<Rightarrow> vsnprintf_aux \<times> bmem" where
  "vsnprintf_helper c (aux, m) =
     (if out_length aux <s max_length aux
      then (aux\<lparr>out_p := out_p aux + 1, out_length := out_length aux + 1\<rparr>, m(out_p aux := c))
      else (aux\<lparr>out_length := out_length aux + 1\<rparr>, m))"

definition vsnprintf :: "addr \<Rightarrow> size_t \<Rightarrow> byte list \<Rightarrow> u32 list \<Rightarrow> bmem \<Rightarrow> (u32 \<times> bmem) option" where
  "vsnprintf buffer buf_size format args m = do {
     (aux, m) \<leftarrow> v_printf snd vsnprintf_helper format args
       (\<lparr>out_p = buffer, out_length = 0, max_length = if buf_size > 0 then buf_size - 1 else 0\<rparr>, m);
     let m = (if buf_size > 0 then m(out_p aux := 0) else m);
     Some (out_length aux, m)
   }"

definition snprintf :: "addr \<Rightarrow> size_t \<Rightarrow> byte list \<Rightarrow> u32 list \<Rightarrow> bmem \<Rightarrow> (u32 \<times> bmem) option" where
  "snprintf buffer buf_size format args m = vsnprintf buffer buf_size format args m"

text \<open>Output to the console is the list of the characters written.\<close>

definition console_printf :: "bmem \<Rightarrow> byte list \<Rightarrow> u32 list \<Rightarrow> byte list \<Rightarrow> byte list option" where
  "console_printf m format args out = v_printf (\<lambda>_. m) (\<lambda>c out. out @ [c]) format args out"

definition hex_line :: "u32 \<Rightarrow> addr \<Rightarrow> nat \<Rightarrow> nat \<Rightarrow> bool \<Rightarrow> bmem \<Rightarrow> byte list \<Rightarrow> byte list option" where
  "hex_line ofs buf start end' ascii m out = do {
     out \<leftarrow> console_printf m (str ''%08jx  '') [ofs div 16 * 16, 0] out;
     out \<leftarrow> fold_opt (\<lambda>_. console_printf m (str ''   '') []) [0..<start] out;
     out \<leftarrow> fold_opt (\<lambda>i. console_printf m (str ''%02hhx%c'')
         [ucast (m (buf + of_nat (i - start))), ucast (if i = 7 then chr CHR ''-'' else chr CHR '' '')])
       [start..<end'] out;
     out \<leftarrow> (if ascii
       then do {
         out \<leftarrow> fold_opt (\<lambda>_. console_printf m (str ''   '') []) [end'..<16] out;
         out \<leftarrow> console_printf m (str ''|'') [] out;
         out \<leftarrow> fold_opt (\<lambda>_. console_printf m (str '' '') []) [0..<start] out;
         out \<leftarrow> fold_opt (\<lambda>i. let b = m (buf + of_nat (i - start)) in
             console_printf m (str ''%c'') [ucast (if isprint b then b else chr CHR ''.'')])
           [start..<end'] out;
         out \<leftarrow> fold_opt (\<lambda>_. console_printf m (str '' '') []) [end'..<16] out;
         console_printf m (str ''|'') [] out
       }
       else Some out);
     console_printf m [10] [] out
   }"

function hex_dump :: "u32 \<Rightarrow> addr \<Rightarrow> size_t \<Rightarrow> bool \<Rightarrow> bmem \<Rightarrow> byte list \<Rightarrow> byte list option" where
  "hex_dump ofs buf size' ascii m out =
     (if size' > 0
      then do {
        let start = ofs mod 16;
        let end' = (if 16 - start > size' then start + size' else 16);
        let n = end' - start;
        out \<leftarrow> hex_line ofs buf (unat start) (unat end') ascii m out;
        hex_dump (ofs + n) (buf + n) (size' - n) ascii m out
      }
      else Some out)"
  by pat_completeness auto
termination
proof (relation "measure (\<lambda>(_, _, n, _). unat n)", goal_cases)
  case (2 ofs buf size' ascii m out start end' n out')
  have "unat start < 16" using 2(2) by (simp add: unat_mod)
  then have u: "unat (16 - start) = 16 - unat start" by (subst unat_sub) (simp_all add: word_le_nat_alt)
  have n: "n = (if 16 - start > size' then size' else 16 - start)" using 2(3,4) by auto
  have "0 < unat n" "n \<le> size'" using 2(1) u \<open>unat start < 16\<close> by (auto simp: n word_less_nat_alt word_le_nat_alt)
  then show ?case using 2(1) by (simp add: unat_sub word_less_nat_alt word_le_nat_alt)
qed simp

declare hex_dump.simps [simp del]

subsection \<open>Parsing an integer\<close>

partial_function (option) atoi_skip :: "addr \<Rightarrow> bmem \<Rightarrow> addr option" where
  "atoi_skip s m = (if isspace (m s) then atoi_skip (s + 1) m else Some s)"

partial_function (option) atoi_digits :: "addr \<Rightarrow> u32 \<Rightarrow> bmem \<Rightarrow> u32 option" where
  "atoi_digits s v m =
     (if isdigit (m s) then atoi_digits (s + 1) (v * 10 - (ucast (m s) - ucast (chr CHR ''0''))) m else Some v)"

definition atoi :: "addr \<Rightarrow> bmem \<Rightarrow> u32 option" where
  "atoi s m = do {
     ASSERT (s \<noteq> 0);
     s \<leftarrow> atoi_skip s m;
     let (negative, s) = (if m s = chr CHR ''+'' then (False, s + 1)
       else if m s = chr CHR ''-'' then (True, s + 1) else (False, s));
     v \<leftarrow> atoi_digits s 0 m;
     Some (if negative then v else - v)
   }"

section \<open>Output as a list of characters\<close>

text \<open>
  Everything that reaches the output function is a list of characters that does not depend on the
  state, as long as the output leaves the string arguments as they are.
\<close>

lemma output_dup_fold: "output_dup c cnt output aux = fold output (replicate (unat cnt) c) aux"
proof (induction c cnt "output" aux rule: output_dup.induct)
  case (1 c cnt "output" aux)
  show ?case
  proof (cases "cnt = 0")
    case False
    then have "unat cnt = Suc (unat (cnt - 1))" using unat_gt_0 [of cnt] by (simp add: unat_pred)
    then show ?thesis using 1 False by (subst output_dup.simps) (simp add: word_gt_0)
  qed (subst output_dup.simps, simp)
qed

definition integer_chars :: "u64 \<Rightarrow> bool \<Rightarrow> bool \<Rightarrow> integer_base \<Rightarrow> printf_conversion \<Rightarrow> byte list option" where
  "integer_chars v is_signed negative b c = do {
     let sgn' = sign_char (flags c) is_signed negative;
     let x = (if flags c AND POUND \<noteq> 0 \<and> v \<noteq> 0 then ib_x b else 0);
     buf \<leftarrow> integer_buf v b c;
     let pad_cnt = width c - of_nat (length buf) - (if x \<noteq> 0 then 2 else 0) - (if sgn' \<noteq> 0 then 1 else 0);
     let pad_cnt = unat (if pad_cnt <s 0 then 0 else pad_cnt);
     Some ((if flags c AND (MINUS OR ZERO) = 0 then replicate pad_cnt (chr CHR '' '') else []) @
       (if sgn' \<noteq> 0 then [sgn'] else []) @ (if x \<noteq> 0 then [chr CHR ''0'', x] else []) @
       (if flags c AND ZERO \<noteq> 0 then replicate pad_cnt (chr CHR ''0'') else []) @ rev buf @
       (if flags c AND MINUS \<noteq> 0 then replicate pad_cnt (chr CHR '' '') else []))
   }"

lemma fold_snoc [simp]: "fold (\<lambda>x xs. xs @ [x]) ys zs = zs @ ys"
  by (induction ys arbitrary: zs) auto

lemma fold_if: "fold f (if P then xs else []) s = (if P then fold f xs s else s)"
  by simp

lemma format_integer_fold:
  "format_integer v is_signed negative b c out aux =
   map_option (\<lambda>cs. fold out cs aux) (integer_chars v is_signed negative b c)"
  by (cases "integer_buf v b c")
    (simp_all add: integer_chars_def format_integer_def output_dup_fold Let_def fold_if
      del: fold_replicate split del: if_split cong: if_cong)

definition string_chars :: "byte list \<Rightarrow> printf_conversion \<Rightarrow> byte list" where
  "string_chars xs c =
     (let len = of_nat (length xs);
          pad = (if len <s width c then replicate (unat (width c - len)) (chr CHR '' '') else [])
      in if flags c AND MINUS = 0 then pad @ xs else xs @ pad)"

lemma format_string_fold:
  assumes "\<And>aux i. i < length xs \<Longrightarrow> string' aux i = xs ! i" "length xs < 2 ^ 31"
  shows "format_string string' (of_nat (length xs)) c output aux = fold output (string_chars xs c) aux"
proof -
  have n: "nat (sint (of_nat (length xs) :: u32)) = length xs"
    using assms(2) by (simp add: signed_of_nat signed_take_bit_int_eq_self)
  have "fold (\<lambda>i aux. output (string' aux i) aux) is aux = fold output (map ((!) xs) is) aux"
    if "set is \<subseteq> {..<length xs}" for "is" aux
    using that by (induction "is" arbitrary: aux) (auto simp: assms(1))
  from this [of "[0..<length xs]"] have
    "fold (\<lambda>i aux. output (string' aux i) aux) [0..<length xs] aux = fold output xs aux" for aux
    by (simp add: map_nth lessThan_atLeast0)
  then show ?thesis by (simp add: format_string_def n string_chars_def output_dup_fold Let_def)
qed

lemma v_printf_Nil [simp]: "v_printf peek out [] args aux = Some aux"
  by (subst v_printf.simps) simp

lemma v_printf_char: "x \<noteq> chr CHR ''%'' \<Longrightarrow> v_printf peek out (x # xs) args aux = v_printf peek out xs args (out x aux)"
  by (subst v_printf.simps) simp

lemma v_printf_percent:
  "v_printf peek out (chr CHR ''%'' # chr CHR ''%'' # xs) args aux = v_printf peek out xs args (out (chr CHR ''%'') aux)"
  by (subst v_printf.simps) (simp add: starts_def)

lemma v_printf_conv:
  "\<not> starts CHR ''%'' xs \<Longrightarrow> v_printf peek out (chr CHR ''%'' # xs) args aux = do {
     (format, c, args) \<leftarrow> parse_conversion xs args;
     if format = [] then None
     else if hd format \<in> set (str ''diouxXcsp'')
     then do {
       (args, aux) \<leftarrow> convert peek out (hd format) c args aux;
       v_printf peek out (tl format) args aux
     }
     else do {
       aux \<leftarrow> v_printf peek out (unsupported (hd format)) [scast (hd format)] aux;
       v_printf peek out (tl format) args aux
     }
   }"
  by (subst v_printf.simps) simp

lemma parse_c: "parse_conversion (chr CHR ''c'' # xs) args =
  Some (chr CHR ''c'' # xs, \<lparr>flags = 0, width = 0, precision = - 1, type_of = INT'\<rparr>, args)"
  by (simp add: parse_conversion_def parse_width_def parse_precision_def parse_type_def starts_def chr_def
      isdigit_def)

lemma parse_d: "parse_conversion (chr CHR ''d'' # xs) args =
  Some (chr CHR ''d'' # xs, \<lparr>flags = 0, width = 0, precision = - 1, type_of = INT'\<rparr>, args)"
  by (simp add: parse_conversion_def parse_width_def parse_precision_def parse_type_def starts_def chr_def
      isdigit_def)

definition unsupported_chars :: "byte \<Rightarrow> byte list" where
  "unsupported_chars k =
     (if k \<in> set (str ''feEgGn'') then str ''<<no %'' @ [k] @ str '' in kernel>>''
      else str ''<<no %'' @ [k] @ str '' conversion>>'')"

lemma unat_chr: "unat (chr a) = of_char a"
proof -
  have "chr a = of_nat (of_char a)" by (simp add: chr_def of_nat_of_char)
  moreover have "of_char a < (256 :: nat)" by (rule nat_of_char_less_256)
  ultimately show ?thesis by (simp add: unat_of_nat take_bit_eq_mod)
qed

lemma chr_eq [simp]: "chr a = chr b \<longleftrightarrow> a = b"
  by (simp add: word_unat_eq_iff unat_chr)

lemma v_printf_text:
  "CHR ''%'' \<notin> set s \<Longrightarrow> v_printf peek out (str s @ ys) args aux = v_printf peek out ys args (fold out (str s) aux)"
proof (induction s arbitrary: aux)
  case (Cons a s)
  then have "chr a \<noteq> chr CHR ''%''" by auto
  with Cons show ?case by (simp add: str_def v_printf_char)
qed (simp add: str_def)

lemma v_printf_unsupported:
  "v_printf peek out (unsupported k) [scast k] aux = Some (fold out (unsupported_chars k) aux)"
proof -
  have k: "ucast (scast k :: u32) = k" by (rule bit_word_eqI) (auto simp: bit_simps)
  have c: "convert peek out (chr CHR ''c'') \<lparr>flags = 0, width = 0, precision = - 1, type_of = INT'\<rparr> [scast k] aux =
      Some ([], out k aux)" for aux
    by (simp add: convert_def chr_def str_def format_string_def word_sless_alt k)
  have mid: "v_printf peek out (chr CHR ''%'' # chr CHR ''%'' # chr CHR ''%'' # chr CHR ''c'' # xs) [scast k] aux =
      v_printf peek out xs [] (out k (out (chr CHR ''%'') aux))" for xs aux
  proof -
    have "\<not> starts CHR ''%'' (chr CHR ''c'' # xs)" by (simp add: starts_def chr_def)
    then show ?thesis
      by (simp add: v_printf_percent v_printf_conv parse_c c) (simp add: str_def)
  qed
  have "unsupported k = str ''<<no '' @ chr CHR ''%'' # chr CHR ''%'' # chr CHR ''%'' # chr CHR ''c'' #
      str (if k \<in> set (str ''feEgGn'') then '' in kernel>>'' else '' conversion>>'')"
    by (simp add: unsupported_def str_def)
  moreover have "unsupported_chars k = str ''<<no '' @ chr CHR ''%'' # k #
      str (if k \<in> set (str ''feEgGn'') then '' in kernel>>'' else '' conversion>>'')"
    by (simp add: unsupported_chars_def str_def)
  ultimately show ?thesis
    by (simp add: v_printf_text mid del: set_map) (simp add: v_printf_text [where ys = "[]", simplified])
qed

text \<open>Parsing leaves a suffix of the format.\<close>

lemma parse_flags_suffix: "parse_flags xs fl = (ys, fl') \<Longrightarrow> \<exists>zs. xs = zs @ ys"
  by (induction xs fl rule: parse_flags.induct) (auto split: if_splits intro: exI [of _ "_ # _"])

lemma parse_number_suffix: "parse_number xs n = (ys, n') \<Longrightarrow> \<exists>zs. xs = zs @ ys"
  by (induction xs n rule: parse_number.induct) (auto split: if_splits intro: exI [of _ "_ # _"])

lemma tl_suffix: "\<exists>zs. xs = zs @ tl xs"
  by (cases xs) (auto intro: exI [of _ "[_]"])

lemma suffix_trans: "\<exists>zs. xs = zs @ ys \<Longrightarrow> \<exists>zs. ys = zs @ ws \<Longrightarrow> \<exists>zs. xs = zs @ ws"
  by (metis append.assoc)

lemma parse_width_suffix: "parse_width xs args = Some (ys, w, args') \<Longrightarrow> \<exists>zs. xs = zs @ ys"
  using parse_number_suffix tl_suffix
  by (auto simp: parse_width_def panic_simps split: if_splits prod.splits)

lemma parse_precision_suffix: "parse_precision xs args = Some (ys, w, args') \<Longrightarrow> \<exists>zs. xs = zs @ ys"
  using parse_number_suffix [of "tl xs" 0 ys] tl_suffix [of xs] tl_suffix [of "tl xs"]
  by (auto simp: parse_precision_def panic_simps Let_def split: if_splits prod.splits intro: suffix_trans)

lemma parse_type_suffix: "parse_type xs = (ys, t) \<Longrightarrow> \<exists>zs. xs = zs @ ys"
  using tl_suffix [of xs] tl_suffix [of "tl xs"]
  by (auto simp: parse_type_def split: if_splits intro: suffix_trans)

lemma parse_conversion_suffix:
  assumes "parse_conversion xs args = Some (ys, c, args')"
  shows "\<exists>zs. xs = zs @ ys"
proof -
  obtain a fl where a: "parse_flags xs 0 = (a, fl)" by fastforce
  from assms obtain b w args1 d p args2 where w: "parse_width a args = Some (b, w, args1)"
    "parse_precision b args1 = Some (d, p, args2)" "parse_type d = (ys, snd (parse_type d))"
    by (auto simp: parse_conversion_def a panic_simps Let_def split_beta)
  show ?thesis
    by (rule suffix_trans [OF parse_flags_suffix [OF a] suffix_trans [OF parse_width_suffix [OF w(1)]
          suffix_trans [OF parse_precision_suffix [OF w(2)] parse_type_suffix [OF w(3)]]]])
qed

definition convert_chars :: "bmem \<Rightarrow> byte \<Rightarrow> printf_conversion \<Rightarrow> u32 list \<Rightarrow> (u32 list \<times> byte list) option" where
  "convert_chars m k c args = convert (\<lambda>_. m) (\<lambda>x xs. xs @ [x]) k c args []"

lemma bind_option_cases: "Option.bind x f = (case x of None \<Rightarrow> None | Some y \<Rightarrow> f y)"
  by (cases x) simp_all

lemma convert_fold:
  assumes "k \<noteq> chr CHR ''s''"
  shows "convert peek out k c args aux = map_option (\<lambda>(args, cs). (args, fold out cs aux)) (convert_chars m k c args)"
proof -
  have one: "format_string (\<lambda>_ _. x) 1 c out aux = fold out (string_chars [x] c) aux" for x and out :: "byte \<Rightarrow> 'x \<Rightarrow> 'x" and aux
    using format_string_fold [of "[x]" "\<lambda>_ _. x" c out aux] by simp
  have int: "(case format_integer v sg n b c out aux of None \<Rightarrow> None | Some aux \<Rightarrow> Some (args, aux)) =
      map_option (\<lambda>cs. (args, fold out cs aux)) (integer_chars v sg n b c)"
    for v sg n b c args and out :: "byte \<Rightarrow> 'x \<Rightarrow> 'x" and aux
    by (cases "integer_chars v sg n b c") (simp_all add: format_integer_fold)
  note ds = convert_chars_def convert_def bind_option_cases option.map_comp o_def
  consider "k \<in> set (str ''di'')" | "k \<notin> set (str ''di'')" "k \<in> set (str ''ouxX'')"
    | "k \<notin> set (str ''di'')" "k \<notin> set (str ''ouxX'')" by blast
  then show ?thesis
  proof cases
    case 1
    then show ?thesis by (cases "signed_arg (type_of c) args") (auto simp: ds int)
  next
    case 2
    then show ?thesis by (cases "unsigned_arg (type_of c) args") (auto simp: ds int)
  next
    case 3
    with assms show ?thesis by (cases "va_arg args") (auto simp: ds int one)
  qed
qed

text \<open>The bytes that a string conversion reads: the string up to its end or its precision, inclusive.\<close>

definition convert_reads :: "bmem \<Rightarrow> byte \<Rightarrow> printf_conversion \<Rightarrow> u32 list \<Rightarrow> addr list" where
  "convert_reads m k c args =
     (if k = chr CHR ''s''
      then case va_arg args of
          Some (s, _) \<Rightarrow>
            if s = 0 then [] else map (\<lambda>i. s + of_nat i) [0..<Suc (unat (strnlen s (precision c) m))]
        | None \<Rightarrow> []
      else [])"

lemma strnlen_loop_ge: "n \<le> strnlen_loop s mx n m"
proof (induction s mx n m rule: strnlen_loop.induct)
  case (1 s mx n m)
  then show ?case
    by (subst strnlen_loop.simps) (auto simp: word_le_nat_alt unat_inc_less)
qed

lemma strnlen_cong:
  assumes "\<And>i. i \<le> unat (strnlen s mx m) \<Longrightarrow> m' (s + of_nat i) = m (s + of_nat i)"
  shows "strnlen s mx m' = strnlen s mx m"
proof -
  have "strnlen_loop s mx n m' = strnlen_loop s mx n m"
    if "\<And>i. unat n \<le> i \<Longrightarrow> i \<le> unat (strnlen_loop s mx n m) \<Longrightarrow> m' (s + of_nat i) = m (s + of_nat i)" for n
    using that
  proof (induction s mx n m rule: strnlen_loop.induct)
    case (1 s mx n m)
    have here: "m' (s + n) = m (s + n)"
      using 1(2) [of "unat n"] strnlen_loop_ge [of n s mx m] by (simp add: word_le_nat_alt)
    show ?case
    proof (cases "m (s + n) \<noteq> 0 \<and> n < mx")
      case True
      then have "strnlen_loop s mx n m = strnlen_loop s mx (n + 1) m" by (subst strnlen_loop.simps) simp
      moreover have "strnlen_loop s mx n m' = strnlen_loop s mx (n + 1) m'"
        using True here by (subst strnlen_loop.simps) simp
      moreover have "unat (n + 1) = Suc (unat n)" using True unat_inc_less [of n mx] by simp
      ultimately show ?thesis using 1 True by simp
    next
      case False
      then show ?thesis using here by (subst (1 2) strnlen_loop.simps) auto
    qed
  qed
  from this [of 0] assms show ?thesis by (simp add: strnlen_def)
qed

lemma nat_sint_le: "nat (sint w) \<le> unat w"
  for w :: u32
proof -
  have "take_bit 32 (uint w) \<le> uint w" by (rule take_bit_int_less_eq_self_iff [THEN iffD2]) simp
  then have "sint w \<le> uint w"
    by (auto simp: sint_uint signed_take_bit_eq_take_bit_minus)
  then show ?thesis unfolding unat_eq_nat_uint by (rule nat_mono)
qed

lemma format_string_run:
  defines "N len \<equiv> nat (sint len)"
  assumes cs: "cs = format_string (\<lambda>_. f) len c (\<lambda>x xs. xs @ [x]) []"
    and same: "\<And>n i. n \<le> length cs \<Longrightarrow> i < N len \<Longrightarrow> string' (fold out (take n cs) aux) i = f i"
  shows "format_string string' len c out aux = fold out cs aux"
proof -
  define pad where "pad b = (if len <s width c \<and> b then replicate (unat (width c - len)) (chr CHR '' '') else [])" for b
  have snoc: "fold (\<lambda>i aux. aux @ [f i]) xs ys = ys @ map f xs" for xs ys by (induction xs arbitrary: ys) simp_all
  have cs: "cs = pad (flags c AND MINUS = 0) @ map f [0..<N len] @ pad (flags c AND MINUS \<noteq> 0)"
    unfolding cs format_string_def Let_def output_dup_fold N_def pad_def by (simp add: snoc del: fold_replicate)
  let ?p = "pad (flags c AND MINUS = 0)"
  have loop: "fold (\<lambda>i aux. out (string' aux i) aux) [0..<j] (fold out ?p aux) = fold out (?p @ map f [0..<j]) aux"
    if "j \<le> N len" for j
    using that
  proof (induction j)
    case (Suc j)
    have "take (length ?p + j) cs = ?p @ map f [0..<j]" using Suc.prems unfolding cs by (simp add: take_map)
    moreover have "length ?p + j \<le> length cs" using Suc.prems unfolding cs by simp
    ultimately have "string' (fold out (?p @ map f [0..<j]) aux) j = f j"
      using same [of "length ?p + j" j] Suc.prems by simp
    with Suc show ?case by simp
  qed simp
  have "format_string string' len c out aux = fold out (pad (flags c AND MINUS \<noteq> 0))
      (fold (\<lambda>i aux. out (string' aux i) aux) [0..<N len] (fold out ?p aux))"
    unfolding format_string_def Let_def output_dup_fold N_def pad_def by (simp del: fold_replicate)
  then show ?thesis unfolding loop [OF order.refl] cs by simp
qed

lemma convert_run:
  assumes conv: "convert_chars m k c args = Some (args', cs)"
    and same: "\<And>n a. n \<le> length cs \<Longrightarrow> a \<in> set (convert_reads m k c args) \<Longrightarrow> peek (fold out (take n cs) aux) a = m a"
  shows "convert peek out k c args aux = Some (args', fold out cs aux)"
proof (cases "k = chr CHR ''s''")
  case False
  then show ?thesis using convert_fold [OF False, of peek out c args aux m] conv by simp
next
  case True
  then have k: "k \<notin> set (str ''di'')" "k \<notin> set (str ''ouxX'')" "k \<noteq> chr CHR ''c''" by (simp_all add: str_def)
  from conv True k obtain s where s: "va_arg args = Some (s, args')"
    by (auto simp: convert_chars_def convert_def bind_option_cases split: option.splits)
  show ?thesis
  proof (cases "s = 0")
    case s0: True
    let ?len = "if precision c < 6 then precision c else 6"
    have "cs = format_string (\<lambda>_ i. null_string ! i) ?len c (\<lambda>x xs. xs @ [x]) []"
      using conv True k s s0 by (simp add: convert_chars_def convert_def)
    then have "format_string (\<lambda>_ i. null_string ! i) ?len c out aux = fold out cs aux"
      by (rule format_string_run) simp
    then show ?thesis using True k s s0 by (simp add: convert_def)
  next
    case s1: False
    let ?len = "strnlen s (precision c) m"
    have at: "peek (fold out (take n cs) aux) (s + of_nat i) = m (s + of_nat i)" if "n \<le> length cs" "i \<le> unat ?len" for n i
      using that same [of n "s + of_nat i"] True s s1 by (auto simp: convert_reads_def simp del: upt_Suc)
    have len: "strnlen s (precision c) (peek aux) = ?len" using at [of 0] by (intro strnlen_cong) simp
    have "cs = format_string (\<lambda>_ i. m (s + of_nat i)) ?len c (\<lambda>x xs. xs @ [x]) []"
      using conv True k s s1 by (simp add: convert_chars_def convert_def)
    then have "format_string (\<lambda>aux i. peek aux (s + of_nat i)) ?len c out aux = fold out cs aux"
    proof (rule format_string_run)
      fix n i assume "n \<le> length cs" "i < nat (sint ?len)"
      moreover have "nat (sint ?len) \<le> unat ?len" by (rule nat_sint_le)
      ultimately show "peek (fold out (take n cs) aux) (s + of_nat i) = m (s + of_nat i)" by (intro at) simp_all
    qed
    then show ?thesis using True k s s1 len by (simp add: convert_def)
  qed
qed

lemma parse_shorter:
  "format \<noteq> [] \<Longrightarrow> parse_conversion (tl format) args = Some (ys, c, args') \<Longrightarrow> length (tl ys) < length format"
  using parse_conversion_suffix [of "tl format" args ys c args'] by (cases format) auto

lemma tl_shorter: "format \<noteq> [] \<Longrightarrow> length (tl format) < length format \<and> length (tl (tl format)) < length format"
  by (cases format) auto

text \<open>What a format prints when memory is \<open>m\<close>, and the addresses of the string bytes that it reads.\<close>

function printed :: "bmem \<Rightarrow> byte list \<Rightarrow> u32 list \<Rightarrow> (byte list \<times> addr list) option" where
  "printed m format args =
     (if format = [] then Some ([], [])
      else if hd format \<noteq> chr CHR ''%'' then map_option (apfst ((#) (hd format))) (printed m (tl format) args)
      else if starts CHR ''%'' (tl format) then map_option (apfst ((#) (chr CHR ''%''))) (printed m (tl (tl format)) args)
      else case parse_conversion (tl format) args of
          None \<Rightarrow> None
        | Some (ys, c, args) \<Rightarrow>
            (if ys = [] then None
             else if hd ys \<in> set (str ''diouxXcsp'')
             then case convert_chars m (hd ys) c args of
                 None \<Rightarrow> None
               | Some (args', cs) \<Rightarrow>
                   map_option (map_prod ((@) cs) ((@) (convert_reads m (hd ys) c args))) (printed m (tl ys) args')
             else map_option (apfst ((@) (unsupported_chars (hd ys)))) (printed m (tl ys) args)))"
  by pat_completeness auto
termination
  by (relation "measure (\<lambda>(_, format, _). length format)")
    (auto simp: starts_def tl_shorter dest: parse_shorter simp del: length_tl length_greater_0_conv)

declare printed.simps [simp del]

text \<open>The output leaves the bytes \<open>rs\<close> as they are in \<open>m\<close>, whichever part of \<open>cs\<close> has been printed.\<close>

definition keeps_reads :: "('s \<Rightarrow> bmem) \<Rightarrow> (byte \<Rightarrow> 's \<Rightarrow> 's) \<Rightarrow> bmem \<Rightarrow> addr list \<Rightarrow> byte list \<Rightarrow> 's \<Rightarrow> bool" where
  "keeps_reads peek out m rs cs aux \<longleftrightarrow>
     (\<forall>n \<le> length cs. \<forall>a \<in> set rs. peek (fold out (take n cs) aux) a = m a)"

lemma keeps_reads_append:
  assumes "keeps_reads peek out m rs (xs @ ys) aux"
  shows "keeps_reads peek out m rs xs aux" "keeps_reads peek out m rs ys (fold out xs aux)"
proof -
  have all: "peek (fold out (take n (xs @ ys)) aux) a = m a" if "n \<le> length xs + length ys" "a \<in> set rs" for n a
    using assms that by (simp add: keeps_reads_def)
  have "peek (fold out (take n xs) aux) a = m a" if "n \<le> length xs" "a \<in> set rs" for n a
    using all [of n a] that by simp
  then show "keeps_reads peek out m rs xs aux" by (simp add: keeps_reads_def)
  have "peek (fold out (take n ys) (fold out xs aux)) a = m a" if "n \<le> length ys" "a \<in> set rs" for n a
    using all [of "length xs + n" a] that by simp
  then show "keeps_reads peek out m rs ys (fold out xs aux)" by (simp add: keeps_reads_def)
qed

lemma keeps_reads_split:
  "keeps_reads peek out m (rs @ rs') cs aux \<longleftrightarrow> keeps_reads peek out m rs cs aux \<and> keeps_reads peek out m rs' cs aux"
  by (auto simp: keeps_reads_def)

lemma v_printf_run:
  "printed m format args = Some (cs, rs) \<Longrightarrow> keeps_reads peek out m rs cs aux \<Longrightarrow>
   v_printf peek out format args aux = Some (fold out cs aux)"
proof (induction m format args arbitrary: cs rs aux rule: printed.induct)
  case (1 m format args)
  consider "format = []" | "format \<noteq> []" "hd format \<noteq> chr CHR ''%''"
    | "format \<noteq> []" "hd format = chr CHR ''%''" "starts CHR ''%'' (tl format)"
    | "format \<noteq> []" "hd format = chr CHR ''%''" "\<not> starts CHR ''%'' (tl format)" by blast
  then show ?case
  proof cases
    case 1
    then show ?thesis using \<open>printed m format args = Some (cs, rs)\<close> by (simp add: printed.simps [of m "[]"])
  next
    case 2
    with 1(5) obtain cs' where cs: "cs = [hd format] @ cs'" "printed m (tl format) args = Some (cs', rs)"
      by (subst (asm) printed.simps) auto
    with 1(1) [OF 2 cs(2)] keeps_reads_append(2) [OF 1(6) [unfolded cs(1)]] 2 show ?thesis
      by (subst v_printf.simps) simp
  next
    case 3
    with 1(5) obtain cs' where cs: "cs = [chr CHR ''%''] @ cs'" "printed m (tl (tl format)) args = Some (cs', rs)"
      by (subst (asm) printed.simps) auto
    with 1(2) [OF 3(1) _ 3(3) cs(2)] keeps_reads_append(2) [OF 1(6) [unfolded cs(1)]] 3 show ?thesis
      by (subst v_printf.simps) simp
  next
    case 4
    with 1(5) obtain ys c args' where p: "parse_conversion (tl format) args = Some (ys, c, args')" "ys \<noteq> []"
      by (subst (asm) printed.simps) (auto split: option.splits if_splits)
    note IH = 1(3,4) [OF 4(1) _ 4(3) p(1) HOL.refl HOL.refl p(2)]
    show ?thesis
    proof (cases "hd ys \<in> set (str ''diouxXcsp'')")
      case True
      with 1(5) 4 p obtain args'' cs1 cs2 rs2 where c: "convert_chars m (hd ys) c args' = Some (args'', cs1)"
          "printed m (tl ys) args'' = Some (cs2, rs2)" "cs = cs1 @ cs2" "rs = convert_reads m (hd ys) c args' @ rs2"
        by (subst (asm) printed.simps) (auto split: option.splits)
      note keep = 1(6) [unfolded c(3,4) keeps_reads_split]
      have "convert peek out (hd ys) c args' aux = Some (args'', fold out cs1 aux)"
        using keeps_reads_append(1) [OF keep [THEN conjunct1]] by (intro convert_run [OF c(1)]) (simp add: keeps_reads_def)
      moreover have "v_printf peek out (tl ys) args'' (fold out cs1 aux) = Some (fold out cs2 (fold out cs1 aux))"
        using IH(1) [OF _ True c(1) HOL.refl c(2)] 4(2) keeps_reads_append(2) [OF keep [THEN conjunct2]] by simp
      ultimately show ?thesis using 4 p True c(3) by (subst v_printf.simps) simp
    next
      case False
      with 1(5) 4 p obtain cs2 where c: "printed m (tl ys) args' = Some (cs2, rs)" "cs = unsupported_chars (hd ys) @ cs2"
        by (subst (asm) printed.simps) auto
      then have "v_printf peek out (tl ys) args' (fold out (unsupported_chars (hd ys)) aux) = Some (fold out cs aux)"
        using IH(2) [OF _ False c(1)] 4(2) keeps_reads_append(2) [OF 1(6) [unfolded c(2)]] by simp
      then show ?thesis using 4 p False by (subst v_printf.simps) (simp add: v_printf_unsupported)
    qed
  qed
qed

section \<open>Bounded output\<close>

lemma sint_small: "k < 2 ^ 31 \<Longrightarrow> sint (of_nat k :: u32) = int k"
  by (simp add: signed_of_nat signed_take_bit_int_eq_self)

lemma helper_fold:
  assumes "unat mx < 2 ^ 31" "length cs < 2 ^ 31"
  shows "fold vsnprintf_helper cs (\<lparr>out_p = b, out_length = 0, max_length = mx\<rparr>, m) =
    (\<lparr>out_p = b + of_nat (min (length cs) (unat mx)), out_length = of_nat (length cs), max_length = mx\<rparr>,
     \<lambda>p. if unat (p - b) < min (length cs) (unat mx) then cs ! unat (p - b) else m p)"
  using assms(2)
proof (induction cs rule: rev_induct)
  case (snoc c cs)
  let ?n = "length cs"
  have s: "sint mx = int (unat mx)" "sint (of_nat ?n :: u32) = int ?n"
    using sint_small [of "unat mx"] sint_small [of ?n] assms(1) snoc.prems by simp_all
  then have lt: "(of_nat ?n :: u32) <s mx \<longleftrightarrow> ?n < unat mx" unfolding word_sless_alt by (simp only: of_nat_less_iff)
  have u: "unat (of_nat ?n :: u32) = ?n" using snoc.prems by (simp add: unat_of_nat take_bit_eq_mod)
  show ?case
  proof (cases "?n < unat mx")
    case True
    have at: "p = b + of_nat ?n \<longleftrightarrow> unat (p - b) = ?n" for p
      using u by (metis add_diff_cancel_left' diff_add_cancel add.commute word_unat_eq_iff)
    show ?thesis
      using snoc True lt by (auto simp: fun_eq_iff at nth_append less_Suc_eq min_def)
  next
    case False
    then show ?thesis using snoc lt by (auto simp: nth_append min_def fun_eq_iff)
  qed
qed simp

section \<open>Decimal numbers\<close>

fun rdigits :: "nat \<Rightarrow> nat list" where
  "rdigits n = (if n = 0 then [] else n mod 10 # rdigits (n div 10))"

declare rdigits.simps [simp del]

definition digit :: "nat \<Rightarrow> byte" where
  "digit d = chr CHR ''0'' + of_nat d"

lemma digit_d: "d < 10 \<Longrightarrow> arr_get (ib_digits base_d) d = Some (digit d)"
  by (simp add: base_d_def str_def digit_def chr_def less_Suc_eq numeral_eq_Suc) auto

lemma rdigits_range: "d \<in> set (rdigits n) \<Longrightarrow> d < 10"
  by (induction n rule: rdigits.induct) (subst (asm) rdigits.simps, auto split: if_splits)

lemma length_rdigits: "n < 10 ^ k \<Longrightarrow> length (rdigits n) \<le> k"
proof (induction k arbitrary: n)
  case 0
  then show ?case by (simp add: rdigits.simps)
next
  case (Suc k)
  have "length (rdigits (n div 10)) \<le> k" using Suc.prems by (intro Suc.IH) (simp add: less_mult_imp_div_less mult.commute)
  then show ?case by (subst rdigits.simps) simp
qed

lemma digit_loop_d:
  assumes "fl AND GROUP = 0" "length buf + length (rdigits (unat v)) \<le> 64"
  shows "digit_loop base_d fl v buf k = Some (buf @ map digit (rdigits (unat v)))"
  using assms(2)
proof (induction "unat v" arbitrary: v buf k rule: less_induct)
  case less
  show ?case
  proof (cases "v = 0")
    case True
    then show ?thesis by (subst digit_loop.simps) (simp add: rdigits.simps)
  next
    case False
    then have v: "unat v \<noteq> 0" by (simp add: unsigned_eq_0_iff)
    have u: "unat (v mod 10) = unat v mod 10" "unat (v div 10) = unat v div 10" by (simp_all add: unat_mod unat_div)
    have r: "rdigits (unat v) = unat v mod 10 # rdigits (unat (v div 10))"
      using v by (subst rdigits.simps) (simp add: u)
    have "digit_loop base_d fl (v div 10) (buf @ [digit (unat v mod 10)]) (k + 1) =
        Some ((buf @ [digit (unat v mod 10)]) @ map digit (rdigits (unat (v div 10))))"
      using less.prems v r by (intro less.hyps) (simp_all add: u)
    moreover have "ib_base base_d = 10" by (simp add: base_d_def)
    ultimately show ?thesis
      using False less.prems assms(1) digit_d [of "unat v mod 10"] r
      by (subst digit_loop.simps) (simp add: u word_gt_0 buf_put_def)
  qed
qed

definition decimal :: "nat \<Rightarrow> byte list" where
  "decimal n = (if n = 0 then [digit 0] else rev (map digit (rdigits n)))"

lemma length_decimal: "n \<le> 2 ^ 31 \<Longrightarrow> 1 \<le> length (decimal n) \<and> length (decimal n) \<le> 10"
  using length_rdigits [of n 10] by (auto simp: decimal_def rdigits.simps [of n])

lemma abs_value:
  fixes n :: u32
  defines "v \<equiv> (scast n :: u64)"
  shows "v <s 0 \<longleftrightarrow> n <s 0" "unat (if v <s 0 then - v else v) = nat \<bar>sint n\<bar>" "nat \<bar>sint n\<bar> \<le> 2 ^ 31"
proof -
  have s: "sint v = sint n" by (simp add: v_def sint_up_scast is_up)
  show "v <s 0 \<longleftrightarrow> n <s 0" by (simp add: word_sless_alt s)
  have r: "- (2 ^ 31) \<le> sint n" "sint n < 2 ^ 31" using sint_ge [of n] sint_lt [of n] by simp_all
  then show "nat \<bar>sint n\<bar> \<le> 2 ^ 31" by auto
  have u: "unat (of_int k :: u64) = nat k" if "0 \<le> k" "k \<le> 2 ^ 31" for k
    using that by (simp add: unat_eq_nat_uint uint_word_of_int)
  have "of_int (sint v) = v" by simp
  then have v: "v = of_int (sint n)" using s by simp
  have neg: "v <s 0 \<longleftrightarrow> sint n < 0" by (simp add: word_sless_alt s)
  have "(if v <s 0 then - v else v) = of_int \<bar>sint n\<bar>"
    unfolding neg by (subst (1 2) v) (simp add: abs_if)
  with u [of "\<bar>sint n\<bar>"] r show "unat (if v <s 0 then - v else v) = nat \<bar>sint n\<bar>" by auto
qed

definition plain :: printf_conversion where
  "plain = \<lparr>flags = 0, width = 0, precision = - 1, type_of = INT'\<rparr>"

lemma plain_sel [simp]:
  "flags plain = 0" "width plain = 0" "precision plain = - 1" "type_of plain = INT'"
  by (simp_all add: plain_def)

lemma integer_buf_plain:
  assumes "unat v \<le> 2 ^ 31"
  shows "integer_buf v base_d plain = Some (rev (decimal (unat v)))"
proof -
  have "length (rdigits (unat v)) \<le> 10" using assms by (intro length_rdigits) simp
  then have d: "digit_loop base_d 0 v [] 0 = Some (map digit (rdigits (unat v)))"
    using digit_loop_d [of 0 "[]" v 0] by simp
  have "rdigits (unat v) = [] \<longleftrightarrow> unat v = 0" by (subst rdigits.simps) simp
  moreover have "zero_loop 1 [] = [digit 0]" by (simp add: zero_loop.simps digit_def)
  moreover have "xs \<noteq> [] \<Longrightarrow> zero_loop 1 xs = xs" for xs by (cases xs) (simp_all add: zero_loop.simps)
  ultimately have "zero_loop 1 (map digit (rdigits (unat v))) = rev (decimal (unat v))"
    by (cases "unat v = 0") (auto simp: decimal_def rdigits.simps [of 0])
  with d show ?thesis by (simp add: integer_buf_def plain_def word_sless_alt)
qed

lemma printed_d:
  "printed m (str ''%d'') [n] =
   Some ((if n <s 0 then [chr CHR ''-''] else []) @ decimal (nat \<bar>sint n\<bar>), [])"
proof -
  let ?v = "scast n :: u64" and ?xs = "decimal (nat \<bar>sint n\<bar>)"
  note a = abs_value [of n]
  have buf: "integer_buf (if ?v <s 0 then - ?v else ?v) base_d plain = Some (rev ?xs)"
    using integer_buf_plain [of "if ?v <s 0 then - ?v else ?v"] a(2,3) by simp
  have len: "1 \<le> length ?xs" "length ?xs \<le> 10" using length_decimal [OF a(3)] by auto
  have small: "(of_int k :: u32) <s 0" if "- 20 \<le> k" "k < 0" for k
    using that by (simp add: word_sless_alt signed_of_int signed_take_bit_int_eq_self)
  have "- of_nat (length ?xs) <s (0 :: u32)" "- of_nat (length ?xs) - 1 <s (0 :: u32)"
    using small [of "- int (length ?xs)"] small [of "- int (length ?xs) - 1"] len by (cases "?xs = []", simp_all)+
  moreover have "chr CHR ''-'' \<noteq> 0" by (simp add: chr_def)
  ultimately have "integer_chars (if ?v <s 0 then - ?v else ?v) True (?v <s 0) base_d plain =
      Some ((if ?v <s 0 then [chr CHR ''-''] else []) @ ?xs)"
    using buf by (cases "?v <s 0") (simp_all add: integer_chars_def sign_char_def Let_def)
  then have c: "convert_chars m (chr CHR ''d'') plain [n] = Some ([], (if n <s 0 then [chr CHR ''-''] else []) @ ?xs)"
    unfolding a(1) [symmetric]
    by (simp add: convert_chars_def convert_def str_def signed_arg_def format_integer_fold plain_def)
  have "\<not> starts CHR ''%'' [chr CHR ''d'']" by (simp add: starts_def)
  then show ?thesis using c parse_d [of "[]" "[n]"]
    by (subst printed.simps) (simp add: str_def plain_def printed.simps [of m "[]"] convert_reads_def)
qed

lemma decimal_digits: "\<exists>ds. decimal n = map digit ds \<and> ds \<noteq> [] \<and> (\<forall>d \<in> set ds. d < 10) \<and>
  foldl (\<lambda>v d. v * 10 - of_nat d) 0 ds = (- of_nat n :: u32)"
proof (cases "n = 0")
  case True
  then show ?thesis by (intro exI [of _ "[0]"]) (simp add: decimal_def)
next
  case False
  have "foldl (\<lambda>v d. v * 10 - of_nat d) 0 (rev (rdigits k)) = (- of_nat k :: u32)" for k
  proof (induction k rule: rdigits.induct)
    case (1 k)
    show ?case
    proof (cases "k = 0")
      case False
      then have "foldl (\<lambda>v d. v * 10 - of_nat d) 0 (rev (rdigits k)) = (- of_nat (k div 10) * 10 - of_nat (k mod 10) :: u32)"
        using 1 by (subst rdigits.simps) simp
      also have "\<dots> = - of_nat (k div 10 * 10 + k mod 10)" by (simp only: of_nat_add of_nat_mult) simp
      also have "\<dots> = - of_nat k" by (simp only: div_mult_mod_eq)
      finally show ?thesis .
    qed (simp add: rdigits.simps)
  qed
  moreover have "rdigits n \<noteq> []" using False by (subst rdigits.simps) simp
  ultimately show ?thesis
    using False rdigits_range [of _ n] by (intro exI [of _ "rev (rdigits n)"]) (auto simp: decimal_def rev_map)
qed

lemma digit_props:
  assumes "d < 10"
  shows "isdigit (digit d)" "ucast (digit d) - ucast (chr CHR ''0'') = (of_nat d :: u32)" "digit d \<noteq> 0"
    "\<not> isspace (digit d)" "digit d \<noteq> chr CHR ''+''" "digit d \<noteq> chr CHR ''-''"
proof -
  have "d \<in> {0, 1, 2, 3, 4, 5, 6, 7, 8, 9}" using assms by auto
  then show "isdigit (digit d)" "ucast (digit d) - ucast (chr CHR ''0'') = (of_nat d :: u32)" "digit d \<noteq> 0"
    "\<not> isspace (digit d)" "digit d \<noteq> chr CHR ''+''" "digit d \<noteq> chr CHR ''-''"
    by (auto simp: isdigit_def digit_def chr_def isspace_def)
qed

lemma atoi_digits_cstr:
  "cstr m s (map digit ds) \<Longrightarrow> \<forall>d \<in> set ds. d < 10 \<Longrightarrow>
   atoi_digits s v m = Some (foldl (\<lambda>v d. v * 10 - of_nat d) v ds)"
proof (induction ds arbitrary: s v)
  case Nil
  then show ?case by (subst atoi_digits.simps) (simp add: isdigit_def chr_def)
next
  case (Cons d ds)
  then show ?case using digit_props [of d] by (subst atoi_digits.simps) simp
qed

lemma atoi_decimal:
  assumes "cstr m p ((if n <s 0 then [chr CHR ''-''] else []) @ decimal (nat \<bar>sint n\<bar>))"
  shows "atoi p m = Some n"
proof -
  obtain ds where ds: "decimal (nat \<bar>sint n\<bar>) = map digit ds" "ds \<noteq> []" "\<forall>d \<in> set ds. d < 10"
    "foldl (\<lambda>v d. v * 10 - of_nat d) 0 ds = (- of_nat (nat \<bar>sint n\<bar>) :: u32)" using decimal_digits by blast
  have n: "of_int (sint n) = n" by simp
  have p: "p \<noteq> 0" by (rule cstr_nonzero [OF assms])
  show ?thesis
  proof (cases "n <s 0")
    case True
    then have c: "m p = chr CHR ''-''" "cstr m (p + 1) (map digit ds)" using assms ds(1) by simp_all
    then have "atoi_skip p m = Some p" by (subst atoi_skip.simps) (simp add: isspace_def chr_def)
    moreover have "- of_nat (nat \<bar>sint n\<bar>) = n" using True n by (simp add: word_sless_alt abs_if)
    ultimately show ?thesis using c p atoi_digits_cstr [OF c(2) ds(3)] ds(4) by (simp add: atoi_def)
  next
    case False
    then have c: "cstr m p (map digit ds)" using assms ds(1) by simp
    then obtain d where d: "m p = digit d" "d < 10" using ds(2,3) by (cases ds) auto
    then have "atoi_skip p m = Some p" using digit_props by (subst atoi_skip.simps) simp
    moreover have "of_nat (nat \<bar>sint n\<bar>) = n" using False n by (simp add: word_sless_alt abs_if)
    ultimately show ?thesis
      using d p digit_props [OF d(2)] atoi_digits_cstr [OF c ds(3)] ds(4) by (simp add: atoi_def)
  qed
qed

lemma vsnprintf_run:
  assumes print: "printed m format args = Some (cs, rs)" and apart: "\<forall>a \<in> set rs. \<not> a - buffer < buf_size"
    and len: "length cs < 2 ^ 31" "unat buf_size \<le> 2 ^ 31"
  defines "k \<equiv> min (length cs) (unat buf_size - 1)"
  shows "vsnprintf buffer buf_size format args m = Some (of_nat (length cs),
    \<lambda>p. if unat (p - buffer) < k then cs ! unat (p - buffer)
         else if unat (p - buffer) = k \<and> buf_size \<noteq> 0 then 0 else m p)"
proof -
  define mx where "mx = (if buf_size > 0 then buf_size - 1 else 0)"
  have u: "unat mx = unat buf_size - 1" by (simp add: mx_def word_gt_0 unat_pred)
  then have mx: "unat mx < 2 ^ 31" using len(2) by simp
  have uk: "unat (of_nat k :: addr) = k" using len(1) by (simp add: k_def unat_of_nat take_bit_eq_mod min_def)
  then have at: "p = buffer + of_nat k \<longleftrightarrow> unat (p - buffer) = k" for p
    by (metis add_diff_cancel_left' diff_add_cancel add.commute word_unat_eq_iff)
  let ?aux = "(\<lparr>out_p = buffer, out_length = 0, max_length = mx\<rparr>, m)"
  have "snd (fold vsnprintf_helper (take n cs) ?aux) a = m a" if "n \<le> length cs" "a \<in> set rs" for n a
  proof -
    have "buf_size \<le> a - buffer" using apart that(2) by (simp add: not_less)
    then have "\<not> unat (a - buffer) < unat mx" unfolding word_le_nat_alt u by linarith
    then show ?thesis using helper_fold [OF mx, of "take n cs" buffer m] len(1) by simp
  qed
  then have "v_printf snd vsnprintf_helper format args ?aux = Some (fold vsnprintf_helper cs ?aux)"
    by (intro v_printf_run [OF print]) (simp add: keeps_reads_def)
  moreover have "fold vsnprintf_helper cs ?aux =
      (\<lparr>out_p = buffer + of_nat k, out_length = of_nat (length cs), max_length = mx\<rparr>,
       \<lambda>p. if unat (p - buffer) < k then cs ! unat (p - buffer) else m p)"
    using helper_fold [OF mx len(1), of buffer m] by (simp add: u k_def)
  ultimately have "vsnprintf buffer buf_size format args m = Some (of_nat (length cs),
      let f = \<lambda>p. if unat (p - buffer) < k then cs ! unat (p - buffer) else m p
      in if buf_size > 0 then f(buffer + of_nat k := 0) else f)"
    unfolding vsnprintf_def mx_def [symmetric] by (simp add: Let_def)
  then show ?thesis by (auto simp: Let_def word_gt_0 fun_upd_def at fun_eq_iff)
qed

lemma digit_loop_fits:
  assumes "unat (ib_base b) \<le> length (ib_digits b)" "8 \<le> unat (ib_base b)" "unat v < 8 ^ n" "length buf + 2 * n \<le> 64"
  shows "\<exists>buf'. digit_loop b fl v buf k = Some buf' \<and> length buf' \<le> length buf + 2 * n"
  using assms(3,4)
proof (induction n arbitrary: v buf k)
  case 0
  then have "v = 0" by (simp add: unsigned_eq_0_iff)
  then show ?case by (subst digit_loop.simps) simp
next
  case (Suc n)
  show ?case
  proof (cases "v = 0")
    case True
    then show ?thesis by (subst digit_loop.simps) simp
  next
    case False
    define buf1 where "buf1 = (if fl AND GROUP \<noteq> 0 \<and> k > 0 \<and> k mod ib_group b = 0 then buf @ [chr CHR '',''] else buf)"
    let ?d = "ib_digits b ! unat (v mod ib_base b)"
    have "unat (v mod ib_base b) < length (ib_digits b)"
      unfolding unat_mod using assms(1,2) by (intro less_le_trans [OF mod_less_divisor]) linarith+
    then have step: "digit_loop b fl v buf k = digit_loop b fl (v div ib_base b) (buf1 @ [?d]) (k + 1)"
      using False Suc.prems(2) by (subst digit_loop.simps) (auto simp: buf1_def word_gt_0 buf_put_def)
    have len: "length (buf1 @ [?d]) \<le> length buf + 2" by (simp add: buf1_def)
    have "unat v div unat (ib_base b) \<le> unat v div 8" using assms(2) by (intro div_le_mono2) auto
    also have "\<dots> < 8 ^ n" using Suc.prems(1) by (simp add: less_mult_imp_div_less mult.commute)
    finally have "unat (v div ib_base b) < 8 ^ n" by (simp add: unat_div)
    with Suc.IH [of "v div ib_base b" "buf1 @ [?d]" "k + 1"] len Suc.prems(2) step show ?thesis by fastforce
  qed
qed

lemma zero_loop_length: "length buf \<le> 63 \<Longrightarrow> length (zero_loop p buf) \<le> 63"
  by (induction p buf rule: zero_loop.induct) (subst zero_loop.simps, simp)

lemma base_digits:
  assumes "b \<in> {base_d, base_o, base_x, base_X}"
  shows "unat (ib_base b) \<le> length (ib_digits b)" "8 \<le> unat (ib_base b)"
  using assms by (auto simp: base_d_def base_o_def base_x_def base_X_def str_def)

section \<open>Properties\<close>

text \<open>
  The 64-byte buffer of \<open>format_integer\<close> never overflows and no digit is read outside the digit
  table: for every value, every one of the four bases and every conversion, digits, group
  separators, precision zeros and the octal prefix included.\<close>

theorem format_integer_in_bounds:
  assumes "b \<in> {base_d, base_o, base_x, base_X}"
  shows "\<exists>buf. integer_buf v b c = Some buf \<and> length buf \<le> 64"
proof -
  have "unat v < 8 ^ 22" using unsigned_less [of v, where 'a = nat] by simp
  with digit_loop_fits [OF base_digits [OF assms], of v 22 "[]" "flags c" 0] obtain buf where
    d: "digit_loop b (flags c) v [] 0 = Some buf" "length buf \<le> 44" by auto
  define buf1 where "buf1 = zero_loop (if precision c <s 0 then 1 else precision c) buf"
  have "length buf1 \<le> 63" unfolding buf1_def using d(2) by (intro zero_loop_length) simp
  then show ?thesis unfolding integer_buf_def by (simp add: d(1) buf1_def [symmetric] Let_def buf_put_def)
qed

theorem format_integer_in_bounds_witness:
  "base_o \<in> {base_d, base_o, base_x, base_X} \<and>
   (\<exists>buf. integer_buf (- 1) base_o (plain\<lparr>flags := POUND OR GROUP, precision := 100\<rparr>) = Some buf \<and> length buf \<le> 64)"
  using format_integer_in_bounds [of base_o] by simp

text \<open>
  C35. \<open>vsnprintf\<close> is a bounded print.  Let a format print the characters \<open>cs\<close>, fewer than 2^31, string
  conversions included, and let the bytes of the string arguments that it reads lie outside the
  buffer.  With a buffer of \<open>buf_size\<close> bytes, at most 2^31, \<open>vsnprintf\<close> returns the number of these
  characters, stores the longest prefix of them that leaves room for a terminating null byte,
  terminates it unless \<open>buf_size\<close> is zero, and writes nothing outside the buffer.\<close>

theorem vsnprintf_truncates:
  assumes "printed m format args = Some (cs, rs)" "\<forall>a \<in> set rs. \<not> a - buffer < buf_size"
    "length cs < 2 ^ 31" "unat buf_size \<le> 2 ^ 31"
  shows "\<exists>m'. vsnprintf buffer buf_size format args m = Some (of_nat (length cs), m') \<and>
    bytes m' buffer (min (length cs) (unat buf_size - 1)) = take (unat buf_size - 1) cs \<and>
    (buf_size \<noteq> 0 \<longrightarrow> m' (buffer + of_nat (min (length cs) (unat buf_size - 1))) = 0) \<and>
    (\<forall>p. \<not> p - buffer < buf_size \<longrightarrow> m' p = m p)"
proof -
  let ?k = "min (length cs) (unat buf_size - 1)"
  let ?m = "\<lambda>p. if unat (p - buffer) < ?k then cs ! unat (p - buffer)
         else if unat (p - buffer) = ?k \<and> buf_size \<noteq> 0 then 0 else m p"
  have u: "unat (of_nat i :: addr) = i" if "i \<le> ?k" for i
    using that assms(3) by (simp add: unat_of_nat take_bit_eq_mod)
  have "bytes ?m buffer ?k = take (unat buf_size - 1) cs"
    using u by (intro nth_equalityI) auto
  moreover have "buf_size \<noteq> 0 \<longrightarrow> ?m (buffer + of_nat ?k) = 0" using u [of ?k] by simp
  moreover have "?m p = m p" if "\<not> p - buffer < buf_size" for p
  proof -
    have "unat buf_size \<le> unat (p - buffer)" using that by (simp add: word_less_nat_alt not_less)
    then have "\<not> unat (p - buffer) < ?k" "\<not> (unat (p - buffer) = ?k \<and> buf_size \<noteq> 0)"
      using unat_gt_0 [of buf_size] by linarith+
    then show ?thesis by (simp only: if_False)
  qed
  ultimately show ?thesis using vsnprintf_run [OF assms] by blast
qed

text \<open>The string \<open>abc\<close> at the address 0x2000.\<close>

definition demo_string :: bmem where
  "demo_string = (\<lambda>_. 0)(0x2000 := 97, 0x2001 := 98, 0x2002 := 99)"

theorem vsnprintf_truncates_witness:
  "\<exists>m'. vsnprintf 0x1000 6 (str ''%s=%d'') [0x2000, 0xfffffb2e] demo_string = Some (9, m') \<and>
    bytes m' 0x1000 5 = str ''abc=-'' \<and> m' 0x1005 = 0"
proof -
  have p: "printed demo_string (str ''%s=%d'') [0x2000, 0xfffffb2e] =
      Some (str ''abc=-1234'', [0x2000, 0x2001, 0x2002, 0x2003])" by code_simp
  have apart: "\<forall>a \<in> set [0x2000, 0x2001, 0x2002, 0x2003]. \<not> a - 0x1000 < (6 :: u32)" by simp
  have l: "length (str ''abc=-1234'') = 9" "min (length (str ''abc=-1234'')) (unat (6 :: u32) - 1) = 5"
    "take (unat (6 :: u32) - 1) (str ''abc=-1234'') = str ''abc=-''" by (simp_all add: str_def)
  from vsnprintf_truncates [OF p apart, unfolded l] show ?thesis by auto
qed

text \<open>
  C34. An integer printed by \<open>snprintf\<close> with \<open>%d\<close> into a buffer of at least 12 bytes is read back by
  \<open>atoi\<close>, for every \<open>int\<close>, the least one included.\<close>

theorem printf_atoi_roundtrip:
  assumes "12 \<le> unat buf_size" "unat buf_size \<le> 2 ^ 31" "buffer \<noteq> 0" "unat buffer + 12 \<le> 2 ^ 32"
  shows "\<exists>len m'. snprintf buffer buf_size (str ''%d'') [n] m = Some (len, m') \<and> atoi buffer m' = Some n"
proof -
  define cs where "cs = (if n <s 0 then [chr CHR ''-''] else []) @ decimal (nat \<bar>sint n\<bar>)"
  have len: "length cs \<le> 11" using length_decimal [OF abs_value(3), of n] by (auto simp: cs_def)
  have b: "buf_size \<noteq> 0" using assms(1) by auto
  obtain ds where "decimal (nat \<bar>sint n\<bar>) = map digit ds" "\<forall>d \<in> set ds. d < 10" using decimal_digits by blast
  then have nz: "0 \<notin> set cs" using digit_props(3) by (force simp: cs_def chr_def)
  have k: "min (length cs) (unat buf_size - 1) = length cs" using len assms(1) by simp
  from vsnprintf_run [OF printed_d [of m n, folded cs_def] _ _ assms(2), of buffer] len k b obtain m' where
    m': "vsnprintf buffer buf_size (str ''%d'') [n] m = Some (of_nat (length cs), m')"
      "\<And>p. unat (p - buffer) < length cs \<Longrightarrow> m' p = cs ! unat (p - buffer)"
      "\<And>p. unat (p - buffer) = length cs \<Longrightarrow> m' p = 0" by auto
  have u: "unat (of_nat i :: addr) = i" if "i \<le> length cs" for i
    using that len by (simp add: unat_of_nat take_bit_eq_mod)
  have "bytes m' buffer (length cs) = cs" using m'(2) u by (intro nth_equalityI) auto
  then have "cstr m' buffer cs" unfolding cstr_iff using assms(3,4) len nz m'(3) u by auto
  then have "atoi buffer m' = Some n" unfolding cs_def by (rule atoi_decimal)
  with m'(1) show ?thesis by (auto simp: snprintf_def)
qed

theorem printf_atoi_roundtrip_witness:
  "\<exists>len m'. snprintf 0xc0001000 16 (str ''%d'') [0x80000000] (\<lambda>_. 7) = Some (len, m') \<and>
    atoi 0xc0001000 m' = Some 0x80000000"
  using printf_atoi_roundtrip [of 16 "0xc0001000" "0x80000000" "\<lambda>_. 7"] by simp

end
