(* ===== verification/Spec2Isabelle.thy ===== *)
theory Spec2Isabelle
  imports Hash_Table Arith64 Pagedir Strings Sched Cache Page_Fault Stdlib Stdio
begin

text \<open>
  A verification of the Pintos kernel of this repository (\<open>src/src\<close>).
\<close>

end
